(* ===== verification/Leano_Prelude.thy ===== *)
theory Leano_Prelude
  imports Main
begin

section \<open>Shared types, conversions and lemmas\<close>

text \<open>
  What every component of the development shares: the faults a C++ operation can end in, the
  conversions between the machine integers that the sources mix (\<open>int\<close>, \<open>unsigned\<close>,
  \<open>size_t\<close>), and the counting lemmas on lists of threads.
  A \<open>fault\<close> is a run the C++ standard gives no meaning to, or an exception that leaves the
  operation; an operation that can fail returns \<open>fault + 'a\<close>.
\<close>

named_theorems section_simps \<open>the critical sections of the monitors, unfolded\<close>
named_theorems fault_simps \<open>the definitions of operations that can fault, unfolded\<close>

datatype fault =
    Null_deref        \<comment> \<open>a null pointer is dereferenced\<close>
  | Out_of_bounds     \<comment> \<open>a read or write outside its array or block\<close>
  | Dangling          \<comment> \<open>a freed object, or a pointer that was never set, is used\<close>
  | No_return         \<comment> \<open>control flows off the end of a non-void function\<close>
  | Uncaught          \<comment> \<open>an exception leaves the operation\<close>
  | Lock_held         \<comment> \<open>a mutex is locked that will never be unlocked\<close>

type_synonym 'a res = "fault + 'a"

definition bind_res :: "'a res \<Rightarrow> ('a \<Rightarrow> 'b res) \<Rightarrow> 'b res" where
  "bind_res r f = (case r of Inl e \<Rightarrow> Inl e | Inr x \<Rightarrow> f x)"

lemma bind_res_simps [simp]:
  "bind_res (Inl e) f = Inl e"
  "bind_res (Inr x) f = f x"
  by (simp_all add: bind_res_def)

lemma bind_res_Inl_iff:
  "bind_res r f = Inl e \<longleftrightarrow> r = Inl e \<or> (\<exists>x. r = Inr x \<and> f x = Inl e)"
  by (cases r) auto

lemma bind_res_Inr_iff:
  "bind_res r f = Inr y \<longleftrightarrow> (\<exists>x. r = Inr x \<and> f x = Inr y)"
  by (cases r) auto

text \<open>A run that ends, in a state with a property.\<close>

definition ends_in :: "'a option \<Rightarrow> ('a \<Rightarrow> bool) \<Rightarrow> bool" where
  "ends_in r P = (case r of None \<Rightarrow> False | Some s \<Rightarrow> P s)"

lemma ends_in_simps [simp]: "ends_in (Some s) P = P s" "ends_in None P = False"
  by (simp_all add: ends_in_def)

lemma ends_in_iff: "ends_in r P \<longleftrightarrow> (\<exists>s. r = Some s \<and> P s)"
  by (cases r) auto

subsection \<open>Machine integers\<close>

text \<open>
  An \<open>int\<close> is a 32-bit two's complement value, \<open>unsigned\<close> a value below \<open>2^32\<close>, \<open>size_t\<close> a
  value below \<open>2^64\<close> (the build is \<open>-m64\<close>). A comparison such as \<open>m_queue.size() >= m_maxSize\<close>
  converts its \<open>int\<close> operand to \<open>size_t\<close>, so a negative bound becomes a huge one.
\<close>

definition is_int32 :: "int \<Rightarrow> bool" where
  "is_int32 n \<longleftrightarrow> - (2 ^ 31) \<le> n \<and> n < 2 ^ 31"

definition size_t_of_int :: "int \<Rightarrow> nat" where
  "size_t_of_int n = nat (n mod 2 ^ 64)"

definition unsigned_of :: "int \<Rightarrow> nat" where
  "unsigned_of n = nat (n mod 2 ^ 32)"

definition int_of_size_t :: "nat \<Rightarrow> int" where
  "int_of_size_t n = (int n + 2 ^ 31) mod 2 ^ 32 - 2 ^ 31"

lemma size_t_of_int_nonneg [simp]: "0 \<le> n \<Longrightarrow> n < 2 ^ 64 \<Longrightarrow> size_t_of_int n = nat n"
  by (simp add: size_t_of_int_def)

lemma size_t_of_int_of_nat: "n < 2 ^ 31 \<Longrightarrow> size_t_of_int (int n) = n"
proof -
  assume "n < 2 ^ 31"
  then have "int n < 2 ^ 31" by (metis of_nat_less_iff of_nat_numeral of_nat_power)
  also have "(2 :: int) ^ 31 < 2 ^ 64" by simp
  finally show ?thesis by (simp del: power_numeral Num.pow.simps)
qed

lemma size_t_of_int_neg:
  assumes "- (2 ^ 31) \<le> n" and "n < 0"
  shows "size_t_of_int n = nat (2 ^ 64 + n)"
proof -
  have "n mod 2 ^ 64 = (n + 2 ^ 64) mod 2 ^ 64" by simp
  also have "\<dots> = n + 2 ^ 64" using assms by (intro mod_pos_pos_trivial) auto
  finally show ?thesis by (simp add: size_t_of_int_def add.commute)
qed

lemma unsigned_of_small [simp]: "0 \<le> n \<Longrightarrow> n < 2 ^ 32 \<Longrightarrow> unsigned_of n = nat n"
  by (simp add: unsigned_of_def)

lemma int_of_size_t_small [simp]: "n < 2 ^ 31 \<Longrightarrow> int_of_size_t n = int n"
  by (simp add: int_of_size_t_def)

subsection \<open>Counting list elements\<close>

definition count_where :: "('a \<Rightarrow> bool) \<Rightarrow> 'a list \<Rightarrow> nat" where
  "count_where P xs = length (filter P xs)"

lemma count_where_simps [simp]:
  "count_where P [] = 0"
  "count_where P (x # xs) = (if P x then 1 else 0) + count_where P xs"
  by (simp_all add: count_where_def)

lemma count_where_append [simp]:
  "count_where P (xs @ ys) = count_where P xs + count_where P ys"
  by (simp add: count_where_def)

lemma count_where_update:
  "i < length xs \<Longrightarrow>
    count_where P (xs[i := x]) + (if P (xs ! i) then 1 else 0) =
    count_where P xs + (if P x then 1 else 0)"
proof (induction xs arbitrary: i)
  case (Cons y ys)
  show ?case
  proof (cases i)
    case (Suc j)
    with Cons.prems Cons.IH [of j] show ?thesis by simp
  qed simp
qed simp

lemma count_where_pos:
  "i < length xs \<Longrightarrow> P (xs ! i) \<Longrightarrow> 0 < count_where P xs"
  by (induction xs arbitrary: i) (auto split: nat.splits simp: nth_Cons)

lemma count_where_eq_0: "count_where P xs = 0 \<longleftrightarrow> (\<forall>x \<in> set xs. \<not> P x)"
  by (induction xs) auto

lemma count_where_map: "count_where P (map f xs) = count_where (\<lambda>x. P (f x)) xs"
  by (induction xs) auto

end
