(* ===== verification/Monitor.thy ===== *)
theory Monitor
  imports Leano_Prelude
begin

section \<open>Monitors: a mutex, condition variables and the threads that use them\<close>

text \<open>
  The queues and pools of the program all have the shape of a monitor: an object whose fields
  are read and written between \<open>lock\<close> and \<open>unlock\<close> of one mutex, with condition variables on
  which a thread waits (giving the mutex up) until another thread notifies it. This theory models
  what \<open>std::mutex\<close> / \<open>std::condition_variable\<close> and their pthread counterparts promise.

  A section (the code between acquiring the mutex and giving it up) is a function of the
  operation and the shared state, with an \<open>outcome\<close>: the thread waits on a condition variable,
  or it returns a value, having notified some condition variables before it unlocks and leaving
  some to notify after it has unlocked. A thread that waits re-runs its section from the test of
  the wait loop once it is woken, by a notification or spuriously. The mutex makes sections
  atomic, so the steps of the relation \<open>mon_step\<close> are whole sections, and everything that happens
  outside the mutex is a step of its own. The log \<open>history\<close> is not part of the program: it
  records the order in which the sections returned.
\<close>

datatype 'c notification = One 'c | All 'c

datatype ('s, 'c, 'r) outcome =
    Wait 's 'c
  | Return 's 'r "'c notification list" "'c notification list"

datatype ('c, 'op) tstate =
    Idle                           \<comment> \<open>outside every operation\<close>
  | Ready 'op                      \<comment> \<open>wants the mutex to run (or re-run) the operation's section\<close>
  | Blocked 'c 'op                 \<comment> \<open>waits on a condition variable\<close>
  | Post "'c notification list"    \<comment> \<open>has unlocked, still has to notify\<close>

fun blocked_on :: "'c \<Rightarrow> ('c, 'op) tstate \<Rightarrow> bool" where
  "blocked_on c (Blocked c' op) = (c' = c)"
| "blocked_on c _ = False"

fun wake :: "('c, 'op) tstate \<Rightarrow> ('c, 'op) tstate" where
  "wake (Blocked c op) = Ready op"
| "wake t = t"

definition waiters :: "'c \<Rightarrow> ('c, 'op) tstate list \<Rightarrow> nat list" where
  "waiters c ts = filter (\<lambda>i. blocked_on c (ts ! i)) [0..<length ts]"

text \<open>
  The possible effects of one notification. \<open>notify_one\<close> wakes some waiting thread, any of
  them, and does nothing when none waits; \<open>notify_all\<close> wakes every one.
\<close>

fun notify :: "'c notification \<Rightarrow> ('c, 'op) tstate list \<Rightarrow> ('c, 'op) tstate list list" where
  "notify (One c) ts =
     (if waiters c ts = [] then [ts] else map (\<lambda>i. ts[i := wake (ts ! i)]) (waiters c ts))"
| "notify (All c) ts = [map (\<lambda>t. if blocked_on c t then wake t else t) ts]"

fun notifies :: "'c notification list \<Rightarrow> ('c, 'op) tstate list \<Rightarrow> ('c, 'op) tstate list list" where
  "notifies [] ts = [ts]"
| "notifies (n # ns) ts = concat (map (notifies ns) (notify n ts))"

record ('s, 'c, 'op, 'r) monitor =
  shared :: 's
  threads :: "('c, 'op) tstate list"
  history :: "(nat \<times> 'op \<times> 'r) list"

definition start :: "'s \<Rightarrow> nat \<Rightarrow> ('s, 'c, 'op, 'r) monitor" where
  "start s n = \<lparr>shared = s, threads = replicate n Idle, history = []\<rparr>"

text \<open>
  One step of one thread. \<open>allowed\<close> says which operations the threads call (all of them, or
  only those of one client).
\<close>

inductive mon_step ::
  "('op \<Rightarrow> 's \<Rightarrow> ('s, 'c, 'r) outcome) \<Rightarrow> ('op \<Rightarrow> bool) \<Rightarrow>
   ('s, 'c, 'op, 'r) monitor \<Rightarrow> ('s, 'c, 'op, 'r) monitor \<Rightarrow> bool"
  for sec allowed where
  call: "i < length (threads m) \<Longrightarrow> threads m ! i = Idle \<Longrightarrow> allowed op \<Longrightarrow>
    mon_step sec allowed m (m\<lparr>threads := (threads m)[i := Ready op]\<rparr>)"
| block: "i < length (threads m) \<Longrightarrow> threads m ! i = Ready op \<Longrightarrow>
    sec op (shared m) = Wait s' c \<Longrightarrow>
    mon_step sec allowed m (m\<lparr>shared := s', threads := (threads m)[i := Blocked c op]\<rparr>)"
| complete: "i < length (threads m) \<Longrightarrow> threads m ! i = Ready op \<Longrightarrow>
    sec op (shared m) = Return s' r ns ps \<Longrightarrow>
    ts' \<in> set (notifies ns ((threads m)[i := Post ps])) \<Longrightarrow>
    mon_step sec allowed m
      (m\<lparr>shared := s', threads := ts', history := history m @ [(i, op, r)]\<rparr>)"
| post: "i < length (threads m) \<Longrightarrow> threads m ! i = Post (p # ps) \<Longrightarrow>
    ts' \<in> set (notify p ((threads m)[i := Post ps])) \<Longrightarrow>
    mon_step sec allowed m (m\<lparr>threads := ts'\<rparr>)"
| leave: "i < length (threads m) \<Longrightarrow> threads m ! i = Post [] \<Longrightarrow>
    mon_step sec allowed m (m\<lparr>threads := (threads m)[i := Idle]\<rparr>)"
| spurious: "i < length (threads m) \<Longrightarrow> threads m ! i = Blocked c op \<Longrightarrow>
    mon_step sec allowed m (m\<lparr>threads := (threads m)[i := Ready op]\<rparr>)"

inductive mon_reach ::
  "('op \<Rightarrow> 's \<Rightarrow> ('s, 'c, 'r) outcome) \<Rightarrow> ('op \<Rightarrow> bool) \<Rightarrow>
   ('s, 'c, 'op, 'r) monitor \<Rightarrow> ('s, 'c, 'op, 'r) monitor \<Rightarrow> bool"
  for sec allowed m0 where
  here: "mon_reach sec allowed m0 m0"
| onward: "mon_reach sec allowed m0 m \<Longrightarrow> mon_step sec allowed m m' \<Longrightarrow>
    mon_reach sec allowed m0 m'"

inductive_cases mon_stepE: "mon_step sec allowed m m'"

lemma mon_reach_trans:
  "mon_reach sec P m1 m2 \<Longrightarrow> mon_reach sec P m0 m1 \<Longrightarrow> mon_reach sec P m0 m2"
  by (induction rule: mon_reach.induct) (auto intro: mon_reach.intros)

subsection \<open>Notifications and counts of threads\<close>

lemma waiters_set: "i \<in> set (waiters c ts) \<longleftrightarrow> i < length ts \<and> blocked_on c (ts ! i)"
  by (auto simp: waiters_def)

lemma waiters_Nil: "waiters c ts = [] \<longleftrightarrow> count_where (blocked_on c) ts = 0"
  unfolding waiters_def filter_empty_conv count_where_eq_0 by (auto simp: all_set_conv_all_nth)

lemma notify_length: "ts' \<in> set (notify n ts) \<Longrightarrow> length ts' = length ts"
  by (cases n) (auto split: if_splits)

lemma notifies_length: "ts' \<in> set (notifies ns ts) \<Longrightarrow> length ts' = length ts"
  by (induction ns arbitrary: ts) (auto dest: notify_length)

text \<open>A thread that a notification changes was blocked, and is ready with the same operation.\<close>

definition woken_from :: "('c, 'op) tstate list \<Rightarrow> ('c, 'op) tstate list \<Rightarrow> bool" where
  "woken_from ts ts' \<longleftrightarrow> length ts' = length ts \<and>
     (\<forall>i < length ts. ts' ! i = ts ! i \<or> (\<exists>c. blocked_on c (ts ! i)) \<and> ts' ! i = wake (ts ! i))"

lemma blocked_on_wake [simp]: "\<not> blocked_on c (wake t)"
  by (cases t) auto

lemma woken_from_refl [simp]: "woken_from ts ts"
  by (simp add: woken_from_def)

lemma woken_from_trans: "woken_from ts ts' \<Longrightarrow> woken_from ts' ts'' \<Longrightarrow> woken_from ts ts''"
  unfolding woken_from_def by (metis blocked_on_wake)

lemma woken_not_blocked:
  "woken_from ts ts' \<Longrightarrow> \<forall>t \<in> set ts. \<not> blocked_on c t \<Longrightarrow> \<forall>t \<in> set ts'. \<not> blocked_on c t"
  unfolding woken_from_def by (metis blocked_on_wake in_set_conv_nth)

lemma notify_woken: "ts' \<in> set (notify n ts) \<Longrightarrow> woken_from ts ts'"
  by (cases n)
    (auto simp: woken_from_def waiters_set nth_list_update split: if_splits)

lemma notifies_woken: "ts' \<in> set (notifies ns ts) \<Longrightarrow> woken_from ts ts'"
  by (induction ns arbitrary: ts) (auto dest: notify_woken intro: woken_from_trans)

lemma notifies_single [simp]:
  fixes ts :: "('c, 'op) tstate list"
  shows "notifies [n] ts = notify n ts"
proof -
  have "concat (map (notifies []) xs) = xs" for xs :: "('c, 'op) tstate list list"
    by (induction xs) auto
  then show ?thesis by simp
qed

lemma notify_nonempty: "notify n ts \<noteq> []"
  by (cases n) auto

lemma notifies_nonempty: "notifies ns ts \<noteq> []"
proof (induction ns arbitrary: ts)
  case (Cons n ns)
  then show ?case using notify_nonempty [of n ts] by (cases "notify n ts") auto
qed simp

lemma notify_blocked:
  "ts' \<in> set (notify n ts) \<Longrightarrow> i < length ts \<Longrightarrow> blocked_on c (ts' ! i) \<Longrightarrow> blocked_on c (ts ! i)"
  by (drule notify_woken) (auto simp: woken_from_def)

lemma notify_all_unblocks:
  "ts' \<in> set (notify (All c) ts) \<Longrightarrow> i < length ts \<Longrightarrow> \<not> blocked_on c (ts' ! i)"
  by auto

subsection \<open>The operations the threads are in\<close>

fun tstate_op :: "('c, 'op) tstate \<Rightarrow> 'op option" where
  "tstate_op (Ready op) = Some op"
| "tstate_op (Blocked c op) = Some op"
| "tstate_op _ = None"

definition ops_satisfy :: "('op \<Rightarrow> bool) \<Rightarrow> ('c, 'op) tstate list \<Rightarrow> bool" where
  "ops_satisfy P ts \<longleftrightarrow> (\<forall>t \<in> set ts. \<forall>op. tstate_op t = Some op \<longrightarrow> P op)"

definition waits_satisfy :: "('c \<Rightarrow> 'op \<Rightarrow> bool) \<Rightarrow> ('c, 'op) tstate list \<Rightarrow> bool" where
  "waits_satisfy W ts \<longleftrightarrow> (\<forall>t \<in> set ts. \<forall>c op. t = Blocked c op \<longrightarrow> W c op)"

lemma tstate_op_wake [simp]: "tstate_op (wake t) = tstate_op t"
  by (cases t) auto

lemma wake_not_Blocked [simp]: "wake t \<noteq> Blocked c op"
  by (cases t) auto

lemma ops_satisfy_woken: "woken_from ts ts' \<Longrightarrow> ops_satisfy P ts \<Longrightarrow> ops_satisfy P ts'"
  unfolding ops_satisfy_def woken_from_def by (metis in_set_conv_nth tstate_op_wake)

lemma waits_satisfy_woken: "woken_from ts ts' \<Longrightarrow> waits_satisfy W ts \<Longrightarrow> waits_satisfy W ts'"
  unfolding waits_satisfy_def woken_from_def by (metis in_set_conv_nth wake_not_Blocked)

lemma ops_satisfy_update:
  "ops_satisfy P ts \<Longrightarrow> (\<And>op. tstate_op t = Some op \<Longrightarrow> P op) \<Longrightarrow> ops_satisfy P (ts[i := t])"
  unfolding ops_satisfy_def by (auto dest!: subsetD [OF set_update_subset_insert])

lemma waits_satisfy_update:
  "waits_satisfy W ts \<Longrightarrow> (\<And>c op. t = Blocked c op \<Longrightarrow> W c op) \<Longrightarrow> waits_satisfy W (ts[i := t])"
  unfolding waits_satisfy_def by (auto dest!: subsetD [OF set_update_subset_insert])

lemma ops_satisfyD: "ops_satisfy P ts \<Longrightarrow> i < length ts \<Longrightarrow> tstate_op (ts ! i) = Some op \<Longrightarrow> P op"
  by (auto simp: ops_satisfy_def)

lemma step_ops_satisfy:
  "mon_step sec P m m' \<Longrightarrow> ops_satisfy P (threads m) \<Longrightarrow> ops_satisfy P (threads m')"
proof (induction rule: mon_step.induct)
  case (complete i m op s' r ns ps ts')
  have "ops_satisfy P ((threads m)[i := Post ps])"
    using complete by (intro ops_satisfy_update) auto
  with notifies_woken [OF complete(4)] show ?case by (auto dest: ops_satisfy_woken)
next
  case (post i m p ps ts')
  have "ops_satisfy P ((threads m)[i := Post ps])"
    using post by (intro ops_satisfy_update) auto
  with notify_woken [OF post(3)] show ?case by (auto dest: ops_satisfy_woken)
qed (auto intro!: ops_satisfy_update dest: ops_satisfyD)

lemma reach_ops_satisfy:
  "mon_reach sec P m0 m \<Longrightarrow> ops_satisfy P (threads m0) \<Longrightarrow> ops_satisfy P (threads m)"
  by (induction rule: mon_reach.induct) (auto intro: step_ops_satisfy)

lemma step_waits_satisfy:
  assumes "\<And>op s s' c. sec op s = Wait s' c \<Longrightarrow> W c op"
  shows "mon_step sec P m m' \<Longrightarrow> waits_satisfy W (threads m) \<Longrightarrow> waits_satisfy W (threads m')"
proof (induction rule: mon_step.induct)
  case (complete i m op s' r ns ps ts')
  have "waits_satisfy W ((threads m)[i := Post ps])"
    using complete by (intro waits_satisfy_update) auto
  with notifies_woken [OF complete(4)] show ?case by (auto dest: waits_satisfy_woken)
next
  case (post i m p ps ts')
  have "waits_satisfy W ((threads m)[i := Post ps])"
    using post by (intro waits_satisfy_update) auto
  with notify_woken [OF post(3)] show ?case by (auto dest: waits_satisfy_woken)
qed (auto intro!: waits_satisfy_update dest: assms)

lemma ops_satisfy_idle [simp]: "ops_satisfy P (replicate n Idle)"
  by (simp add: ops_satisfy_def)

lemma waits_satisfy_idle [simp]: "waits_satisfy W (replicate n Idle)"
  by (simp add: waits_satisfy_def)

lemma start_simps [simp]:
  "shared (start s n) = s" "threads (start s n) = replicate n Idle" "history (start s n) = []"
  by (simp_all add: start_def)

text \<open>The log names threads of the system and allowed operations, and only grows.\<close>

lemma step_length: "mon_step sec P m m' \<Longrightarrow> length (threads m') = length (threads m)"
  by (induction rule: mon_step.induct) (auto dest: notifies_length notify_length)

lemma step_history:
  "mon_step sec P m m' \<Longrightarrow> ops_satisfy P (threads m) \<Longrightarrow>
    \<forall>(i, op, r) \<in> set (history m). i < length (threads m) \<and> P op \<Longrightarrow>
    \<forall>(i, op, r) \<in> set (history m'). i < length (threads m) \<and> P op"
  by (induction rule: mon_step.induct) (auto dest: ops_satisfyD)

lemma reach_history_allowed:
  "mon_reach sec P (start s n) m \<Longrightarrow> length (threads m) = n \<and>
    ops_satisfy P (threads m) \<and> (\<forall>(i, op, r) \<in> set (history m). i < n \<and> P op)"
proof (induction rule: mon_reach.induct)
  case (onward m m')
  with step_history [OF onward.hyps(2)] step_length [OF onward.hyps(2)]
    step_ops_satisfy [OF onward.hyps(2)] show ?case by simp
qed simp

subsection \<open>The interface of a monitor: what its sections promise\<close>

text \<open>
  An invariant of the shared state that every section of an allowed operation keeps, whether it
  waits or returns, holds in every reachable state of the concurrent system.
\<close>

locale monitor_invariant =
  fixes sec :: "'op \<Rightarrow> 's \<Rightarrow> ('s, 'c, 'r) outcome"
    and allowed :: "'op \<Rightarrow> bool"
    and inv :: "'s \<Rightarrow> bool"
  assumes wait_inv: "inv s \<Longrightarrow> allowed op \<Longrightarrow> sec op s = Wait s' c \<Longrightarrow> inv s'"
    and return_inv: "inv s \<Longrightarrow> allowed op \<Longrightarrow> sec op s = Return s' r ns ps \<Longrightarrow> inv s'"
begin

lemma step_inv:
  "mon_step sec allowed m m' \<Longrightarrow> ops_satisfy allowed (threads m) \<Longrightarrow>
    inv (shared m) \<Longrightarrow> inv (shared m')"
  by (induction rule: mon_step.induct) (auto intro: wait_inv return_inv dest: ops_satisfyD)

lemma reach_inv_ops:
  "mon_reach sec allowed m0 m \<Longrightarrow> inv (shared m0) \<Longrightarrow> ops_satisfy allowed (threads m0) \<Longrightarrow>
    inv (shared m) \<and> ops_satisfy allowed (threads m)"
  by (induction rule: mon_reach.induct) (auto intro: step_inv step_ops_satisfy)

lemma reach_inv: "mon_reach sec allowed (start s n) m \<Longrightarrow> inv s \<Longrightarrow> inv (shared m)"
  using reach_inv_ops by fastforce

end

text \<open>
  A sequential specification: the abstract state after an operation returned a value, \<open>None\<close>
  when the specification does not allow that value. A history is legal when the specification
  allows its operations one after the other.
\<close>

fun run_spec ::
  "('op \<Rightarrow> 'r \<Rightarrow> 'a \<Rightarrow> 'a option) \<Rightarrow> 'a \<Rightarrow> (nat \<times> 'op \<times> 'r) list \<Rightarrow> 'a option" where
  "run_spec spec a [] = Some a"
| "run_spec spec a ((i, op, r) # h) =
     (case spec op r a of None \<Rightarrow> None | Some a' \<Rightarrow> run_spec spec a' h)"

lemma run_spec_append:
  "run_spec spec a (h @ h') =
    (case run_spec spec a h of None \<Rightarrow> None | Some a' \<Rightarrow> run_spec spec a' h')"
  by (induction spec a h rule: run_spec.induct) (auto split: option.splits)

text \<open>
  A monitor refines a sequential specification when a wait is invisible and a return is an
  allowed operation. Then every concurrent run is linearizable: the log of its completed
  sections is a legal sequential history that ends in the abstraction of the shared state.
\<close>

locale monitor_refines = monitor_invariant sec allowed inv
  for sec :: "'op \<Rightarrow> 's \<Rightarrow> ('s, 'c, 'r) outcome" and allowed and inv +
  fixes abs :: "'s \<Rightarrow> 'a"
    and spec :: "'op \<Rightarrow> 'r \<Rightarrow> 'a \<Rightarrow> 'a option"
  assumes wait_invisible:
      "inv s \<Longrightarrow> allowed op \<Longrightarrow> sec op s = Wait s' c \<Longrightarrow> abs s' = abs s"
    and return_allowed:
      "inv s \<Longrightarrow> allowed op \<Longrightarrow> sec op s = Return s' r ns ps \<Longrightarrow>
        spec op r (abs s) = Some (abs s')"
begin

lemma step_linear:
  "mon_step sec allowed m m' \<Longrightarrow> inv (shared m) \<Longrightarrow> ops_satisfy allowed (threads m) \<Longrightarrow>
    run_spec spec a (history m) = Some (abs (shared m)) \<Longrightarrow>
    run_spec spec a (history m') = Some (abs (shared m'))"
  by (induction rule: mon_step.induct)
    (auto simp: run_spec_append wait_invisible return_allowed dest: ops_satisfyD
      split: option.splits)

lemma linearizable_ops:
  "mon_reach sec allowed m0 m \<Longrightarrow> inv (shared m0) \<Longrightarrow> ops_satisfy allowed (threads m0) \<Longrightarrow>
    history m0 = [] \<Longrightarrow> run_spec spec (abs (shared m0)) (history m) = Some (abs (shared m))"
  by (induction rule: mon_reach.induct) (auto intro: step_linear dest: reach_inv_ops)

lemma linearizable:
  "mon_reach sec allowed (start s n) m \<Longrightarrow> inv s \<Longrightarrow>
    run_spec spec (abs s) (history m) = Some (abs (shared m))"
  using linearizable_ops by fastforce

end

subsection \<open>The interface of a first-in first-out specification\<close>

text \<open>
  \<open>content\<close> is the sequence an abstract state holds; \<open>puts op r\<close> and \<open>takes op r\<close> are what one
  operation with result \<open>r\<close> appended to it and removed from its front. Over a whole legal history
  nothing is lost, duplicated or reordered.
\<close>

locale fifo_spec =
  fixes spec :: "'op \<Rightarrow> 'r \<Rightarrow> 'a \<Rightarrow> 'a option"
    and content :: "'a \<Rightarrow> 'x list"
    and puts :: "'op \<Rightarrow> 'r \<Rightarrow> 'x list"
    and takes :: "'op \<Rightarrow> 'r \<Rightarrow> 'x list"
  assumes conserve: "spec op r a = Some a' \<Longrightarrow> content a @ puts op r = takes op r @ content a'"
begin

lemma run_fifo:
  "run_spec spec a h = Some a' \<Longrightarrow>
    content a @ concat (map (\<lambda>(i, op, r). puts op r) h) =
    concat (map (\<lambda>(i, op, r). takes op r) h) @ content a'"
proof (induction h arbitrary: a)
  case (Cons e h)
  obtain i op r where e: "e = (i, op, r)" by (cases e)
  with Cons.prems obtain b where b: "spec op r a = Some b" and h: "run_spec spec b h = Some a'"
    by (auto split: option.splits)
  from Cons.IH [OF h] conserve [OF b] e show ?case
    by (simp flip: append_assoc) (simp add: append_assoc)
qed simp

end

subsection \<open>Running a schedule\<close>

text \<open>
  A schedule is a list of moves, each naming the thread that moves and, where a notification
  wakes one of several threads, which outcome is taken. \<open>run\<close> executes a schedule; what it
  reaches is reachable, which is how concrete runs are shown.
\<close>

datatype 'op move =
    Call nat 'op | Section nat nat | Notify nat nat | Leave nat | Spurious nat

fun pick :: "nat \<Rightarrow> 'a list \<Rightarrow> 'a option" where
  "pick _ [] = None"
| "pick 0 (x # xs) = Some x"
| "pick (Suc k) (x # xs) = pick k xs"

fun do_move ::
  "('op \<Rightarrow> 's \<Rightarrow> ('s, 'c, 'r) outcome) \<Rightarrow> ('op \<Rightarrow> bool) \<Rightarrow> 'op move \<Rightarrow>
   ('s, 'c, 'op, 'r) monitor \<Rightarrow> ('s, 'c, 'op, 'r) monitor option" where
  "do_move sec P (Call i op) m =
     (if i < length (threads m) \<and> P op then
        (case threads m ! i of
           Idle \<Rightarrow> Some (m\<lparr>threads := (threads m)[i := Ready op]\<rparr>)
         | _ \<Rightarrow> None)
      else None)"
| "do_move sec P (Section i k) m =
     (if i < length (threads m) then
        (case threads m ! i of
           Ready op \<Rightarrow>
             (case sec op (shared m) of
                Wait s' c \<Rightarrow> Some (m\<lparr>shared := s', threads := (threads m)[i := Blocked c op]\<rparr>)
              | Return s' r ns ps \<Rightarrow>
                  map_option
                    (\<lambda>ts'. m\<lparr>shared := s', threads := ts', history := history m @ [(i, op, r)]\<rparr>)
                    (pick k (notifies ns ((threads m)[i := Post ps]))))
         | _ \<Rightarrow> None)
      else None)"
| "do_move sec P (Notify i k) m =
     (if i < length (threads m) then
        (case threads m ! i of
           Post (p # ps) \<Rightarrow>
             map_option (\<lambda>ts'. m\<lparr>threads := ts'\<rparr>) (pick k (notify p ((threads m)[i := Post ps])))
         | _ \<Rightarrow> None)
      else None)"
| "do_move sec P (Leave i) m =
     (if i < length (threads m) then
        (case threads m ! i of
           Post [] \<Rightarrow> Some (m\<lparr>threads := (threads m)[i := Idle]\<rparr>)
         | _ \<Rightarrow> None)
      else None)"
| "do_move sec P (Spurious i) m =
     (if i < length (threads m) then
        (case threads m ! i of
           Blocked c op \<Rightarrow> Some (m\<lparr>threads := (threads m)[i := Ready op]\<rparr>)
         | _ \<Rightarrow> None)
      else None)"

fun run ::
  "('op \<Rightarrow> 's \<Rightarrow> ('s, 'c, 'r) outcome) \<Rightarrow> ('op \<Rightarrow> bool) \<Rightarrow> 'op move list \<Rightarrow>
   ('s, 'c, 'op, 'r) monitor \<Rightarrow> ('s, 'c, 'op, 'r) monitor option" where
  "run sec P [] m = Some m"
| "run sec P (mv # mvs) m =
     (case do_move sec P mv m of None \<Rightarrow> None | Some m' \<Rightarrow> run sec P mvs m')"

lemma pick_mem: "pick k xs = Some x \<Longrightarrow> x \<in> set xs"
  by (induction k xs rule: pick.induct) auto

lemma do_move_step: "do_move sec P mv m = Some m' \<Longrightarrow> mon_step sec P m m'"
proof (cases mv)
  case (Section i k)
  then show "do_move sec P mv m = Some m' \<Longrightarrow> mon_step sec P m m'"
    by (auto split: if_splits tstate.splits outcome.splits
        intro: mon_step.block mon_step.complete dest!: pick_mem)
qed (auto split: if_splits tstate.splits list.splits
    intro: mon_step.intros dest!: pick_mem)

lemma run_reach_from:
  "run sec P mvs m = Some m' \<Longrightarrow> mon_reach sec P m0 m \<Longrightarrow> mon_reach sec P m0 m'"
proof (induction mvs arbitrary: m)
  case (Cons mv mvs)
  then obtain m1 where "do_move sec P mv m = Some m1" "run sec P mvs m1 = Some m'"
    by (auto split: option.splits)
  with Cons show ?case by (blast intro: mon_reach.onward do_move_step)
qed simp

lemma run_reach: "run sec P mvs m = Some m' \<Longrightarrow> mon_reach sec P m m'"
  by (erule run_reach_from) (rule mon_reach.here)

end
