(* ===== verification/Wakeups.thy ===== *)
theory Wakeups
  imports Monitor
begin

section \<open>No lost wake-ups\<close>

text \<open>
  A thread that waits on a condition variable waits for a resource: an element to take, a free
  slot to fill, a task to run. A wake-up is lost when resources are there, a thread waits for
  them, and no notification on its way will wake it. The locale \<open>wakeup_discipline\<close> states what
  the sections of a monitor must do for that never to happen, and proves once that it is enough.

  The credit of a state counts the threads that will use a resource of condition variable \<open>c\<close> when
  they run (they are ready, with an operation of the class \<open>K\<close> of consumers of that resource) and
  the notifications of \<open>c\<close> still to be sent. As long as some thread waits on \<open>c\<close>, the number of
  resources never exceeds the credit.
\<close>

fun weight :: "'c \<Rightarrow> ('op \<Rightarrow> bool) \<Rightarrow> ('c, 'op) tstate \<Rightarrow> nat" where
  "weight c K (Ready op) = (if K op then 1 else 0)"
| "weight c K (Post ns) = count_list ns (One c)"
| "weight c K _ = 0"

definition credit :: "'c \<Rightarrow> ('op \<Rightarrow> bool) \<Rightarrow> ('c, 'op) tstate list \<Rightarrow> nat" where
  "credit c K ts = sum_list (map (weight c K) ts)"

definition covered :: "'c \<Rightarrow> ('op \<Rightarrow> bool) \<Rightarrow> nat \<Rightarrow> ('c, 'op) tstate list \<Rightarrow> bool" where
  "covered c K r ts \<longleftrightarrow> count_where (blocked_on c) ts = 0 \<or> r \<le> credit c K ts"

lemma sum_list_map_update:
  "i < length xs \<Longrightarrow>
    sum_list (map f (xs[i := x])) + f (xs ! i) = sum_list (map f xs) + (f x :: nat)"
proof (induction xs arbitrary: i)
  case (Cons y ys)
  show ?case
  proof (cases i)
    case (Suc j)
    with Cons.prems Cons.IH [of j] show ?thesis by simp
  qed simp
qed simp

lemma credit_update:
  "i < length ts \<Longrightarrow> credit c K (ts[i := t]) + weight c K (ts ! i) = credit c K ts + weight c K t"
  by (simp add: credit_def sum_list_map_update)

lemma credit_zero: "\<forall>t \<in> set ts. weight c K t = 0 \<Longrightarrow> credit c K ts = 0"
  by (simp add: credit_def)

lemma blocked_count_update:
  "i < length ts \<Longrightarrow>
    count_where (blocked_on c) (ts[i := t]) + (if blocked_on c (ts ! i) then 1 else 0) =
    count_where (blocked_on c) ts + (if blocked_on c t then 1 else 0)"
  by (rule count_where_update)

lemma woken_from_credit: "woken_from ts ts' \<Longrightarrow> credit c K ts \<le> credit c K ts'"
  unfolding credit_def
proof (rule sum_list_mono2)
  assume "woken_from ts ts'"
  then have eq: "length ts' = length ts" and
    pt: "i < length ts \<Longrightarrow>
      ts' ! i = ts ! i \<or> (\<exists>d. blocked_on d (ts ! i)) \<and> ts' ! i = wake (ts ! i)" for i
    by (auto simp: woken_from_def)
  show "length (map (weight c K) ts) = length (map (weight c K) ts')" using eq by simp
  have "weight c K (ts ! i) \<le> weight c K (ts' ! i)" if "i < length ts" for i
    using pt [OF that] by (cases "ts ! i") auto
  then show "i < length (map (weight c K) ts) \<longrightarrow>
      map (weight c K) ts ! i \<le> map (weight c K) ts' ! i" for i
    using eq by simp
qed

lemma count_where_mono_nth:
  "length xs = length ys \<Longrightarrow> (\<And>i. i < length xs \<Longrightarrow> P (xs ! i) \<Longrightarrow> Q (ys ! i)) \<Longrightarrow>
    count_where P xs \<le> count_where Q ys"
proof (induction xs ys rule: list_induct2)
  case (Cons x xs y ys)
  have "count_where P xs \<le> count_where Q ys"
    using Cons.prems by (intro Cons.IH) (metis Suc_less_eq length_Cons nth_Cons_Suc)
  moreover have "P x \<Longrightarrow> Q y" using Cons.prems [of 0] by simp
  ultimately show ?case by simp
qed simp

lemma woken_from_blocked:
  "woken_from ts ts' \<Longrightarrow> count_where (blocked_on c) ts' \<le> count_where (blocked_on c) ts"
  by (rule count_where_mono_nth) (auto simp: woken_from_def)

lemma covered_woken: "woken_from ts ts' \<Longrightarrow> covered c K r ts \<Longrightarrow> covered c K r ts'"
  using woken_from_credit [of ts ts' c K] woken_from_blocked [of ts ts' c]
  by (auto simp: covered_def)

text \<open>A covered resource that a thread waits for has a thread that will use it or pass it on.\<close>

lemma covered_has_helper:
  assumes "covered c K r ts" and "0 < r" and "blocked_on c (ts ! i)" and "i < length ts"
  shows "\<exists>j < length ts.
    (\<exists>op. ts ! j = Ready op \<and> K op) \<or> (\<exists>ns. ts ! j = Post ns \<and> One c \<in> set ns)"
proof -
  have "0 < count_where (blocked_on c) ts" by (rule count_where_pos) fact+
  with assms(1,2) have "0 < credit c K ts" by (auto simp: covered_def)
  then have "\<not> (\<forall>t \<in> set ts. weight c K t = 0)"
    by (metis (no_types, lifting) credit_zero less_numeral_extra(3))
  then obtain j where j: "j < length ts" "weight c K (ts ! j) \<noteq> 0"
    by (auto simp: in_set_conv_nth)
  have "(\<exists>op. t = Ready op \<and> K op) \<or> (\<exists>ns. t = Post ns \<and> One c \<in> set ns)"
    if "weight c K t \<noteq> 0" for t
    using that by (cases t) (auto split: if_splits intro: ccontr)
  with j show ?thesis by blast
qed

text \<open>A notification of \<open>c\<close> pays for one more resource: it wakes a consumer, or none waits.\<close>

lemma notify_One_covered:
  assumes ts': "ts' \<in> set (notify (One c) ts)"
    and W: "waits_satisfy (\<lambda>d op. d = c \<longrightarrow> K op) ts"
    and cov: "covered c K r ts"
  shows "covered c K (Suc r) ts'"
proof (cases "waiters c ts = []")
  case True
  with ts' show ?thesis by (auto simp: covered_def waiters_Nil)
next
  case False
  with ts' obtain i where i: "i < length ts" "blocked_on c (ts ! i)"
    and eq: "ts' = ts[i := wake (ts ! i)]"
    by (auto simp: waiters_set)
  from i(2) obtain op where op: "ts ! i = Blocked c op" by (cases "ts ! i") auto
  with W i(1) have "K op" unfolding waits_satisfy_def by (metis nth_mem)
  with op have "credit c K ts' = Suc (credit c K ts)"
    using credit_update [OF i(1), of c K "wake (ts ! i)"] by (simp add: eq)
  moreover have "0 < count_where (blocked_on c) ts" using i by (rule count_where_pos)
  ultimately show ?thesis using cov by (auto simp: covered_def)
qed

lemma notify_covered:
  assumes "ts' \<in> set (notify n ts)"
    and "waits_satisfy (\<lambda>d op. d = c \<longrightarrow> K op) ts"
    and "covered c K r ts"
  shows "covered c K (r + count_list [n] (One c)) ts'"
proof (cases "n = One c")
  case True
  with assms notify_One_covered show ?thesis by fastforce
next
  case False
  then show ?thesis using assms by (auto dest!: notify_woken intro: covered_woken)
qed

lemma notifies_covered:
  "ts' \<in> set (notifies ns ts) \<Longrightarrow> waits_satisfy (\<lambda>d op. d = c \<longrightarrow> K op) ts \<Longrightarrow>
    covered c K r ts \<Longrightarrow> covered c K (r + count_list ns (One c)) ts'"
proof (induction ns arbitrary: ts r)
  case (Cons n ns)
  from Cons.prems(1) obtain t1 where t1: "t1 \<in> set (notify n ts)" "ts' \<in> set (notifies ns t1)"
    by auto
  note W1 = waits_satisfy_woken [OF notify_woken [OF t1(1)] Cons.prems(2)]
  from Cons.IH [OF t1(2) W1 notify_covered [OF t1(1) Cons.prems(2,3)]]
  show ?case by (simp add: add.assoc split: if_splits)
qed simp

subsection \<open>The discipline\<close>

text \<open>
  \<open>R s\<close> is the number of resources of \<open>c\<close> in the shared state, \<open>K\<close> the operations that use one
  (and wait on \<open>c\<close> when there is none), \<open>stopped\<close> a permanent state in which nobody needs them.
\<close>

locale wakeup_discipline = monitor_invariant sec allowed inv
  for sec :: "'op \<Rightarrow> 's \<Rightarrow> ('s, 'c, 'r) outcome" and allowed and inv +
  fixes c :: 'c and K :: "'op \<Rightarrow> bool" and R :: "'s \<Rightarrow> nat" and stopped :: "'s \<Rightarrow> bool"
  assumes wait_here: "sec op s = Wait s' c \<Longrightarrow> K op \<and> R s' = 0"
    and wait_other: "inv s \<Longrightarrow> allowed op \<Longrightarrow> sec op s = Wait s' d \<Longrightarrow> d \<noteq> c \<Longrightarrow>
        \<not> K op \<and> R s' \<le> R s"
    and return_pays: "inv s \<Longrightarrow> allowed op \<Longrightarrow> sec op s = Return s' r ns ps \<Longrightarrow> \<not> stopped s' \<Longrightarrow>
        R s' + (if K op then 1 else 0) \<le>
        R s + count_list ns (One c) + count_list ps (One c)"
    and stopped_wait: "stopped s \<Longrightarrow> sec op s = Wait s' d \<Longrightarrow> stopped s'"
    and stopped_return: "stopped s \<Longrightarrow> sec op s = Return s' r ns ps \<Longrightarrow> stopped s'"
begin

abbreviation no_lost_wakeup :: "('s, 'c, 'op, 'r) monitor \<Rightarrow> bool" where
  "no_lost_wakeup m \<equiv> stopped (shared m) \<or> covered c K (R (shared m)) (threads m)"

abbreviation consumers_wait :: "('s, 'c, 'op, 'r) monitor \<Rightarrow> bool" where
  "consumers_wait m \<equiv> waits_satisfy (\<lambda>d op. d = c \<longrightarrow> K op) (threads m)"

lemma complete_covered:
  assumes i: "i < length ts" "ts ! i = Ready op"
    and s: "inv s" "allowed op" "sec op s = Return s' r ns ps" "\<not> stopped s'"
    and W: "waits_satisfy (\<lambda>d op. d = c \<longrightarrow> K op) ts"
    and ts': "ts' \<in> set (notifies ns (ts[i := Post ps]))"
    and cov: "covered c K (R s) ts"
  shows "covered c K (R s') ts'"
proof -
  let ?u = "ts[i := Post ps]"
  let ?r = "R s + count_list ps (One c) - (if K op then 1 else 0)"
  have "covered c K ?r ?u"
    using cov credit_update [OF i(1), of c K "Post ps"] blocked_count_update [OF i(1), of c "Post ps"] i(2)
    by (auto simp: covered_def)
  moreover have "waits_satisfy (\<lambda>d op. d = c \<longrightarrow> K op) ?u"
    using W by (rule waits_satisfy_update) simp
  ultimately have "covered c K (?r + count_list ns (One c)) ts'"
    using ts' by (blast intro: notifies_covered)
  with return_pays [OF s] show ?thesis by (auto simp: covered_def split: if_splits)
qed

lemma block_covered:
  assumes i: "i < length ts" "ts ! i = Ready op"
    and s: "inv s" "allowed op" "sec op s = Wait s' d"
    and cov: "covered c K (R s) ts"
  shows "covered c K (R s') (ts[i := Blocked d op])"
proof (cases "d = c")
  case True
  with wait_here s show ?thesis by (simp add: covered_def)
next
  case False
  with wait_other s have "\<not> K op" "R s' \<le> R s" by blast+
  with False show ?thesis
    using cov credit_update [OF i(1), of c K "Blocked d op"]
      blocked_count_update [OF i(1), of c "Blocked d op"] i(2)
    by (auto simp: covered_def)
qed

lemma post_covered:
  assumes i: "i < length ts" "ts ! i = Post (p # ps)"
    and W: "waits_satisfy (\<lambda>d op. d = c \<longrightarrow> K op) ts"
    and ts': "ts' \<in> set (notify p (ts[i := Post ps]))"
    and cov: "covered c K r ts"
  shows "covered c K r ts'"
proof -
  let ?u = "ts[i := Post ps]" and ?n = "count_list [p] (One c)"
  have "covered c K (r - ?n) ?u"
    using cov credit_update [OF i(1), of c K "Post ps"] blocked_count_update [OF i(1), of c "Post ps"] i(2)
    by (auto simp: covered_def split: if_splits)
  moreover have "waits_satisfy (\<lambda>d op. d = c \<longrightarrow> K op) ?u"
    using W by (rule waits_satisfy_update) simp
  ultimately have "covered c K (r - ?n + ?n) ts'" using ts' by (blast intro: notify_covered)
  then show ?thesis by (auto simp: covered_def)
qed

lemma change_covered:
  assumes i: "i < length ts" and w: "weight c K (ts ! i) \<le> weight c K t"
    and b: "\<not> blocked_on c t" and cov: "covered c K r ts"
  shows "covered c K r (ts[i := t])"
  using cov credit_update [OF i, of c K t] blocked_count_update [OF i, of c t] w b
  by (auto simp: covered_def split: if_splits)

lemma step_no_lost_wakeup:
  "mon_step sec allowed m m' \<Longrightarrow> inv (shared m) \<Longrightarrow> ops_satisfy allowed (threads m) \<Longrightarrow>
    consumers_wait m \<Longrightarrow> no_lost_wakeup m \<Longrightarrow> no_lost_wakeup m'"
proof (induction rule: mon_step.induct)
  case (call i m op)
  then show ?case by (auto intro: change_covered)
next
  case (block i m op s' d)
  then show ?case by (auto intro: block_covered stopped_wait dest: ops_satisfyD)
next
  case (complete i m op s' r ns ps ts')
  then have "allowed op" by (auto dest: ops_satisfyD)
  with complete show ?case
    by (cases "stopped s'") (auto intro: complete_covered dest: stopped_return)
next
  case (post i m p ps ts')
  then show ?case by (auto intro: post_covered)
next
  case (leave i m)
  then show ?case by (auto intro: change_covered)
next
  case (spurious i m d op)
  then show ?case by (auto intro: change_covered)
qed

lemma reach_no_lost_wakeup_ops:
  "mon_reach sec allowed m0 m \<Longrightarrow> inv (shared m0) \<Longrightarrow> ops_satisfy allowed (threads m0) \<Longrightarrow>
    consumers_wait m0 \<Longrightarrow> no_lost_wakeup m0 \<Longrightarrow> consumers_wait m \<and> no_lost_wakeup m"
proof (induction rule: mon_reach.induct)
  case (onward m m')
  then have "inv (shared m)" "ops_satisfy allowed (threads m)" by (auto dest: reach_inv_ops)
  moreover have "consumers_wait m'"
    by (rule step_waits_satisfy [OF _ onward.hyps(2)]) (use wait_here onward in auto)
  ultimately show ?case using onward by (auto dest: step_no_lost_wakeup)
qed simp

lemma reach_no_lost_wakeup:
  assumes "mon_reach sec allowed (start s n) m" and "inv s"
  shows "stopped (shared m) \<or> covered c K (R (shared m)) (threads m)"
  using reach_no_lost_wakeup_ops [OF assms(1)] assms(2)
  by (simp add: covered_def count_where_eq_0)

text \<open>
  In words: while a thread waits on \<open>c\<close> with a resource there, some other thread is about to
  take a resource of \<open>c\<close> or to notify \<open>c\<close>.
\<close>

lemma waiting_has_helper:
  assumes reach: "mon_reach sec allowed (start s n) m" "inv s"
    and "\<not> stopped (shared m)" and "0 < R (shared m)"
    and "blocked_on c (threads m ! i)" and "i < length (threads m)"
  shows "\<exists>j < length (threads m).
    (\<exists>op. threads m ! j = Ready op \<and> K op) \<or> (\<exists>ns. threads m ! j = Post ns \<and> One c \<in> set ns)"
proof -
  from reach_no_lost_wakeup [OF reach] assms(3)
  have "covered c K (R (shared m)) (threads m)" by blast
  then show ?thesis using assms(4,5,6) by (rule covered_has_helper)
qed

end

subsection \<open>Stopping\<close>

text \<open>
  Once the shared state is stopped no section waits any more, and the section that stopped it
  leaves a \<open>notify_all\<close> of \<open>c\<close> behind. So every thread still waiting on \<open>c\<close> is about to be woken:
  either no thread waits on \<open>c\<close> (the list is calm) or some thread still has to notify all of \<open>c\<close>.
\<close>

definition calm :: "'c \<Rightarrow> ('c, 'op) tstate list \<Rightarrow> bool" where
  "calm c ts \<longleftrightarrow> (\<forall>t \<in> set ts. \<not> blocked_on c t)"

definition waking :: "'c \<Rightarrow> ('c, 'op) tstate list \<Rightarrow> bool" where
  "waking c ts \<longleftrightarrow> (\<exists>j < length ts. \<exists>ps. ts ! j = Post ps \<and> All c \<in> set ps)"

lemma waking_woken: "woken_from ts ts' \<Longrightarrow> waking c ts \<Longrightarrow> waking c ts'"
  unfolding woken_from_def waking_def by (metis blocked_on.simps(4))

lemma calm_woken: "woken_from ts ts' \<Longrightarrow> calm c ts \<Longrightarrow> calm c ts'"
  unfolding woken_from_def calm_def by (metis blocked_on_wake in_set_conv_nth)

lemma calm_update: "calm c ts \<Longrightarrow> \<not> blocked_on c t \<Longrightarrow> calm c (ts[i := t])"
  unfolding calm_def by (auto dest!: subsetD [OF set_update_subset_insert])

lemma waking_update:
  "waking c ts \<Longrightarrow> (\<And>ps. ts ! i = Post ps \<Longrightarrow> All c \<notin> set ps) \<Longrightarrow> waking c (ts[i := t])"
  unfolding waking_def by (metis length_list_update nth_list_update_neq)

lemma waking_here: "i < length ts \<Longrightarrow> All c \<in> set ps \<Longrightarrow> waking c (ts[i := Post ps])"
  unfolding waking_def by (metis length_list_update nth_list_update_eq)

lemma notify_all_calm: "ts' \<in> set (notify (All c) ts) \<Longrightarrow> calm c ts'"
  by (auto simp: calm_def)

locale stop_discipline =
  fixes sec :: "'op \<Rightarrow> 's \<Rightarrow> ('s, 'c, 'r) outcome"
    and c :: 'c
    and stopped :: "'s \<Rightarrow> bool"
  assumes stopped_no_wait: "stopped s \<Longrightarrow> sec op s \<noteq> Wait s' d"
    and wait_not_stopped: "\<not> stopped s \<Longrightarrow> sec op s = Wait s' d \<Longrightarrow> \<not> stopped s'"
    and stop_notifies: "\<not> stopped s \<Longrightarrow> sec op s = Return s' r ns ps \<Longrightarrow> stopped s' \<Longrightarrow>
        All c \<in> set ps"
    and stop_permanent: "stopped s \<Longrightarrow> sec op s = Return s' r ns ps \<Longrightarrow> stopped s'"
begin

abbreviation released :: "('s, 'c, 'op, 'r) monitor \<Rightarrow> bool" where
  "released m \<equiv> \<not> stopped (shared m) \<or> calm c (threads m) \<or> waking c (threads m)"

lemma post_calm_or_waking:
  assumes i: "i < length ts" "ts ! i = Post (p # ps)"
    and ts': "ts' \<in> set (notify p (ts[i := Post ps]))"
    and "calm c ts \<or> waking c ts"
  shows "calm c ts' \<or> waking c ts'"
proof (cases "p = All c")
  case True
  with ts' show ?thesis by (blast intro: notify_all_calm)
next
  case False
  let ?u = "ts[i := Post ps]"
  have "waking c ?u" if "waking c ts"
    using that i False by (cases "All c \<in> set ps") (auto intro: waking_here waking_update)
  moreover have "calm c ?u" if "calm c ts" using that by (auto intro: calm_update)
  ultimately show ?thesis using assms(4) notify_woken [OF ts'] by (auto dest: calm_woken waking_woken)
qed

lemma step_released: "mon_step sec allowed m m' \<Longrightarrow> released m \<Longrightarrow> released m'"
proof (induction rule: mon_step.induct)
  case (call i m op)
  then show ?case by (auto intro: calm_update waking_update)
next
  case (block i m op s' d)
  then have "\<not> stopped s'" using stopped_no_wait wait_not_stopped by blast
  then show ?case by simp
next
  case (complete i m op s' r ns ps ts')
  let ?u = "(threads m)[i := Post ps]"
  have "calm c ?u \<or> waking c ?u" if "stopped s'"
    using that complete stop_notifies
    by (cases "stopped (shared m)") (auto intro: calm_update waking_update waking_here)
  with notifies_woken [OF complete(4)] show ?case by (auto dest: calm_woken waking_woken)
next
  case (post i m p ps ts')
  from post_calm_or_waking [OF post.hyps] post.prems show ?case by auto
next
  case (leave i m)
  then show ?case by (auto intro: calm_update waking_update)
next
  case (spurious i m d op)
  then show ?case by (auto intro: calm_update waking_update)
qed

lemma reach_released: "mon_reach sec allowed m0 m \<Longrightarrow> released m0 \<Longrightarrow> released m"
  by (induction rule: mon_reach.induct) (auto dest: step_released)

lemma reach_stop_step:
  "mon_step sec allowed m m' \<Longrightarrow> stopped (shared m) \<Longrightarrow> stopped (shared m')"
  by (induction rule: mon_step.induct) (auto dest: stopped_no_wait stop_permanent)

end

end
