(* ===== verification/Sync_Queue.thy ===== *)
theory Sync_Queue
  imports Wakeups
begin

section \<open>The bounded blocking queue (include/SyncQueue.hpp)\<close>

text \<open>
  \<open>SyncQueue<T>\<close> holds a \<open>std::list<T>\<close> of at most \<open>m_maxSize\<close> elements, a mutex, and two
  condition variables: producers wait on \<open>m_notFull\<close>, consumers on \<open>m_notEmpty\<close>, both until
  there is room or an element, or until \<open>Stop\<close> sets \<open>m_needStop\<close>. Each member function is one
  section of the monitor. The bound is an \<open>int\<close> compared with \<open>size_t\<close> sizes, so it is converted.
\<close>

record 'a sync_queue =
  m_queue :: "'a list"
  m_maxSize :: int
  m_needStop :: bool

datatype sq_cond = M_notEmpty | M_notFull

datatype 'a sq_op = Put 'a | Take_list | Take | Stop | Empty | Full | Size

datatype 'a sq_ret =
    Added | Add_stopped | Took_list "'a list" | Took 'a | Take_stopped | Stop_done
  | Bool_ret bool | Size_ret nat

type_synonym 'a sq_outcome = "('a sync_queue, sq_cond, 'a sq_ret) outcome"

definition SyncQueue_init :: "int \<Rightarrow> 'a sync_queue" where
  "SyncQueue_init maxSize = \<lparr>m_queue = [], m_maxSize = maxSize, m_needStop = False\<rparr>"

definition NotFull :: "'a sync_queue \<Rightarrow> bool" where
  "NotFull q = (\<not> size_t_of_int (m_maxSize q) \<le> length (m_queue q))"

definition NotEmpty :: "'a sync_queue \<Rightarrow> bool" where
  "NotEmpty q = (\<not> m_queue q = [])"

text \<open>\<open>Add\<close>, which both overloads of \<open>Put\<close> call.\<close>

definition Add_section :: "'a \<Rightarrow> 'a sync_queue \<Rightarrow> 'a sq_outcome" where
  "Add_section x q =
     (if \<not> (m_needStop q \<or> NotFull q) then Wait q M_notFull
      else if m_needStop q then Return q Add_stopped [] []
      else Return (q\<lparr>m_queue := m_queue q @ [x]\<rparr>) Added [One M_notEmpty] [])"

text \<open>
  \<open>Take(std::list<T>&)\<close> moves the whole list out, which leaves \<open>m_queue\<close> empty, and notifies one
  producer.
\<close>

definition Take_list_section :: "'a sync_queue \<Rightarrow> 'a sq_outcome" where
  "Take_list_section q =
     (if \<not> (m_needStop q \<or> NotEmpty q) then Wait q M_notEmpty
      else if m_needStop q then Return q Take_stopped [] []
      else Return (q\<lparr>m_queue := []\<rparr>) (Took_list (m_queue q)) [One M_notFull] [])"

definition Take_section :: "'a sync_queue \<Rightarrow> 'a sq_outcome" where
  "Take_section q =
     (if \<not> (m_needStop q \<or> NotEmpty q) then Wait q M_notEmpty
      else if m_needStop q then Return q Take_stopped [] []
      else (case m_queue q of
              t # rest \<Rightarrow> Return (q\<lparr>m_queue := rest\<rparr>) (Took t) [One M_notFull] []
            | [] \<Rightarrow> Wait q M_notEmpty))"

definition Stop_section :: "'a sync_queue \<Rightarrow> 'a sq_outcome" where
  "Stop_section q =
     Return (q\<lparr>m_needStop := True\<rparr>) Stop_done [] [All M_notFull, All M_notEmpty]"

definition Empty_section :: "'a sync_queue \<Rightarrow> 'a sq_outcome" where
  "Empty_section q = Return q (Bool_ret (m_queue q = [])) [] []"

definition Full_section :: "'a sync_queue \<Rightarrow> 'a sq_outcome" where
  "Full_section q = Return q (Bool_ret (length (m_queue q) = size_t_of_int (m_maxSize q))) [] []"

definition Size_section :: "'a sync_queue \<Rightarrow> 'a sq_outcome" where
  "Size_section q = Return q (Size_ret (length (m_queue q))) [] []"

text \<open>\<open>Count\<close> reads the size without the mutex and narrows it to \<open>int\<close>.\<close>

definition Count :: "'a sync_queue \<Rightarrow> int" where
  "Count q = int_of_size_t (length (m_queue q))"

fun sq_section :: "'a sq_op \<Rightarrow> 'a sync_queue \<Rightarrow> 'a sq_outcome" where
  "sq_section (Put x) q = Add_section x q"
| "sq_section Take_list q = Take_list_section q"
| "sq_section Take q = Take_section q"
| "sq_section Stop q = Stop_section q"
| "sq_section Empty q = Empty_section q"
| "sq_section Full q = Full_section q"
| "sq_section Size q = Size_section q"

declare Add_section_def [section_simps] Take_list_section_def [section_simps]
  Take_section_def [section_simps] Stop_section_def [section_simps]
  Empty_section_def [section_simps] Full_section_def [section_simps]
  Size_section_def [section_simps] NotFull_def [section_simps] NotEmpty_def [section_simps]

text \<open>The second case of the \<open>case\<close> in \<open>Take_section\<close> is never reached: \<open>front()\<close> is called on
  a non-empty list only.\<close>

lemma Take_section_nonempty:
  "\<not> m_needStop q \<Longrightarrow> m_queue q = t # rest \<Longrightarrow>
    Take_section q = Return (q\<lparr>m_queue := rest\<rparr>) (Took t) [One M_notFull] []"
  by (simp add: section_simps)

type_synonym 'a sq_monitor = "('a sync_queue, sq_cond, 'a sq_op, 'a sq_ret) monitor"

abbreviation sq_reach :: "('a sq_op \<Rightarrow> bool) \<Rightarrow> int \<Rightarrow> nat \<Rightarrow> 'a sq_monitor \<Rightarrow> bool" where
  "sq_reach allowed maxSize n m \<equiv>
     mon_reach sq_section allowed (start (SyncQueue_init maxSize) n) m"

lemma SyncQueue_init_simps [simp]:
  "m_queue (SyncQueue_init k) = []" "m_maxSize (SyncQueue_init k) = k"
  "\<not> m_needStop (SyncQueue_init k)"
  by (simp_all add: SyncQueue_init_def)

subsection \<open>Sections, one by one\<close>

lemma sq_wait_cases:
  "sq_section op q = Wait q' c \<Longrightarrow> q' = q \<and> \<not> m_needStop q \<and>
    ((c = M_notFull \<and> (\<exists>x. op = Put x) \<and> \<not> NotFull q) \<or>
     (c = M_notEmpty \<and> op \<in> {Take, Take_list} \<and> m_queue q = []))"
  by (cases op) (auto simp: section_simps split: if_splits list.splits)

lemma sq_return_bound: "sq_section op q = Return q' r ns ps \<Longrightarrow> m_maxSize q' = m_maxSize q"
  by (cases op) (auto simp: section_simps split: if_splits list.splits)

lemma sq_return_stop:
  "sq_section op q = Return q' r ns ps \<Longrightarrow> m_needStop q' = (m_needStop q \<or> op = Stop)"
  by (cases op) (auto simp: section_simps split: if_splits list.splits)

lemma sq_stopped_returns: "m_needStop q \<Longrightarrow> sq_section op q \<noteq> Wait q' c"
  by (auto dest: sq_wait_cases)

subsection \<open>The sequential specification\<close>

text \<open>
  A bounded queue with a stop flag: elements are appended while there is room and the flag is
  down, taken from the front while there are any and the flag is down.
\<close>

fun sq_spec :: "nat \<Rightarrow> 'a sq_op \<Rightarrow> 'a sq_ret \<Rightarrow> 'a list \<times> bool \<Rightarrow> ('a list \<times> bool) option" where
  "sq_spec cap (Put x) Added (xs, s) = (if \<not> s \<and> length xs < cap then Some (xs @ [x], s) else None)"
| "sq_spec cap (Put x) Add_stopped (xs, s) = (if s then Some (xs, s) else None)"
| "sq_spec cap Take (Took x) (x' # xs, s) = (if \<not> s \<and> x = x' then Some (xs, s) else None)"
| "sq_spec cap Take Take_stopped (xs, s) = (if s then Some (xs, s) else None)"
| "sq_spec cap Take_list (Took_list ys) (xs, s) =
     (if \<not> s \<and> xs \<noteq> [] \<and> ys = xs then Some ([], s) else None)"
| "sq_spec cap Take_list Take_stopped (xs, s) = (if s then Some (xs, s) else None)"
| "sq_spec cap Stop Stop_done (xs, s) = Some (xs, True)"
| "sq_spec cap Empty (Bool_ret b) (xs, s) = (if b = (xs = []) then Some (xs, s) else None)"
| "sq_spec cap Full (Bool_ret b) (xs, s) = (if b = (length xs = cap) then Some (xs, s) else None)"
| "sq_spec cap Size (Size_ret n) (xs, s) = (if n = length xs then Some (xs, s) else None)"
| "sq_spec cap _ _ _ = None"

definition sq_abs :: "'a sync_queue \<Rightarrow> 'a list \<times> bool" where
  "sq_abs q = (m_queue q, m_needStop q)"

definition sq_inv :: "int \<Rightarrow> 'a sync_queue \<Rightarrow> bool" where
  "sq_inv maxSize q \<longleftrightarrow>
     m_maxSize q = maxSize \<and> length (m_queue q) \<le> size_t_of_int maxSize"

fun sq_puts :: "'a sq_op \<Rightarrow> 'a sq_ret \<Rightarrow> 'a list" where
  "sq_puts (Put x) Added = [x]"
| "sq_puts _ _ = []"

fun sq_takes :: "'a sq_op \<Rightarrow> 'a sq_ret \<Rightarrow> 'a list" where
  "sq_takes Take (Took x) = [x]"
| "sq_takes Take_list (Took_list xs) = xs"
| "sq_takes _ _ = []"

lemma sq_section_inv:
  "sq_inv k q \<Longrightarrow> sq_section op q = Return q' r ns ps \<Longrightarrow> sq_inv k q'"
  by (cases op) (auto simp: sq_inv_def section_simps split: if_splits list.splits)

lemma sq_section_spec:
  "sq_inv k q \<Longrightarrow> sq_section op q = Return q' r ns ps \<Longrightarrow>
    sq_spec (size_t_of_int k) op r (sq_abs q) = Some (sq_abs q')"
  by (cases op) (auto simp: sq_abs_def sq_inv_def section_simps split: if_splits list.splits)

interpretation sq: monitor_refines sq_section allowed "sq_inv k" sq_abs
    "sq_spec (size_t_of_int k)"
  by unfold_locales (auto dest!: sq_wait_cases intro: sq_section_inv sq_section_spec)

interpretation sqf: fifo_spec "sq_spec cap" fst sq_puts sq_takes
proof
  fix op :: "'a sq_op" and r a a'
  assume "sq_spec cap op r a = Some a'"
  then show "fst a @ sq_puts op r = sq_takes op r @ fst a'"
    by (cases "(cap, op, r, a)" rule: sq_spec.cases) (auto split: if_splits)
qed

subsection \<open>Wake-up disciplines\<close>

text \<open>
  Consumers: the resource is an element, the users are both kinds of \<open>Take\<close>; every operation may
  be called. Producers: the resource is a free slot, the users are \<open>Put\<close>s. \<open>Take(list)\<close> frees many
  slots with one notification, so the discipline holds for the other operations only.
\<close>

fun is_take :: "'a sq_op \<Rightarrow> bool" where
  "is_take Take = True" | "is_take Take_list = True" | "is_take _ = False"

fun is_put :: "'a sq_op \<Rightarrow> bool" where
  "is_put (Put x) = True" | "is_put _ = False"

definition free_slots :: "'a sync_queue \<Rightarrow> nat" where
  "free_slots q = size_t_of_int (m_maxSize q) - length (m_queue q)"

lemma sq_consumers_pay:
  "sq_section op q = Return q' r ns ps \<Longrightarrow> \<not> m_needStop q' \<Longrightarrow>
    length (m_queue q') + (if is_take op then 1 else 0) \<le>
    length (m_queue q) + count_list ns (One M_notEmpty) + count_list ps (One M_notEmpty)"
  by (cases op)
    (auto simp: section_simps less_eq_Suc_le [symmetric] split: if_splits list.splits)

lemma sq_producers_pay:
  "sq_inv k q \<Longrightarrow> op \<noteq> Take_list \<Longrightarrow> sq_section op q = Return q' r ns ps \<Longrightarrow>
    \<not> m_needStop q' \<Longrightarrow>
    free_slots q' + (if is_put op then 1 else 0) \<le>
    free_slots q + count_list ns (One M_notFull) + count_list ps (One M_notFull)"
  by (cases op)
    (auto simp: section_simps free_slots_def sq_inv_def split: if_splits list.splits)

interpretation sqc: wakeup_discipline sq_section "\<lambda>_. True" "sq_inv k" M_notEmpty is_take
    "\<lambda>q. length (m_queue q)" m_needStop
proof
  fix op :: "'a sq_op" and q q' r ns ps
  assume "sq_section op q = Return q' r ns ps" "\<not> m_needStop q'"
  then show "length (m_queue q') + (if is_take op then 1 else 0) \<le>
      length (m_queue q) + count_list ns (One M_notEmpty) + count_list ps (One M_notEmpty)"
    by (rule sq_consumers_pay)
qed (auto dest!: sq_wait_cases sq_return_stop)

interpretation sqp: wakeup_discipline sq_section "\<lambda>op. op \<noteq> Take_list" "sq_inv k" M_notFull is_put
    free_slots m_needStop
proof
  fix op :: "'a sq_op" and q q' r ns ps
  assume "sq_inv k q" "op \<noteq> Take_list" "sq_section op q = Return q' r ns ps" "\<not> m_needStop q'"
  then show "free_slots q' + (if is_put op then 1 else 0) \<le>
      free_slots q + count_list ns (One M_notFull) + count_list ps (One M_notFull)"
    by (rule sq_producers_pay)
qed (auto dest!: sq_wait_cases sq_return_stop simp: free_slots_def NotFull_def)

interpretation sqs: stop_discipline sq_section c m_needStop
proof
  fix op :: "'a sq_op" and q q' r ns ps
  assume "\<not> m_needStop q" "sq_section op q = Return q' r ns ps" "m_needStop q'"
  then show "All c \<in> set ps"
    by (cases c; cases op) (auto simp: section_simps split: if_splits list.splits)
qed (auto dest: sq_wait_cases sq_return_stop sq_stopped_returns)

subsection \<open>Properties\<close>

text \<open>
  C15: every concurrent run of any number of threads on one queue is linearizable. The log of
  completed operations is a legal history of a bounded queue with a stop flag, started empty, and
  it ends in the elements and the flag the object holds.
\<close>

theorem sync_queue_linearizable:
  assumes "sq_reach allowed k n m"
  shows "run_spec (sq_spec (size_t_of_int k)) ([], False) (history m) =
    Some (m_queue (shared m), m_needStop (shared m))"
  using sq.linearizable [OF assms, of k] by (simp add: sq_abs_def sq_inv_def)

text \<open>
  C16: first in, first out, without loss or duplication: the elements put, in the order the \<open>Put\<close>s
  completed, are the elements taken, in the order they were taken, followed by those in the queue.
\<close>

theorem sync_queue_fifo:
  assumes "sq_reach allowed k n m"
  shows "concat (map (\<lambda>(i, op, r). sq_puts op r) (history m)) =
    concat (map (\<lambda>(i, op, r). sq_takes op r) (history m)) @ m_queue (shared m)"
proof -
  have "run_spec (sq_spec (size_t_of_int k)) ([], False) (history m) =
      Some (m_queue (shared m), m_needStop (shared m))"
    using sq.linearizable [OF assms, of k] by (simp add: sq_abs_def sq_inv_def)
  from sqf.run_fifo [OF this] show ?thesis by simp
qed

text \<open>the queue never holds more than \<open>m_maxSize\<close> elements, whatever the threads do, when the bound
  it was built with is not negative.
\<close>

theorem sync_queue_bounded:
  assumes "sq_reach allowed k n m" and "0 \<le> k" and "is_int32 k"
  shows "int (length (m_queue (shared m))) \<le> k"
  using sq.reach_inv [OF assms(1), of k] assms(2,3)
  by (auto simp: sq_inv_def is_int32_def)

text \<open>
  C17: no wake-up of a consumer is lost. As long as the queue is not stopped, a consumer that waits
  while elements are there has a helper: a thread about to run a \<open>Take\<close>. (Every notification of
  \<open>m_notEmpty\<close> is sent inside the section of a \<open>Put\<close>, so none is outstanding.)
\<close>

theorem sync_queue_consumer_wakeup:
  assumes reach: "sq_reach (\<lambda>_. True) k n m"
    and run: "\<not> m_needStop (shared m)" "m_queue (shared m) \<noteq> []"
    and i: "i < length (threads m)" "threads m ! i = Blocked M_notEmpty op"
  shows "\<exists>j < length (threads m). \<exists>op'.
    (threads m ! j = Ready op' \<and> is_take op') \<or>
    (\<exists>ns. threads m ! j = Post ns \<and> One M_notEmpty \<in> set ns)"
  using sqc.waiting_has_helper [OF reach, of k i] run i by (auto simp: sq_inv_def)

text \<open>no wake-up of a producer is lost either, as long as consumers take elements one at a time
  (which is what the thread pool does): a producer that waits while there is room has a helper.
\<close>

theorem sync_queue_producer_wakeup:
  assumes reach: "sq_reach (\<lambda>op. op \<noteq> Take_list) k n m"
    and run: "\<not> m_needStop (shared m)" "0 < free_slots (shared m)"
    and i: "i < length (threads m)" "threads m ! i = Blocked M_notFull op"
  shows "\<exists>j < length (threads m). \<exists>op'.
    (threads m ! j = Ready op' \<and> is_put op') \<or>
    (\<exists>ns. threads m ! j = Post ns \<and> One M_notFull \<in> set ns)"
  using sqp.waiting_has_helper [OF reach, of k i] run i by (auto simp: sq_inv_def)

definition take_list_schedule :: "nat sq_op move list" where
  "take_list_schedule =
     [Call 0 (Put 1), Section 0 0, Leave 0, Call 0 (Put 2), Section 0 0, Leave 0,
      Call 0 (Put 3), Section 0 0, Call 1 (Put 4), Section 1 0,
      Call 2 Take_list, Section 2 0, Leave 2, Section 0 0, Leave 0]"

text \<open>\<open>Take(list)\<close> loses wake-ups of producers. It empties the queue but notifies one producer, so
  with a queue of size 2 two producers can wait, one be woken, and the other go on waiting beside a
  queue with room in which no thread is running.
\<close>

theorem sync_queue_take_list_loses_wakeup:
  "\<exists>m. sq_reach (\<lambda>_. True) 2 3 m \<and> \<not> m_needStop (shared m) \<and> free_slots (shared m) = 1 \<and>
    threads m = [Idle, Blocked M_notFull (Put (4 :: nat)), Idle]"
proof -
  have "\<exists>m. run sq_section (\<lambda>_. True) take_list_schedule (start (SyncQueue_init 2) 3) = Some m \<and>
    \<not> m_needStop (shared m) \<and> free_slots (shared m) = 1 \<and>
    threads m = [Idle, Blocked M_notFull (Put (4 :: nat)), Idle]"
    by (simp add: take_list_schedule_def section_simps start_def SyncQueue_init_def free_slots_def
        waiters_def numeral_3_eq_3)
  then show ?thesis using run_reach by blast
qed

text \<open>
  C18: \<open>Stop\<close> releases everybody. In every reachable state of a stopped queue each waiting thread is
  about to be woken by the \<open>notify_all\<close>s of \<open>Stop\<close>, or none waits; and from then on every section
  returns at once.
\<close>

theorem sync_queue_stop_releases:
  assumes "sq_reach allowed k n m" and "m_needStop (shared m)"
  shows "(calm c (threads m) \<or> waking c (threads m)) \<and> (\<forall>op. \<exists>q r ns ps.
    sq_section op (shared m) = Return q r ns ps \<and> m_queue q = m_queue (shared m))"
proof
  show "calm c (threads m) \<or> waking c (threads m)"
    using sqs.reach_released [OF assms(1), of c] assms(2) by simp
  show "\<forall>op. \<exists>q r ns ps. sq_section op (shared m) = Return q r ns ps \<and> m_queue q = m_queue (shared m)"
  proof
    fix op
    show "\<exists>q r ns ps. sq_section op (shared m) = Return q r ns ps \<and> m_queue q = m_queue (shared m)"
      using assms(2) by (cases op) (auto simp: section_simps)
  qed
qed

subsection \<open>Witnesses: concrete runs\<close>

definition demo_schedule :: "nat sq_op move list" where
  "demo_schedule =
     [Call 0 (Put 7), Section 0 0, Leave 0, Call 0 (Put 8), Section 0 0, Leave 0,
      Call 1 Take, Section 1 0]"

definition consumers_schedule :: "nat sq_op move list" where
  "consumers_schedule =
     [Call 0 Take, Section 0 0, Call 1 Take, Section 1 0, Call 2 (Put 7), Section 2 0]"

definition producers_schedule :: "nat sq_op move list" where
  "producers_schedule =
     [Call 2 (Put 1), Section 2 0, Leave 2, Call 0 (Put 2), Section 0 0,
      Call 1 (Put 3), Section 1 0, Call 2 Take, Section 2 0]"

definition stop_schedule :: "nat sq_op move list" where
  "stop_schedule = [Call 0 Take, Section 0 0, Call 1 Stop, Section 1 0]"

lemmas run_eval = section_simps start_def SyncQueue_init_def free_slots_def waiters_def
  numeral_3_eq_3 numeral_2_eq_2

lemma demo_reach:
  "\<exists>m. sq_reach (\<lambda>_. True) 2 2 m \<and> m_queue (shared m) = [8] \<and> \<not> m_needStop (shared m) \<and>
    history m = [(0, Put 7, Added), (0, Put 8, Added), (1, Take, Took (7 :: nat))]"
proof -
  have "\<exists>m. run sq_section (\<lambda>_. True) demo_schedule (start (SyncQueue_init 2) 2) = Some m \<and>
    m_queue (shared m) = [8] \<and> \<not> m_needStop (shared m) \<and>
    history m = [(0, Put 7, Added), (0, Put 8, Added), (1, Take, Took (7 :: nat))]"
    by (simp add: demo_schedule_def run_eval)
  then show ?thesis using run_reach by blast
qed

theorem sync_queue_linearizable_witness:
  "\<exists>m. sq_reach (\<lambda>_. True) 2 2 m \<and>
    history m = [(0, Put 7, Added), (0, Put 8, Added), (1, Take, Took (7 :: nat))] \<and>
    run_spec (sq_spec (size_t_of_int 2)) ([], False) (history m) = Some ([8], False)"
  using demo_reach sync_queue_linearizable by fastforce

theorem sync_queue_fifo_witness:
  "\<exists>m. sq_reach (\<lambda>_. True) 2 2 m \<and> m_queue (shared m) = [8 :: nat] \<and>
    concat (map (\<lambda>(i, op, r). sq_puts op r) (history m)) =
    concat (map (\<lambda>(i, op, r). sq_takes op r) (history m)) @ [8]"
  using demo_reach sync_queue_fifo by fastforce

theorem sync_queue_bounded_witness:
  "\<exists>m :: nat sq_monitor. sq_reach (\<lambda>_. True) 2 2 m \<and> m_queue (shared m) = [8] \<and>
    int (length (m_queue (shared m))) \<le> 2"
proof -
  obtain m :: "nat sq_monitor" where m: "sq_reach (\<lambda>_. True) 2 2 m" "m_queue (shared m) = [8]"
    using demo_reach by blast
  from sync_queue_bounded [OF m(1)] m show ?thesis by (auto simp: is_int32_def)
qed

theorem sync_queue_consumer_wakeup_witness:
  "\<exists>m :: nat sq_monitor. sq_reach (\<lambda>_. True) 2 3 m \<and> m_queue (shared m) = [7] \<and>
    threads m ! 1 = Blocked M_notEmpty Take \<and>
    (\<exists>j < length (threads m). \<exists>op'. (threads m ! j = Ready op' \<and> is_take op') \<or>
      (\<exists>ns. threads m ! j = Post ns \<and> One M_notEmpty \<in> set ns))"
proof -
  have "\<exists>m. run sq_section (\<lambda>_. True) consumers_schedule (start (SyncQueue_init 2) 3) = Some m \<and>
    \<not> m_needStop (shared m) \<and> m_queue (shared m) = [7 :: nat] \<and> 1 < length (threads m) \<and>
    threads m ! 1 = Blocked M_notEmpty Take"
    by (simp add: consumers_schedule_def run_eval)
  then obtain m :: "nat sq_monitor" where m: "sq_reach (\<lambda>_. True) 2 3 m"
    "\<not> m_needStop (shared m)" "m_queue (shared m) = [7]" "1 < length (threads m)"
    "threads m ! 1 = Blocked M_notEmpty Take"
    using run_reach by blast
  from sync_queue_consumer_wakeup [OF m(1,2) _ m(4,5)] m show ?thesis by auto
qed

theorem sync_queue_producer_wakeup_witness:
  "\<exists>m :: nat sq_monitor. sq_reach (\<lambda>op. op \<noteq> Take_list) 1 3 m \<and> free_slots (shared m) = 1 \<and>
    threads m ! 1 = Blocked M_notFull (Put 3) \<and>
    (\<exists>j < length (threads m). \<exists>op'. (threads m ! j = Ready op' \<and> is_put op') \<or>
      (\<exists>ns. threads m ! j = Post ns \<and> One M_notFull \<in> set ns))"
proof -
  have "\<exists>m. run sq_section (\<lambda>op. op \<noteq> Take_list) producers_schedule
      (start (SyncQueue_init 1) 3) = Some m \<and>
    \<not> m_needStop (shared m) \<and> free_slots (shared m) = 1 \<and> 1 < length (threads m) \<and>
    threads m ! 1 = Blocked M_notFull (Put (3 :: nat))"
    by (simp add: producers_schedule_def run_eval)
  then obtain m :: "nat sq_monitor" where m: "sq_reach (\<lambda>op. op \<noteq> Take_list) 1 3 m"
    "\<not> m_needStop (shared m)" "free_slots (shared m) = 1" "1 < length (threads m)"
    "threads m ! 1 = Blocked M_notFull (Put 3)"
    using run_reach by blast
  from sync_queue_producer_wakeup [OF m(1,2) _ m(4,5)] m show ?thesis by auto
qed

theorem sync_queue_stop_releases_witness:
  "\<exists>m :: nat sq_monitor. sq_reach (\<lambda>_. True) 2 2 m \<and> m_needStop (shared m) \<and>
    threads m ! 0 = Blocked M_notEmpty Take \<and>
    (calm M_notEmpty (threads m) \<or> waking M_notEmpty (threads m)) \<and>
    (\<forall>op. \<exists>q r ns ps. sq_section op (shared m) = Return q r ns ps \<and> m_queue q = m_queue (shared m))"
proof -
  have "\<exists>m. run sq_section (\<lambda>_. True) stop_schedule (start (SyncQueue_init 2) 2) = Some m \<and>
    m_needStop (shared m) \<and> threads m ! 0 = Blocked M_notEmpty (Take :: nat sq_op)"
    by (simp add: stop_schedule_def run_eval)
  then obtain m :: "nat sq_monitor" where m: "sq_reach (\<lambda>_. True) 2 2 m"
    "m_needStop (shared m)" "threads m ! 0 = Blocked M_notEmpty Take"
    using run_reach by blast
  from sync_queue_stop_releases [OF m(1,2), of M_notEmpty] m show ?thesis by blast
qed

end
