(* ===== verification/Task_Pool.thy ===== *)
theory Task_Pool
  imports Sync_Queue "HOL-Library.Multiset"
begin

section \<open>The template thread pool (include/ThreadPool.hpp)\<close>

text \<open>
  \<open>ThreadPool<T>\<close> owns a \<open>SyncQueue<T>\<close> of size \<open>MaxTaskCount\<close> and a group of workers that run
  \<open>RunInThread\<close>: test \<open>m_running\<close>, wait for \<open>SIGUSR1\<close> if the worker's pause flag is up, take a
  parameter, test \<open>m_running\<close> again, call \<open>_pfun\<close> on the parameter. A controlling thread calls
  \<open>Pause\<close>, \<open>Continues\<close> and \<open>Stop\<close>; any thread calls \<open>AddData\<close>.

  A worker is its program counter. Its steps are the reads and writes the code makes without a
  lock, one per step; a call into the queue is one step, enabled when the section of
  \<open>Sync_Queue\<close> returns (that theory shows that a waiting thread is woken). The signal \<open>SIGUSR1\<close>
  sent by \<open>pthread_kill\<close> stays pending until \<open>sigwait\<close> takes it; sent to a worker that has not
  yet blocked it, its default action ends the process. \<open>dflt\<close> is the value of \<open>T task_param;\<close>.
  The member \<open>m_running\<close> is used by the class but declared nowhere in it; the model has it as the
  flag the code assigns and tests. \<open>tp_added\<close>, \<open>tp_taken\<close> and \<open>tp_processed\<close> are logs.
\<close>

definition MaxTaskCount :: int where
  "MaxTaskCount = 99"

datatype 'a worker =
    Starting      \<comment> \<open>before \<open>pthread_sigmask\<close>\<close>
  | Head          \<comment> \<open>at the test of the \<open>while\<close>\<close>
  | Check         \<comment> \<open>at the test of the pause flag\<close>
  | Sig_wait      \<comment> \<open>in \<open>sigwait\<close>\<close>
  | Taking        \<comment> \<open>in \<open>m_queue.Take(task_param)\<close>\<close>
  | Got 'a        \<comment> \<open>at the second test of \<open>m_running\<close>\<close>
  | Running 'a    \<comment> \<open>about to call \<open>_pfun(task_param)\<close>\<close>
  | Exited

datatype control =
    Ctl_idle
  | Pausing "nat list"         \<comment> \<open>threads whose flag is still to be raised\<close>
  | Cont_kill "nat list"       \<comment> \<open>threads still to be signalled\<close>
  | Cont_flag nat "nat list"   \<comment> \<open>signalled, flag still to be lowered\<close>
  | Stop_flag                  \<comment> \<open>queue stopped, \<open>m_running\<close> still to be cleared\<close>
  | Joining "nat list"         \<comment> \<open>threads still to be joined\<close>

record 'a task_pool =
  tp_queue :: "'a sync_queue"
  tp_running :: bool
  waitsig_group :: "bool list"
  tp_workers :: "'a worker list"
  tp_pending :: "bool list"
  m_threadgroup :: "nat list"
  tp_once :: bool
  tp_pfun :: bool
  tp_control :: control
  tp_dead :: bool
  tp_added :: "'a list"
  tp_taken :: "'a list"
  tp_processed :: "'a list"

text \<open>The constructor: at most 99 workers, started and their flags lowered by \<open>Start\<close>.\<close>

definition pool_threads :: "int \<Rightarrow> nat" where
  "pool_threads numThreads = nat (if numThreads > 99 then MaxTaskCount else numThreads)"

definition Start :: "nat \<Rightarrow> 'a task_pool" where
  "Start n = \<lparr>tp_queue = SyncQueue_init MaxTaskCount, tp_running = True,
     waitsig_group = replicate n False, tp_workers = replicate n Starting,
     tp_pending = replicate n False, m_threadgroup = [0..<n], tp_once = False, tp_pfun = False,
     tp_control = Ctl_idle, tp_dead = False, tp_added = [], tp_taken = [], tp_processed = []\<rparr>"

definition ThreadPool_ctor :: "int \<Rightarrow> 'a task_pool" where
  "ThreadPool_ctor numThreads = Start (pool_threads numThreads)"

definition set_worker :: "nat \<Rightarrow> 'a worker \<Rightarrow> 'a task_pool \<Rightarrow> 'a task_pool" where
  "set_worker i w p = p\<lparr>tp_workers := (tp_workers p)[i := w]\<rparr>"

definition EINTR :: int where
  "EINTR = 4"

text \<open>One step of worker \<open>i\<close>; \<open>ret\<close> is what \<open>sigwait\<close> returns if the worker is in it.\<close>

fun RunInThread_at :: "'a \<Rightarrow> int \<Rightarrow> nat \<Rightarrow> 'a worker \<Rightarrow> 'a task_pool \<Rightarrow> 'a task_pool option" where
  "RunInThread_at dflt ret i Starting p = Some (set_worker i Head p)"
| "RunInThread_at dflt ret i Head p =
     Some (set_worker i (if tp_running p then Check else Exited) p)"
| "RunInThread_at dflt ret i Check p =
     Some (set_worker i (if waitsig_group p ! i then Sig_wait else Taking) p)"
| "RunInThread_at dflt ret i Sig_wait p =
     (if ret = 0 then
        (if tp_pending p ! i
         then Some (set_worker i Taking (p\<lparr>tp_pending := (tp_pending p)[i := False]\<rparr>))
         else None)
      else if EINTR = ret then Some (set_worker i Head p)
      else Some (set_worker i Exited (p\<lparr>tp_running := False\<rparr>)))"
| "RunInThread_at dflt ret i Taking p =
     (case sq_section Take (tp_queue p) of
        Return q (Took x) ns ps \<Rightarrow>
          Some (set_worker i (Got x) (p\<lparr>tp_queue := q, tp_taken := tp_taken p @ [x]\<rparr>))
      | Return q r ns ps \<Rightarrow> Some (set_worker i (Got dflt) (p\<lparr>tp_queue := q\<rparr>))
      | Wait q c \<Rightarrow> None)"
| "RunInThread_at dflt ret i (Got x) p =
     Some (set_worker i (if \<not> tp_running p then Exited else Running x) p)"
| "RunInThread_at dflt ret i (Running x) p =
     (if tp_pfun p
      then Some (set_worker i Head (p\<lparr>tp_processed := tp_processed p @ [x]\<rparr>))
      else Some (p\<lparr>tp_dead := True\<rparr>))"
| "RunInThread_at dflt ret i Exited p = None"

definition RunInThread_step :: "'a \<Rightarrow> int \<Rightarrow> nat \<Rightarrow> 'a task_pool \<Rightarrow> 'a task_pool option" where
  "RunInThread_step dflt ret i p =
     (if i < length (tp_workers p) then RunInThread_at dflt ret i (tp_workers p ! i) p else None)"

definition AddData :: "'a \<Rightarrow> 'a task_pool \<Rightarrow> 'a task_pool option" where
  "AddData x p =
     (case sq_section (Put x) (tp_queue p) of
        Return q Added ns ps \<Rightarrow> Some (p\<lparr>tp_queue := q, tp_added := tp_added p @ [x]\<rparr>)
      | Return q r ns ps \<Rightarrow> Some (p\<lparr>tp_queue := q\<rparr>)
      | Wait q c \<Rightarrow> None)"

definition SetProcessFun :: "'a task_pool \<Rightarrow> 'a task_pool" where
  "SetProcessFun p = p\<lparr>tp_pfun := True\<rparr>"

text \<open>\<open>pthread_kill(tid, SIGUSR1)\<close>.\<close>

definition kill_worker :: "nat \<Rightarrow> 'a task_pool \<Rightarrow> 'a task_pool" where
  "kill_worker i p =
     (case tp_workers p ! i of
        Starting \<Rightarrow> p\<lparr>tp_dead := True\<rparr>
      | Exited \<Rightarrow> p
      | _ \<Rightarrow> p\<lparr>tp_pending := (tp_pending p)[i := True]\<rparr>)"

text \<open>One step of the controlling thread inside \<open>pause\<close>, \<open>continues\<close> or \<open>StopThreadGroup\<close>.\<close>

fun control_at :: "control \<Rightarrow> 'a task_pool \<Rightarrow> 'a task_pool option" where
  "control_at Ctl_idle p = None"
| "control_at (Pausing []) p = Some (p\<lparr>tp_control := Ctl_idle\<rparr>)"
| "control_at (Pausing (i # is)) p =
     Some (p\<lparr>waitsig_group := (waitsig_group p)[i := True], tp_control := Pausing is\<rparr>)"
| "control_at (Cont_kill []) p = Some (p\<lparr>tp_control := Ctl_idle\<rparr>)"
| "control_at (Cont_kill (i # is)) p = Some ((kill_worker i p)\<lparr>tp_control := Cont_flag i is\<rparr>)"
| "control_at (Cont_flag i is) p =
     Some (p\<lparr>waitsig_group := (waitsig_group p)[i := False], tp_control := Cont_kill is\<rparr>)"
| "control_at Stop_flag p = Some (p\<lparr>tp_running := False, tp_control := Joining (m_threadgroup p)\<rparr>)"
| "control_at (Joining []) p = Some (p\<lparr>m_threadgroup := [], tp_control := Ctl_idle\<rparr>)"
| "control_at (Joining (i # is)) p =
     (if tp_workers p ! i = Exited then Some (p\<lparr>tp_control := Joining is\<rparr>) else None)"

definition control_step :: "'a task_pool \<Rightarrow> 'a task_pool option" where
  "control_step p = control_at (tp_control p) p"

definition Pause :: "'a task_pool \<Rightarrow> 'a task_pool" where
  "Pause p = p\<lparr>tp_control := Pausing (m_threadgroup p)\<rparr>"

definition Continues :: "'a task_pool \<Rightarrow> 'a task_pool" where
  "Continues p = p\<lparr>tp_control := Cont_kill (m_threadgroup p)\<rparr>"

text \<open>\<open>Stop\<close>, through \<open>call_once\<close>: the queue is stopped first, \<open>m_running\<close> cleared afterwards.\<close>

definition StopThreadGroup :: "'a task_pool \<Rightarrow> 'a task_pool" where
  "StopThreadGroup p =
     (case sq_section Sync_Queue.Stop (tp_queue p) of
        Return q r ns ps \<Rightarrow> p\<lparr>tp_queue := q, tp_control := Stop_flag\<rparr>
      | Wait q c \<Rightarrow> p)"

definition Stop_pool :: "'a task_pool \<Rightarrow> 'a task_pool" where
  "Stop_pool p = (if tp_once p then p else StopThreadGroup (p\<lparr>tp_once := True\<rparr>))"

datatype 'a pool_ev =
    Worker nat int | Control | Add_data 'a | Set_process_fun | Pause_call | Continues_call | Stop_call

text \<open>
  The effect of one event, \<open>None\<close> where it cannot happen: the process has ended, the thread is
  waiting, or the controlling thread is still inside its last call.
\<close>

fun pool_event :: "'a \<Rightarrow> 'a pool_ev \<Rightarrow> 'a task_pool \<Rightarrow> 'a task_pool option" where
  "pool_event dflt (Worker i ret) p = (if tp_dead p then None else RunInThread_step dflt ret i p)"
| "pool_event dflt Control p = (if tp_dead p then None else control_step p)"
| "pool_event dflt (Add_data x) p = (if tp_dead p then None else AddData x p)"
| "pool_event dflt Set_process_fun p = (if tp_dead p then None else Some (SetProcessFun p))"
| "pool_event dflt Pause_call p =
     (if tp_dead p \<or> tp_control p \<noteq> Ctl_idle then None else Some (Pause p))"
| "pool_event dflt Continues_call p =
     (if tp_dead p \<or> tp_control p \<noteq> Ctl_idle then None else Some (Continues p))"
| "pool_event dflt Stop_call p =
     (if tp_dead p \<or> tp_control p \<noteq> Ctl_idle then None else Some (Stop_pool p))"

fun pool_run :: "'a \<Rightarrow> 'a pool_ev list \<Rightarrow> 'a task_pool \<Rightarrow> 'a task_pool option" where
  "pool_run dflt [] p = Some p"
| "pool_run dflt (e # es) p =
     (case pool_event dflt e p of None \<Rightarrow> None | Some p' \<Rightarrow> pool_run dflt es p')"

lemma pool_run_induct:
  assumes "pool_run dflt es p = Some p'" and "P p"
    and step: "\<And>e q q'. e \<in> set es \<Longrightarrow> pool_event dflt e q = Some q' \<Longrightarrow> P q \<Longrightarrow> P q'"
  shows "P p'"
  using assms
proof (induction es arbitrary: p)
  case (Cons e es)
  then obtain p1 where p1: "pool_event dflt e p = Some p1" "pool_run dflt es p1 = Some p'"
    by (auto split: option.splits)
  have "P p1" using Cons.prems(2) Cons.prems(3) [of e] p1(1) by simp
  then show ?case using Cons.IH [OF p1(2)] Cons.prems(3) by (meson list.set_intros(2))
qed simp

lemma pool_run_append:
  "pool_run dflt (es @ fs) p =
    (case pool_run dflt es p of None \<Rightarrow> None | Some p' \<Rightarrow> pool_run dflt fs p')"
  by (induction es arbitrary: p) (auto split: option.splits)

lemmas pool_defs = RunInThread_step_def AddData_def SetProcessFun_def control_step_def
  Pause_def Continues_def Stop_pool_def StopThreadGroup_def set_worker_def kill_worker_def

subsection \<open>Every parameter goes through the queue in order\<close>

lemma AddData_cases:
  "AddData x p = Some p' \<Longrightarrow>
    (\<not> m_needStop (tp_queue p) \<and>
      p' = p\<lparr>tp_queue := (tp_queue p)\<lparr>m_queue := m_queue (tp_queue p) @ [x]\<rparr>,
             tp_added := tp_added p @ [x]\<rparr>) \<or>
    (m_needStop (tp_queue p) \<and> p' = p)"
  by (auto simp: AddData_def section_simps split: if_splits)

lemma Taking_cases:
  "RunInThread_at dflt ret i Taking p = Some p' \<Longrightarrow>
    (\<exists>x rest. m_queue (tp_queue p) = x # rest \<and> \<not> m_needStop (tp_queue p) \<and>
      p' = set_worker i (Got x)
        (p\<lparr>tp_queue := (tp_queue p)\<lparr>m_queue := rest\<rparr>, tp_taken := tp_taken p @ [x]\<rparr>)) \<or>
    (m_needStop (tp_queue p) \<and> p' = set_worker i (Got dflt) p)"
  by (auto simp: section_simps split: if_splits list.splits)

text \<open>The log of additions is the log of removals followed by the queue.\<close>

definition in_order :: "'a task_pool \<Rightarrow> bool" where
  "in_order p \<longleftrightarrow> tp_added p = tp_taken p @ m_queue (tp_queue p)"

lemma set_worker_simps [simp]:
  "tp_queue (set_worker i w p) = tp_queue p" "tp_running (set_worker i w p) = tp_running p"
  "tp_added (set_worker i w p) = tp_added p" "tp_taken (set_worker i w p) = tp_taken p"
  "tp_processed (set_worker i w p) = tp_processed p" "tp_pfun (set_worker i w p) = tp_pfun p"
  "tp_workers (set_worker i w p) = (tp_workers p)[i := w]"
  "waitsig_group (set_worker i w p) = waitsig_group p" "tp_dead (set_worker i w p) = tp_dead p"
  "tp_pending (set_worker i w p) = tp_pending p" "tp_once (set_worker i w p) = tp_once p"
  "tp_control (set_worker i w p) = tp_control p" "m_threadgroup (set_worker i w p) = m_threadgroup p"
  by (simp_all add: set_worker_def)

lemma worker_at_in_order:
  "RunInThread_at dflt ret i w p = Some p' \<Longrightarrow> in_order p \<Longrightarrow> in_order p'"
proof (cases w)
  case Taking
  assume "RunInThread_at dflt ret i w p = Some p'" "in_order p"
  with Taking Taking_cases [of dflt ret i p p'] show ?thesis by (auto simp: in_order_def)
qed (auto simp: in_order_def split: if_splits)

lemma control_at_frame:
  "control_at c p = Some p' \<Longrightarrow>
    tp_queue p' = tp_queue p \<and> tp_added p' = tp_added p \<and> tp_taken p' = tp_taken p \<and>
    tp_processed p' = tp_processed p \<and> tp_workers p' = tp_workers p \<and>
    (tp_running p' \<longrightarrow> tp_running p) \<and> tp_pfun p' = tp_pfun p"
  by (cases "(c, p)" rule: control_at.cases)
    (auto simp: kill_worker_def split: if_splits worker.splits)

lemma event_in_order: "pool_event dflt e p = Some p' \<Longrightarrow> in_order p \<Longrightarrow> in_order p'"
proof (cases e)
  case (Worker i ret)
  assume "pool_event dflt e p = Some p'" "in_order p"
  with Worker show ?thesis
    by (auto simp: RunInThread_step_def split: if_splits intro: worker_at_in_order)
next
  case (Add_data x)
  assume "pool_event dflt e p = Some p'" "in_order p"
  with Add_data show ?thesis
    by (auto simp: in_order_def split: if_splits dest!: AddData_cases)
next
  case Control
  assume "pool_event dflt e p = Some p'" "in_order p"
  with Control show ?thesis
    by (auto simp: in_order_def control_step_def split: if_splits dest!: control_at_frame)
qed (auto simp: in_order_def pool_defs section_simps split: if_splits)

subsection \<open>Every parameter is processed once\<close>

fun hand :: "'a worker \<Rightarrow> 'a list" where
  "hand (Got x) = [x]"
| "hand (Running x) = [x]"
| "hand _ = []"

definition hands :: "'a task_pool \<Rightarrow> 'a multiset" where
  "hands p = mset (concat (map hand (tp_workers p)))"

lemma mset_hands_update:
  "i < length ws \<Longrightarrow>
    mset (concat (map hand (ws[i := w]))) + mset (hand (ws ! i)) =
    mset (concat (map hand ws)) + mset (hand w)"
proof (induction ws arbitrary: i)
  case (Cons v ws)
  show ?case
  proof (cases i)
    case (Suc j)
    with Cons.prems Cons.IH [of j] show ?thesis by (simp add: add.assoc)
  qed (simp add: add.commute)
qed simp

lemma hands_set_worker:
  "i < length (tp_workers p) \<Longrightarrow>
    hands (set_worker i w p) + mset (hand (tp_workers p ! i)) = hands p + mset (hand w)"
  unfolding hands_def by (simp add: mset_hands_update)

text \<open>While the pool runs and is not stopped, what was taken is processed or in a worker's hands.\<close>

definition accounted :: "'a task_pool \<Rightarrow> bool" where
  "accounted p \<longleftrightarrow> (tp_running p \<and> \<not> m_needStop (tp_queue p) \<longrightarrow>
     mset (tp_taken p) = mset (tp_processed p) + hands p)"

lemma worker_at_accounted:
  assumes i: "i < length (tp_workers p)" and w: "w = tp_workers p ! i"
    and step: "RunInThread_at dflt ret i w p = Some p'" and acc: "accounted p"
  shows "accounted p'"
proof (cases w)
  case Taking
  from Taking_cases [OF step [unfolded Taking]] show ?thesis
    using acc mset_hands_update [OF i] Taking w by (auto simp: accounted_def hands_def)
next
  case (Got x)
  with step acc show ?thesis
    using hands_set_worker [OF i, of "Running x"] w by (auto simp: accounted_def split: if_splits)
next
  case (Running x)
  with step acc show ?thesis
    using hands_set_worker [OF i, of Head] w
    by (auto simp: accounted_def hands_def split: if_splits)
qed (use step acc hands_set_worker [OF i] w in \<open>auto simp: accounted_def hands_def split: if_splits\<close>)

lemma event_accounted: "pool_event dflt e p = Some p' \<Longrightarrow> accounted p \<Longrightarrow> accounted p'"
proof (cases e)
  case (Worker i ret)
  assume "pool_event dflt e p = Some p'" "accounted p"
  with Worker show ?thesis
    by (auto simp: RunInThread_step_def split: if_splits intro: worker_at_accounted)
next
  case (Add_data x)
  assume "pool_event dflt e p = Some p'" "accounted p"
  with Add_data show ?thesis
    by (auto simp: accounted_def hands_def split: if_splits dest!: AddData_cases)
next
  case Control
  assume "pool_event dflt e p = Some p'" "accounted p"
  with Control show ?thesis
    by (auto simp: accounted_def hands_def control_step_def split: if_splits dest!: control_at_frame)
qed (auto simp: accounted_def hands_def pool_defs section_simps split: if_splits)

lemma hands_Start: "hands (Start n) = {#}"
  by (simp add: hands_def Start_def)

subsection \<open>Stopping the pool\<close>

text \<open>
  While \<open>Stop\<close> joins the workers: the queue is stopped, \<open>m_running\<close> is down, no pause flag is up
  and no worker is in \<open>sigwait\<close>. Each worker then has a bounded number of steps to its exit.
\<close>

fun steps_left :: "'a worker \<Rightarrow> nat" where
  "steps_left Exited = 0"
| "steps_left Head = 1"
| "steps_left (Running x) = 2"
| "steps_left (Got x) = 1"
| "steps_left Taking = 2"
| "steps_left Check = 3"
| "steps_left Starting = 2"
| "steps_left Sig_wait = 2"

fun joins_left :: "control \<Rightarrow> nat" where
  "joins_left (Joining is) = Suc (length is)"
| "joins_left _ = 0"

definition stop_measure :: "'a task_pool \<Rightarrow> nat" where
  "stop_measure p = sum_list (map steps_left (tp_workers p)) + joins_left (tp_control p)"

definition stopping :: "'a task_pool \<Rightarrow> bool" where
  "stopping p \<longleftrightarrow> \<not> tp_running p \<and> m_needStop (tp_queue p) \<and> tp_pfun p \<and> \<not> tp_dead p \<and>
     (\<forall>i < length (tp_workers p). \<not> waitsig_group p ! i \<and> tp_workers p ! i \<noteq> Sig_wait) \<and>
     (tp_control p = Ctl_idle \<or> (\<exists>is. tp_control p = Joining is \<and>
       (\<forall>i \<in> set is. i < length (tp_workers p))))"

fun thread_event :: "'a pool_ev \<Rightarrow> bool" where
  "thread_event (Worker i ret) = True"
| "thread_event Control = True"
| "thread_event _ = False"

lemma worker_at_stopping:
  assumes i: "i < length (tp_workers p)" and w: "w = tp_workers p ! i"
    and step: "RunInThread_at dflt ret i w p = Some p'" and st: "stopping p"
  shows "\<exists>w'. p' = set_worker i w' p \<and> w' \<noteq> Sig_wait \<and> steps_left w' < steps_left w \<or>
    (\<exists>x. w = Running x \<and> p' = set_worker i Head (p\<lparr>tp_processed := tp_processed p @ [x]\<rparr>))"
proof (cases w)
  case Taking
  from Taking_cases [OF step [unfolded Taking]] show ?thesis
    using st Taking by (auto simp: stopping_def)
qed (use step st w i in \<open>auto simp: stopping_def split: if_splits\<close>)

lemma worker_at_measure:
  assumes i: "i < length (tp_workers p)"
    and step: "RunInThread_at dflt ret i (tp_workers p ! i) p = Some p'" and st: "stopping p"
  shows "stopping p' \<and> stop_measure p' < stop_measure p"
proof -
  from worker_at_stopping [OF i refl step st] obtain w' where
    w': "tp_workers p' = (tp_workers p)[i := w']" "steps_left w' < steps_left (tp_workers p ! i)"
      "w' \<noteq> Sig_wait"
    and frame: "tp_running p' = tp_running p" "tp_queue p' = tp_queue p" "tp_pfun p' = tp_pfun p"
      "tp_dead p' = tp_dead p" "waitsig_group p' = waitsig_group p" "tp_control p' = tp_control p"
    by fastforce
  then have "stopping p'" using st i by (auto simp: stopping_def nth_list_update)
  moreover have "stop_measure p' < stop_measure p"
    using sum_list_map_update [OF i, of steps_left w'] w' frame by (simp add: stop_measure_def)
  ultimately show ?thesis ..
qed

lemma control_measure:
  "control_step p = Some p' \<Longrightarrow> stopping p \<Longrightarrow> stopping p' \<and> stop_measure p' < stop_measure p"
  by (cases "(tp_control p, p)" rule: control_at.cases)
    (auto simp: control_step_def stopping_def stop_measure_def split: if_splits)

lemma stopping_event:
  "thread_event e \<Longrightarrow> pool_event dflt e p = Some p' \<Longrightarrow> stopping p \<Longrightarrow>
    stopping p' \<and> stop_measure p' < stop_measure p"
proof (cases e)
  case (Worker i ret)
  assume "pool_event dflt e p = Some p'" "stopping p"
  with Worker show ?thesis
    using worker_at_measure [of i p dflt ret p']
    by (auto simp: RunInThread_step_def split: if_splits)
next
  case Control
  assume "pool_event dflt e p = Some p'" "stopping p"
  with Control show ?thesis using control_measure [of p p'] by (auto split: if_splits)
qed auto

lemma stopping_worker_moves:
  assumes "stopping p" and "i < length (tp_workers p)" and "tp_workers p ! i \<noteq> Exited"
  shows "pool_event dflt (Worker i 0) p \<noteq> None"
  using assms by (cases "tp_workers p ! i") (auto simp: stopping_def RunInThread_step_def section_simps)

lemma stopping_quiet:
  assumes st: "stopping p" and quiet: "\<forall>e. thread_event e \<longrightarrow> pool_event dflt e p = None"
  shows "tp_control p = Ctl_idle \<and> (\<forall>w \<in> set (tp_workers p). w = Exited)"
proof -
  have ex: "tp_workers p ! i = Exited" if "i < length (tp_workers p)" for i
    using stopping_worker_moves [OF st that] quiet by (metis thread_event.simps(1))
  have "control_step p = None" using quiet st by (auto simp: stopping_def dest: spec [of _ Control])
  then have "tp_control p = Ctl_idle"
    using st ex by (cases "(tp_control p, p)" rule: control_at.cases)
      (auto simp: control_step_def stopping_def)
  with ex show ?thesis by (auto simp: in_set_conv_nth)
qed

subsection \<open>A paused worker and the end of the pool\<close>

fun sigwait_ok :: "'a pool_ev \<Rightarrow> bool" where
  "sigwait_ok (Worker i ret) = (ret = 0)"
| "sigwait_ok _ = True"

definition paused_in_join :: "nat \<Rightarrow> 'a task_pool \<Rightarrow> bool" where
  "paused_in_join i p \<longleftrightarrow> i < length (tp_workers p) \<and> i < length (tp_pending p) \<and>
     tp_workers p ! i = Sig_wait \<and> \<not> tp_pending p ! i \<and>
     (\<exists>is. tp_control p = Joining is \<and> i \<in> set is)"

lemma paused_worker_at:
  assumes "RunInThread_at dflt 0 j w p = Some p'" and "w = tp_workers p ! j"
    and "j < length (tp_workers p)" and "paused_in_join i p"
  shows "paused_in_join i p'"
proof (cases w)
  case Taking
  from Taking_cases [OF assms(1) [unfolded Taking]] show ?thesis
    using assms Taking by (auto simp: paused_in_join_def nth_list_update)
next
  case Sig_wait
  then show ?thesis
    using assms by (cases "i = j") (auto simp: paused_in_join_def split: if_splits)
qed (use assms in \<open>auto simp: paused_in_join_def nth_list_update split: if_splits\<close>)

lemma paused_event:
  "sigwait_ok e \<Longrightarrow> pool_event dflt e p = Some p' \<Longrightarrow> paused_in_join i p \<Longrightarrow> paused_in_join i p'"
proof (cases e)
  case (Worker j ret)
  assume "sigwait_ok e" "pool_event dflt e p = Some p'" "paused_in_join i p"
  with Worker show ?thesis
    by (auto simp: RunInThread_step_def split: if_splits intro: paused_worker_at)
next
  case (Add_data x)
  assume "pool_event dflt e p = Some p'" "paused_in_join i p"
  with Add_data show ?thesis
    by (auto simp: paused_in_join_def split: if_splits dest!: AddData_cases)
next
  case Control
  assume *: "pool_event dflt e p = Some p'" "paused_in_join i p"
  then obtain j js where c: "tp_control p = Joining (j # js)"
    unfolding paused_in_join_def by (metis list.set_cases)
  with * Control show ?thesis
    by (auto simp: paused_in_join_def control_step_def split: if_splits)
qed (auto simp: paused_in_join_def SetProcessFun_def split: if_splits)

subsection \<open>Properties\<close>

lemma in_order_ctor: "in_order (ThreadPool_ctor n)"
  by (simp add: in_order_def ThreadPool_ctor_def Start_def)

lemma accounted_ctor: "accounted (ThreadPool_ctor n)"
  by (simp add: accounted_def ThreadPool_ctor_def hands_Start) (simp add: Start_def)

lemma thread_pool_fifo_taken:
  assumes "pool_run dflt es (ThreadPool_ctor n) = Some p"
  shows "tp_added p = tp_taken p @ m_queue (tp_queue p)"
proof -
  have "in_order p" 
    by (rule pool_run_induct [where P = in_order, OF assms in_order_ctor]) (rule event_in_order)
  then show ?thesis by (simp add: in_order_def)
qed

text \<open>
  C19: whatever the workers, the controlling thread and the callers of \<open>AddData\<close> do, the parameters
  added, in order, are the parameters taken by the workers, in order, followed by those in the queue.
\<close>

theorem thread_pool_in_order:
  assumes "pool_run dflt es (ThreadPool_ctor n) = Some p"
  shows "tp_added p = tp_taken p @ m_queue (tp_queue p)"
  using assms by (rule thread_pool_fifo_taken)

text \<open>
  C20: every parameter is processed exactly once. As long as the pool runs and was not asked to stop,
  the parameters added are, as a multiset, those processed, those in the hands of one worker each,
  and those in the queue.
\<close>

theorem thread_pool_exactly_once:
  assumes "pool_run dflt es (ThreadPool_ctor n) = Some p"
    and "tp_running p" and "\<not> m_needStop (tp_queue p)"
  shows "mset (tp_added p) = mset (tp_processed p) + hands p + mset (m_queue (tp_queue p))"
proof -
  have "accounted p"
    by (rule pool_run_induct [where P = accounted, OF assms(1) accounted_ctor]) (rule event_accounted)
  with assms(2,3) have "mset (tp_taken p) = mset (tp_processed p) + hands p"
    by (simp add: accounted_def)
  then show ?thesis using thread_pool_fifo_taken [OF assms(1)] by simp
qed

text \<open>
  C21: \<open>Stop\<close> returns when no worker is paused. Once the queue is stopped and \<open>m_running\<close> cleared,
  with no pause flag up and no worker in \<open>sigwait\<close>, any run of the workers and the joining thread
  has at most \<open>stop_measure\<close> steps, and when none of them can move \<open>Stop\<close> has returned and every
  worker has left \<open>RunInThread\<close>.
\<close>

theorem thread_pool_stop_terminates:
  assumes "stopping p" and "pool_run dflt es p = Some p'" and "\<forall>e \<in> set es. thread_event e"
  shows "length es \<le> stop_measure p \<and>
    ((\<forall>e. thread_event e \<longrightarrow> pool_event dflt e p' = None) \<longrightarrow>
      tp_control p' = Ctl_idle \<and> (\<forall>w \<in> set (tp_workers p'). w = Exited))"
proof -
  have "stopping p' \<and> length es + stop_measure p' \<le> stop_measure p"
    using assms
  proof (induction es arbitrary: p)
    case (Cons e es)
    then obtain p1 where p1: "pool_event dflt e p = Some p1" "pool_run dflt es p1 = Some p'"
      by (auto split: option.splits)
    with Cons.prems stopping_event [of e dflt p p1]
    have "stopping p1" "stop_measure p1 < stop_measure p" by auto
    with Cons.IH [OF this(1) p1(2)] Cons.prems(3) show ?case by auto
  qed simp
  with stopping_quiet [of p' dflt] show ?thesis by auto
qed

text \<open>\<open>Stop\<close> (and with it the destructor) never returns when a worker is paused in \<open>sigwait\<close>:
  \<open>StopThreadGroup\<close> sends no signal, so whatever happens next the worker stays in \<open>sigwait\<close> and the
  join waits for it.
\<close>

theorem thread_pool_stop_paused_deadlock:
  assumes "paused_in_join i p" and "pool_run dflt es p = Some p'" and "\<forall>e \<in> set es. sigwait_ok e"
  shows "tp_workers p' ! i = Sig_wait \<and> tp_control p' \<noteq> Ctl_idle"
proof -
  have "paused_in_join i p'"
  proof (rule pool_run_induct [where P = "paused_in_join i", OF assms(2,1)])
    fix e q q'
    assume "e \<in> set es" "pool_event dflt e q = Some q'" "paused_in_join i q"
    with assms(3) show "paused_in_join i q'" using paused_event [of e dflt q q' i] by simp
  qed
  then show ?thesis by (auto simp: paused_in_join_def)
qed

lemmas pool_eval = pool_defs ThreadPool_ctor_def pool_threads_def Start_def section_simps
  SyncQueue_init_def MaxTaskCount_def

text \<open>Stopping the queue before clearing \<open>m_running\<close> lets a worker process a parameter nobody
  added. A run of a pool with one worker in which \<open>AddData\<close> is never called, and the worker calls
  \<open>_pfun\<close> on the value \<open>T task_param;\<close> started with.
\<close>

theorem thread_pool_stop_processes_default:
  "ends_in (pool_run dflt
      [Set_process_fun, Worker 0 0, Worker 0 0, Stop_call, Worker 0 0, Worker 0 0, Worker 0 0,
       Worker 0 0] (ThreadPool_ctor 1))
    (\<lambda>p. tp_added p = [] \<and> tp_processed p = [dflt])"
  by (simp add: pool_eval)

text \<open>Two races of \<open>Continues\<close>, which signals a worker before it lowers the worker's flag. The
  worker can use up the signal, process a parameter, see the flag still up and wait again, so that
  after \<open>Continues\<close> has returned it sits in \<open>sigwait\<close> with its flag down and no signal on its way.
  And a worker that has not yet blocked the signal when it arrives takes the process down.
\<close>

theorem thread_pool_continues_races:
  "ends_in (pool_run dflt
      [Set_process_fun, Worker 0 0, Pause_call, Control, Control, Worker 0 0, Worker 0 0,
       Continues_call, Control, Worker 0 0, Add_data x, Worker 0 0, Worker 0 0, Worker 0 0,
       Worker 0 0, Worker 0 0, Control, Control] (ThreadPool_ctor 1))
    (\<lambda>p. tp_control p = Ctl_idle \<and> waitsig_group p = [False] \<and> tp_workers p = [Sig_wait] \<and>
      tp_pending p = [False]) \<and>
   ends_in (pool_run dflt [Continues_call, Control] (ThreadPool_ctor 1)) tp_dead"
  by (simp add: pool_eval)

subsection \<open>Witnesses\<close>

definition pool_demo :: "nat pool_ev list" where
  "pool_demo = [Set_process_fun, Worker 0 0, Worker 0 0, Add_data 5, Add_data 6, Worker 0 0,
     Worker 0 0, Worker 0 0, Worker 0 0]"

lemma pool_demo_run:
  "ends_in (pool_run 0 pool_demo (ThreadPool_ctor 1)) (\<lambda>p. tp_running p \<and>
    \<not> m_needStop (tp_queue p) \<and> tp_added p = [5, 6] \<and> tp_taken p = [5] \<and>
    m_queue (tp_queue p) = [6] \<and> tp_processed p = [5])"
  by (simp add: pool_demo_def pool_eval)

theorem thread_pool_in_order_witness:
  "ends_in (pool_run 0 pool_demo (ThreadPool_ctor 1)) (\<lambda>p.
    tp_added p = tp_taken p @ m_queue (tp_queue p) \<and> tp_added p = [5, 6])"
  using pool_demo_run thread_pool_in_order by (fastforce simp: ends_in_iff)

theorem thread_pool_exactly_once_witness:
  "ends_in (pool_run 0 pool_demo (ThreadPool_ctor 1)) (\<lambda>p. tp_processed p = [5] \<and>
    mset (tp_added p) = mset (tp_processed p) + hands p + mset (m_queue (tp_queue p)))"
  using pool_demo_run thread_pool_exactly_once by (fastforce simp: ends_in_iff)

definition stop_demo :: "nat task_pool option" where
  "stop_demo = pool_run 0 [Set_process_fun, Worker 0 0, Stop_call, Control] (ThreadPool_ctor 1)"

theorem thread_pool_stop_terminates_witness:
  "ends_in stop_demo (\<lambda>p. ends_in (pool_run 0 [Worker 0 0, Control, Control] p) (\<lambda>p'.
    3 \<le> stop_measure p \<and> tp_control p' = Ctl_idle \<and> (\<forall>w \<in> set (tp_workers p'). w = Exited)))"
proof -
  have "ends_in stop_demo (\<lambda>p. stopping p \<and>
      ends_in (pool_run 0 [Worker 0 0, Control, Control] p) (\<lambda>p'.
        tp_workers p' = [Exited] \<and> tp_control p' = Ctl_idle))"
    by (simp add: stop_demo_def pool_eval stopping_def)
  then obtain p p' where p: "stop_demo = Some p" "stopping p"
    "pool_run 0 [Worker 0 0, Control, Control] p = Some p'"
    "tp_workers p' = [Exited]" "tp_control p' = Ctl_idle"
    unfolding ends_in_iff by blast
  have "pool_event 0 e p' = None" if "thread_event e" for e
    using that p(4,5) by (cases e) (auto simp: RunInThread_step_def control_step_def)
  then show ?thesis using thread_pool_stop_terminates [OF p(2,3)] p(5)
    by (simp add: p(1,3) del: pool_run.simps)
qed

definition pause_demo :: "nat task_pool option" where
  "pause_demo = pool_run 0 [Set_process_fun, Worker 0 0, Pause_call, Control, Control, Worker 0 0,
      Worker 0 0, Stop_call, Control] (ThreadPool_ctor 1)"

theorem thread_pool_stop_paused_deadlock_witness:
  "ends_in pause_demo (\<lambda>p. ends_in (pool_run 0 [Add_data 3] p) (\<lambda>p'.
    tp_workers p' ! 0 = Sig_wait \<and> tp_control p' \<noteq> Ctl_idle))"
proof -
  have "ends_in pause_demo (\<lambda>p. paused_in_join 0 p \<and>
      ends_in (pool_run 0 [Add_data 3] p) (\<lambda>p'. True))"
    by (simp add: pause_demo_def pool_eval paused_in_join_def)
  then obtain p p' where p: "pause_demo = Some p" "paused_in_join 0 p"
    "pool_run 0 [Add_data 3] p = Some p'"
    unfolding ends_in_iff by blast
  from thread_pool_stop_paused_deadlock [OF p(2,3)] show ?thesis
    by (simp add: p(1,3) del: pool_run.simps)
qed

end
