(* ===== verification/Timed_Wait.thy ===== *)
theory Timed_Wait
  imports Wakeups
begin

section \<open>Timed waits\<close>

text \<open>
  \<open>pthread_cond_timedwait\<close> ends like an untimed wait (a notification, or spuriously), and also
  when its deadline has passed. In the last case it still gives the mutex back to the caller, who
  then runs other code: the operation is replaced by another one, which \<open>late\<close> names. \<open>late op\<close>
  is \<open>None\<close> for an operation that waits with no deadline. The clock is not modelled: a deadline
  may pass at any moment of the wait, so a theorem over all runs holds for every clock. POSIX
  allows a timeout that coincides with a signal to use the signal up. So every step that ends the
  wait of a timed operation, a notification of another thread included, may end it with a timeout.
\<close>

inductive timed_step ::
  "('op \<Rightarrow> 'op option) \<Rightarrow> ('op \<Rightarrow> 's \<Rightarrow> ('s, 'c, 'r) outcome) \<Rightarrow> ('op \<Rightarrow> bool) \<Rightarrow>
   ('s, 'c, 'op, 'r) monitor \<Rightarrow> ('s, 'c, 'op, 'r) monitor \<Rightarrow> bool"
  for late sec allowed where
  untimed: "mon_step sec allowed m m' \<Longrightarrow> timed_step late sec allowed m m'"
| expire: "mon_step sec allowed m m' \<Longrightarrow> i < length (threads m) \<Longrightarrow>
    blocked_on c (threads m ! i) \<Longrightarrow> threads m' ! i = Ready op \<Longrightarrow> late op = Some op' \<Longrightarrow>
    timed_step late sec allowed m (m'\<lparr>threads := (threads m')[i := Ready op']\<rparr>)"

inductive timed_reach ::
  "('op \<Rightarrow> 'op option) \<Rightarrow> ('op \<Rightarrow> 's \<Rightarrow> ('s, 'c, 'r) outcome) \<Rightarrow> ('op \<Rightarrow> bool) \<Rightarrow>
   ('s, 'c, 'op, 'r) monitor \<Rightarrow> ('s, 'c, 'op, 'r) monitor \<Rightarrow> bool"
  for late sec allowed m0 where
  timed_here: "timed_reach late sec allowed m0 m0"
| timed_onward: "timed_reach late sec allowed m0 m \<Longrightarrow> timed_step late sec allowed m m' \<Longrightarrow>
    timed_reach late sec allowed m0 m'"

inductive_cases timed_stepE: "timed_step late sec allowed m m'"

lemma mon_step_mono:
  "mon_step sec P m m' \<Longrightarrow> (\<And>op. P op \<Longrightarrow> Q op) \<Longrightarrow> mon_step sec Q m m'"
  by (induction rule: mon_step.induct) (auto intro: mon_step.intros)

lemma mon_reach_timed: "mon_reach sec P m0 m \<Longrightarrow> timed_reach late sec P m0 m"
  by (induction rule: mon_reach.induct) (auto intro: timed_reach.intros timed_step.intros)

subsection \<open>The operations a timed system runs\<close>

text \<open>
  The threads call the \<open>allowed\<close> operations and can end up \<open>inside\<close> those and the ones a passed
  deadline leads to. What a monitor promises for the operations inside holds for its timed runs.
\<close>

locale timed_ops =
  fixes allowed inside :: "'op \<Rightarrow> bool"
    and late :: "'op \<Rightarrow> 'op option"
  assumes allowed_inside: "allowed op \<Longrightarrow> inside op"
    and late_inside: "inside op \<Longrightarrow> late op = Some op' \<Longrightarrow> inside op'"
begin

lemma timed_step_cases:
  assumes "timed_step late sec allowed m m'"
  obtains (monitor) "mon_step sec inside m m'"
  | (expired) m1 i op op' where "mon_step sec inside m m1" "i < length (threads m1)"
      "threads m1 ! i = Ready op" "late op = Some op'"
      "m' = m1\<lparr>threads := (threads m1)[i := Ready op']\<rparr>"
  using assms
proof (cases rule: timed_step.cases)
  case untimed
  then show thesis by (blast intro: monitor mon_step_mono allowed_inside)
next
  case (expire m1 i c op op')
  then have "mon_step sec inside m m1" by (blast intro: mon_step_mono allowed_inside)
  with expire step_length [OF this] show thesis by (intro expired) auto
qed

lemma timed_step_ops:
  assumes "timed_step late sec allowed m m'" and "ops_satisfy inside (threads m)"
  shows "ops_satisfy inside (threads m')"
  using assms(1)
proof (cases rule: timed_step_cases)
  case monitor
  then show ?thesis using assms(2) by (rule step_ops_satisfy)
next
  case (expired m1 i op op')
  have ops: "ops_satisfy inside (threads m1)" using expired(1) assms(2) by (rule step_ops_satisfy)
  then have "inside op'" using expired by (auto dest!: ops_satisfyD intro: late_inside)
  with expired ops show ?thesis by (auto intro: ops_satisfy_update)
qed

lemma timed_step_history:
  assumes "timed_step late sec allowed m m'" and "ops_satisfy inside (threads m)"
    and "\<forall>(i, op, r) \<in> set (history m). i < length (threads m) \<and> inside op"
  shows "length (threads m') = length (threads m) \<and>
    (\<forall>(i, op, r) \<in> set (history m'). i < length (threads m) \<and> inside op)"
  using assms(1)
proof (cases rule: timed_step_cases)
  case monitor
  from step_length [OF this] step_history [OF this assms(2,3)] show ?thesis by blast
next
  case (expired m1 i op op')
  from step_length [OF expired(1)] step_history [OF expired(1) assms(2,3)] expired(5)
  show ?thesis by simp
qed

lemma timed_reach_history:
  "timed_reach late sec allowed (start s n) m \<Longrightarrow> length (threads m) = n \<and>
    ops_satisfy inside (threads m) \<and> (\<forall>(i, op, r) \<in> set (history m). i < n \<and> inside op)"
proof (induction rule: timed_reach.induct)
  case (timed_onward m m')
  with timed_step_history [OF timed_onward.hyps(2)] timed_step_ops [OF timed_onward.hyps(2)]
  show ?case by auto
qed simp

end

subsection \<open>Invariants and linearizability\<close>

text \<open>An expired wait changes neither the shared state nor the log, so it is invisible.\<close>

locale timed_refines = timed_ops allowed inside late + monitor_refines sec inside inv abs spec
  for allowed inside :: "'op \<Rightarrow> bool" and late
    and sec :: "'op \<Rightarrow> 's \<Rightarrow> ('s, 'c, 'r) outcome" and inv and abs :: "'s \<Rightarrow> 'a" and spec
begin

abbreviation linear_from :: "'a \<Rightarrow> ('s, 'c, 'op, 'r) monitor \<Rightarrow> bool" where
  "linear_from a m \<equiv> inv (shared m) \<and> ops_satisfy inside (threads m) \<and>
    run_spec spec a (history m) = Some (abs (shared m))"

lemma timed_step_linear:
  assumes "timed_step late sec allowed m m'" and "linear_from a m"
  shows "linear_from a m'"
  using assms(1)
proof (cases rule: timed_step_cases)
  case monitor
  with assms(2) show ?thesis by (blast intro: step_inv step_ops_satisfy step_linear)
next
  case (expired m1 i op op')
  with timed_step_ops [OF assms(1)] assms(2) step_inv [OF expired(1)] step_linear [OF expired(1)]
  show ?thesis by simp
qed

lemma timed_reach_linear:
  "timed_reach late sec allowed m0 m \<Longrightarrow> linear_from a m0 \<Longrightarrow> linear_from a m"
proof (induction rule: timed_reach.induct)
  case (timed_onward m m')
  from timed_step_linear [OF timed_onward.hyps(2) timed_onward.IH [OF timed_onward.prems]]
  show ?case .
qed

lemma timed_linearizable:
  assumes "timed_reach late sec allowed (start s n) m" and "inv s"
  shows "run_spec spec (abs s) (history m) = Some (abs (shared m))"
  using timed_reach_linear [OF assms(1), of "abs s"] assms(2) by simp

end

subsection \<open>Wake-ups that a timeout takes away\<close>

text \<open>
  A wait that ends with a timeout may have used up a signal meant for an element, so the wake-up
  discipline alone does not keep a timed system from losing wake-ups. What it keeps is a balance:
  every expired wait takes at most one wake-up with it. \<open>L\<close> are the operations a passed deadline
  leads to; \<open>expired\<close> counts the waits that have ended so, in the log and about to run. The proof
  adds one idle consumer to the system for every wait that expired.
\<close>

definition expired :: "('op \<Rightarrow> bool) \<Rightarrow> ('s, 'c, 'op, 'r) monitor \<Rightarrow> nat" where
  "expired L m = count_where (\<lambda>(i, op, r). L op) (history m) +
     count_where (\<lambda>t. case t of Ready op \<Rightarrow> L op | _ \<Rightarrow> False) (threads m)"

definition padded :: "'op \<Rightarrow> nat \<Rightarrow> ('s, 'c, 'op, 'r) monitor \<Rightarrow> ('s, 'c, 'op, 'r) monitor" where
  "padded k e m = m\<lparr>threads := threads m @ replicate e (Ready k)\<rparr>"

lemma padded_simps [simp]:
  "shared (padded k e m) = shared m"
  "threads (padded k e m) = threads m @ replicate e (Ready k)"
  by (simp_all add: padded_def)

lemma waiters_padded [simp]: "waiters c (ts @ replicate e (Ready k)) = waiters c ts"
proof -
  have "filter (\<lambda>i. blocked_on c ((ts @ replicate e (Ready k)) ! i)) [0..<length ts] = waiters c ts"
    unfolding waiters_def by (rule filter_cong) (auto simp: nth_append)
  moreover have "filter (\<lambda>i. blocked_on c ((ts @ replicate e (Ready k)) ! i))
      [length ts..<length ts + e] = []"
    by (auto simp: filter_empty_conv nth_append)
  ultimately show ?thesis
    by (simp add: waiters_def upt_add_eq_append [of 0 "length ts" e])
qed

lemma notify_padded:
  "ts' \<in> set (notify n ts) \<Longrightarrow>
    ts' @ replicate e (Ready k) \<in> set (notify n (ts @ replicate e (Ready k)))"
  by (cases n) (auto simp: waiters_set nth_append list_update_append1 image_iff split: if_splits)

lemma notifies_padded:
  "ts' \<in> set (notifies ns ts) \<Longrightarrow>
    ts' @ replicate e (Ready k) \<in> set (notifies ns (ts @ replicate e (Ready k)))"
  by (induction ns arbitrary: ts) (auto dest: notify_padded)

lemma mon_step_padded:
  assumes "mon_step sec P m m'"
  shows "mon_step sec P (padded k e m) (padded k e m')"
proof -
  note append = nth_append list_update_append1
  from assms show ?thesis
  proof (cases rule: mon_step.cases)
    case (call i op)
    then show ?thesis using mon_step.call [of i "padded k e m" P op sec]
      by (simp add: padded_def append)
  next
    case (block i op s' c)
    then show ?thesis using mon_step.block [of i "padded k e m" op sec s' c P]
      by (simp add: padded_def append)
  next
    case (complete i op s' r ns ps ts')
    then show ?thesis using mon_step.complete [of i "padded k e m" op sec s' r ns ps
          "ts' @ replicate e (Ready k)" P] notifies_padded [OF complete(5), of e k]
      by (cases m) (simp add: padded_def append)
  next
    case (post i p ps ts')
    then show ?thesis using mon_step.post [of i "padded k e m" p ps
          "ts' @ replicate e (Ready k)" sec P] notify_padded [OF post(4), of e k]
      by (simp add: padded_def append)
  next
    case (leave i)
    then show ?thesis using mon_step.leave [of i "padded k e m" sec P]
      by (simp add: padded_def append)
  next
    case (spurious i c op)
    then show ?thesis using mon_step.spurious [of i "padded k e m" c op sec P]
      by (simp add: padded_def append)
  qed
qed

lemma credit_append [simp]: "credit c K (ts @ us) = credit c K ts + credit c K us"
  by (simp add: credit_def)

lemma credit_consumers [simp]:
  "credit c K (replicate e (Ready k)) = (if K k then e else 0)"
  by (simp add: credit_def map_replicate_const sum_list_replicate)

lemma blocked_consumers [simp]:
  "count_where (blocked_on c) (replicate e (Ready k)) = 0"
  by (simp add: count_where_eq_0)

lemma covered_more:
  "covered c K r (ts @ replicate e (Ready k)) \<Longrightarrow> K k \<Longrightarrow> e \<le> e' \<Longrightarrow>
    covered c K r (ts @ replicate e' (Ready k))"
  by (auto simp: covered_def)

lemma ready_count_woken:
  "woken_from ts ts' \<Longrightarrow>
    count_where (\<lambda>t. case t of Ready op \<Rightarrow> L op | _ \<Rightarrow> False) ts \<le>
    count_where (\<lambda>t. case t of Ready op \<Rightarrow> L op | _ \<Rightarrow> False) ts'"
  by (rule count_where_mono_nth) (auto simp: woken_from_def split: tstate.splits)

locale timed_wakeups = timed_ops allowed inside late + wakeup_discipline sec inside inv c K R stopped
  for allowed inside :: "'op \<Rightarrow> bool" and late and sec :: "'op \<Rightarrow> 's \<Rightarrow> ('s, 'c, 'r) outcome"
    and inv and c :: 'c and K and R and stopped +
  fixes L :: "'op \<Rightarrow> bool" and k :: 'op
  assumes late_L: "late op = Some op' \<Longrightarrow> L op' \<and> \<not> L op"
    and L_returns: "L op \<Longrightarrow> sec op s \<noteq> Wait s' d"
    and consumer: "K k \<and> inside k"
begin

abbreviation balanced :: "('s, 'c, 'op, 'r) monitor \<Rightarrow> bool" where
  "balanced m \<equiv> inv (shared m) \<and> ops_satisfy inside (threads m) \<and>
     waits_satisfy (\<lambda>d op. d = c \<longrightarrow> K op) (threads m) \<and>
     (stopped (shared m) \<or>
      covered c K (R (shared m)) (threads m @ replicate (expired L m) (Ready k)))"

lemma step_expired: "mon_step sec inside m m' \<Longrightarrow> expired L m \<le> expired L m'"
proof (induction rule: mon_step.induct)
  case (call i m op)
  then show ?case
    using count_where_update [of i "threads m"
        "\<lambda>t. case t of Ready op \<Rightarrow> L op | _ \<Rightarrow> False" "Ready op"]
    by (simp add: expired_def split: if_splits)
next
  case (block i m op s' d)
  then show ?case
    using L_returns count_where_update [of i "threads m"
        "\<lambda>t. case t of Ready op \<Rightarrow> L op | _ \<Rightarrow> False" "Blocked d op"]
    by (auto simp: expired_def split: if_splits)
next
  case (complete i m op s' r ns ps ts')
  then show ?case
    using ready_count_woken [OF notifies_woken [OF complete(4)], of L] count_where_update [of i "threads m"
        "\<lambda>t. case t of Ready op \<Rightarrow> L op | _ \<Rightarrow> False" "Post ps"]
    by (auto simp: expired_def split: if_splits)
next
  case (post i m p ps ts')
  then show ?case
    using ready_count_woken [OF notify_woken [OF post(3)], of L] count_where_update [of i "threads m"
        "\<lambda>t. case t of Ready op \<Rightarrow> L op | _ \<Rightarrow> False" "Post ps"]
    by (simp add: expired_def)
next
  case (leave i m)
  then show ?case
    using count_where_update [of i "threads m"
        "\<lambda>t. case t of Ready op \<Rightarrow> L op | _ \<Rightarrow> False" Idle]
    by (simp add: expired_def)
next
  case (spurious i m d op)
  then show ?case
    using count_where_update [of i "threads m"
        "\<lambda>t. case t of Ready op \<Rightarrow> L op | _ \<Rightarrow> False" "Ready op"]
    by (simp add: expired_def split: if_splits)
qed

lemma mon_step_balanced:
  assumes "mon_step sec inside m m'" and "balanced m"
  shows "balanced m'"
proof -
  let ?e = "expired L m"
  have ops: "ops_satisfy inside (threads m @ replicate ?e (Ready k))"
    "waits_satisfy (\<lambda>d op. d = c \<longrightarrow> K op) (threads m @ replicate ?e (Ready k))"
    using assms(2) consumer by (auto simp: ops_satisfy_def waits_satisfy_def)
  have "no_lost_wakeup (padded k ?e m')"
    using step_no_lost_wakeup [OF mon_step_padded [OF assms(1), of k ?e]] assms(2) ops by simp
  then have "stopped (shared m') \<or>
      covered c K (R (shared m')) (threads m' @ replicate (expired L m') (Ready k))"
    using step_expired [OF assms(1)] consumer by (auto intro: covered_more)
  moreover have "waits_satisfy (\<lambda>d op. d = c \<longrightarrow> K op) (threads m')"
    by (rule step_waits_satisfy [OF _ assms(1)]) (use wait_here assms(2) in auto)
  moreover have "inv (shared m')" "ops_satisfy inside (threads m')"
    using assms by (auto intro: step_inv step_ops_satisfy)
  ultimately show ?thesis by blast
qed

lemma timed_step_balanced:
  assumes "timed_step late sec allowed m m'" and "balanced m"
  shows "balanced m'"
  using assms(1)
proof (cases rule: timed_step_cases)
  case monitor
  then show ?thesis using assms(2) by (rule mon_step_balanced)
next
  case (expired m1 i op op')
  have b: "balanced m1" using expired(1) assms(2) by (rule mon_step_balanced)
  have L: "L op'" "\<not> L op" using late_L [OF expired(4)] by auto
  have e: "expired L (m1\<lparr>threads := (threads m1)[i := Ready op']\<rparr>) = Suc (expired L m1)"
    using L expired count_where_update [of i "threads m1"
        "\<lambda>t. case t of Ready op \<Rightarrow> L op | _ \<Rightarrow> False" "Ready op'"]
    by (simp add: expired_def)
  have "covered c K r (threads m' @ replicate (expired L m') (Ready k))"
    if "covered c K r (threads m1 @ replicate (expired L m1) (Ready k))" for r
    using that consumer expired(3) credit_update [OF expired(2), of c K "Ready op'"]
      blocked_count_update [OF expired(2), of c "Ready op'"]
    unfolding expired(5) e covered_def by (auto simp del: replicate_Suc split: if_splits)
  moreover have "waits_satisfy (\<lambda>d op. d = c \<longrightarrow> K op) (threads m')"
    using b expired(5) by (auto intro: waits_satisfy_update)
  ultimately show ?thesis
    using b timed_step_ops [OF assms(1)] assms(2) expired(5) by auto
qed

lemma timed_reach_balanced:
  "timed_reach late sec allowed m0 m \<Longrightarrow> balanced m0 \<Longrightarrow> balanced m"
proof (induction rule: timed_reach.induct)
  case (timed_onward m m')
  from timed_step_balanced [OF timed_onward.hyps(2) timed_onward.IH [OF timed_onward.prems]]
  show ?case .
qed

lemma timed_waiting_has_helper:
  assumes "timed_reach late sec allowed (start s n) m" and "inv s"
    and "\<not> stopped (shared m)" and "expired L m < R (shared m)"
    and "blocked_on c (threads m ! i)" and "i < length (threads m)"
  shows "\<exists>j < length (threads m).
    (\<exists>op. threads m ! j = Ready op \<and> K op) \<or> (\<exists>ns. threads m ! j = Post ns \<and> One c \<in> set ns)"
proof -
  have "balanced m"
    by (rule timed_reach_balanced [OF assms(1)])
      (simp add: assms(2) covered_def count_where_eq_0)
  then have "covered c K (R (shared m) - expired L m) (threads m)"
    using assms(3) consumer by (auto simp: covered_def)
  then show ?thesis using assms(4-6) by (auto intro: covered_has_helper)
qed

end

subsection \<open>Running a timed schedule\<close>

datatype 'op timed_move = Move "'op move" | Expire nat "'op move"

fun do_timed ::
  "('op \<Rightarrow> 'op option) \<Rightarrow> ('op \<Rightarrow> 's \<Rightarrow> ('s, 'c, 'r) outcome) \<Rightarrow> ('op \<Rightarrow> bool) \<Rightarrow>
   'op timed_move \<Rightarrow> ('s, 'c, 'op, 'r) monitor \<Rightarrow> ('s, 'c, 'op, 'r) monitor option" where
  "do_timed late sec P (Move mv) m = do_move sec P mv m"
| "do_timed late sec P (Expire i mv) m =
     (case do_move sec P mv m of
        None \<Rightarrow> None
      | Some m' \<Rightarrow>
          if i < length (threads m) then
            (case (threads m ! i, threads m' ! i) of
               (Blocked c op0, Ready op) \<Rightarrow>
                 map_option (\<lambda>op'. m'\<lparr>threads := (threads m')[i := Ready op']\<rparr>) (late op)
             | _ \<Rightarrow> None)
          else None)"

fun run_timed ::
  "('op \<Rightarrow> 'op option) \<Rightarrow> ('op \<Rightarrow> 's \<Rightarrow> ('s, 'c, 'r) outcome) \<Rightarrow> ('op \<Rightarrow> bool) \<Rightarrow>
   'op timed_move list \<Rightarrow> ('s, 'c, 'op, 'r) monitor \<Rightarrow> ('s, 'c, 'op, 'r) monitor option" where
  "run_timed late sec P [] m = Some m"
| "run_timed late sec P (mv # mvs) m =
     (case do_timed late sec P mv m of None \<Rightarrow> None | Some m' \<Rightarrow> run_timed late sec P mvs m')"

lemma do_timed_step: "do_timed late sec P mv m = Some m' \<Longrightarrow> timed_step late sec P m m'"
proof (cases mv)
  case (Expire i mv')
  then show "do_timed late sec P mv m = Some m' \<Longrightarrow> timed_step late sec P m m'"
    by (auto split: if_splits tstate.splits option.splits intro!: expire do_move_step)
qed (auto intro: timed_step.intros do_move_step)

lemma run_timed_from:
  "run_timed late sec P mvs m = Some m' \<Longrightarrow> timed_reach late sec P m0 m \<Longrightarrow>
    timed_reach late sec P m0 m'"
proof (induction mvs arbitrary: m)
  case (Cons mv mvs)
  then obtain m1 where "do_timed late sec P mv m = Some m1" "run_timed late sec P mvs m1 = Some m'"
    by (auto split: option.splits)
  with Cons show ?case by (blast intro: timed_onward do_timed_step)
qed simp

lemma run_timed_reach: "run_timed late sec P mvs m = Some m' \<Longrightarrow> timed_reach late sec P m m'"
  by (erule run_timed_from) (rule timed_here)

end
