(* ===== verification/Condition_Queue.thy ===== *)
theory Condition_Queue
  imports Timed_Wait "HOL-Library.Word"
begin

section \<open>The condition queue (include/conditionqueue.h)\<close>

text \<open>
  \<open>ConditionQueue<T>\<close> is an unbounded queue of pointers with two counters: \<open>m_used\<close>, the elements
  popped and not yet given back by \<open>decrease\<close>, and \<open>wait_thread_num\<close>, meant to be the number of
  waiting threads. Both are \<open>unsigned int\<close> and wrap around, so they are 32-bit words here. A null
  pointer is \<open>None\<close>. \<open>push\<close> signals \<open>m_cond\<close> after it has unlocked the mutex; \<open>CleanQueue\<close> with a
  handler broadcasts before it locks it, which the model has as an operation of its own
  (\<open>Broadcast\<close>, called before \<open>Clean\<close>). \<open>wait_timeout_pop\<close> waits with a deadline: its section is
  \<open>Timed_pop\<close>, and once its wait has ended with a timeout the thread runs \<open>Timed_out\<close> instead,
  the early return inside the loop. The timeout may use up a signal of \<open>push\<close> (\<open>Timed_Wait\<close>).
\<close>

record 'a condition_queue =
  m_dataqueue :: "'a option list"
  m_used :: "32 word"
  wait_thread_num :: "32 word"

datatype cq_cond = M_cond

datatype 'a cq_op =
    Push "'a option" | Try_pop | Wait_pop | Queue_size | Decrease | Increase | Clean | Broadcast
  | Queue_empty | Timed_pop | Timed_out

datatype 'a cq_ret =
    Pushed | Popped "'a option" | Nothing | Num "32 word" | Cleaned "'a option list" "'a list"
  | Flag bool | Sent

type_synonym 'a cq_outcome = "('a condition_queue, cq_cond, 'a cq_ret) outcome"

definition ConditionQueue_init :: "'a condition_queue" where
  "ConditionQueue_init = \<lparr>m_dataqueue = [], m_used = 0, wait_thread_num = 0\<rparr>"

definition wait_size :: "'a condition_queue \<Rightarrow> 32 word" where
  "wait_size q = wait_thread_num q"

text \<open>\<open>m_used + m_dataqueue.size()\<close>, a \<open>size_t\<close> sum narrowed to \<open>unsigned int\<close>.\<close>

definition size_value :: "'a condition_queue \<Rightarrow> 32 word" where
  "size_value q = of_nat (unat (m_used q) + length (m_dataqueue q))"

definition size_section :: "'a condition_queue \<Rightarrow> 'a cq_outcome" where
  "size_section q = Return q (Num (size_value q)) [] []"

definition decrease_section :: "'a condition_queue \<Rightarrow> 'a cq_outcome" where
  "decrease_section q =
     (let q' = (if 0 < m_used q then q\<lparr>m_used := m_used q - 1\<rparr> else q)
      in Return q' (Num (m_used q')) [] [])"

definition increase_section :: "'a condition_queue \<Rightarrow> 'a cq_outcome" where
  "increase_section q =
     (let q' = q\<lparr>m_used := m_used q + 1\<rparr> in Return q' (Num (m_used q')) [] [])"

text \<open>
  The loop of \<open>CleanQueue\<close>: pops until the queue is empty; the pointers it deletes (or gives to the
  handler) are the ones that are not null.
\<close>

fun clean_loop :: "'a option list \<Rightarrow> 'a list" where
  "clean_loop [] = []"
| "clean_loop (ptr # rest) =
     (case ptr of Some x \<Rightarrow> x # clean_loop rest | None \<Rightarrow> clean_loop rest)"

definition CleanQueue_section :: "'a condition_queue \<Rightarrow> 'a cq_outcome" where
  "CleanQueue_section q =
     Return (q\<lparr>m_dataqueue := [], m_used := 0\<rparr>)
       (Cleaned (m_dataqueue q) (clean_loop (m_dataqueue q))) [] []"

text \<open>The destructor cleans the queue and destroys the mutex and the condition; it gives what it deletes.\<close>

definition ConditionQueue_dtor :: "'a condition_queue \<Rightarrow> 'a list" where
  "ConditionQueue_dtor q =
     (case CleanQueue_section q of Return q' (Cleaned popped deleted) ns ps \<Rightarrow> deleted | _ \<Rightarrow> [])"

definition broadcast_section :: "'a condition_queue \<Rightarrow> 'a cq_outcome" where
  "broadcast_section q = Return q Sent [All M_cond] []"

definition empty_section :: "'a condition_queue \<Rightarrow> 'a cq_outcome" where
  "empty_section q = Return q (Flag (m_dataqueue q = [])) [] []"

definition push_section :: "'a option \<Rightarrow> 'a condition_queue \<Rightarrow> 'a cq_outcome" where
  "push_section data q =
     Return (q\<lparr>m_dataqueue := m_dataqueue q @ [data]\<rparr>) Pushed [] [One M_cond]"

definition try_pop_section :: "'a condition_queue \<Rightarrow> 'a cq_outcome" where
  "try_pop_section q =
     (case m_dataqueue q of
        ptr # rest \<Rightarrow>
          Return (q\<lparr>m_dataqueue := rest, m_used := m_used q + 1\<rparr>) (Popped ptr) [] []
      | [] \<Rightarrow> Return q Nothing [] [])"

definition wait_pop_section :: "'a condition_queue \<Rightarrow> 'a cq_outcome" where
  "wait_pop_section q =
     (case m_dataqueue q of
        [] \<Rightarrow> Wait (q\<lparr>wait_thread_num := wait_thread_num q + 1\<rparr>) M_cond
      | ptr # rest \<Rightarrow>
          Return (q\<lparr>wait_thread_num := wait_thread_num q - 1, m_dataqueue := rest,
                   m_used := m_used q + 1\<rparr>) (Popped ptr) [] [])"

definition timed_pop_section :: "'a condition_queue \<Rightarrow> 'a cq_outcome" where
  "timed_pop_section q =
     (case m_dataqueue q of
        [] \<Rightarrow> Wait q M_cond
      | ptr # rest \<Rightarrow>
          Return (q\<lparr>m_dataqueue := rest, m_used := m_used q + 1\<rparr>) (Popped ptr) [] [])"

definition timed_out_section :: "'a condition_queue \<Rightarrow> 'a cq_outcome" where
  "timed_out_section q = Return q Nothing [] []"

fun cq_late :: "'a cq_op \<Rightarrow> 'a cq_op option" where
  "cq_late Timed_pop = Some Timed_out"
| "cq_late _ = None"

fun cq_section :: "'a cq_op \<Rightarrow> 'a condition_queue \<Rightarrow> 'a cq_outcome" where
  "cq_section (Push data) q = push_section data q"
| "cq_section Try_pop q = try_pop_section q"
| "cq_section Wait_pop q = wait_pop_section q"
| "cq_section Queue_size q = size_section q"
| "cq_section Decrease q = decrease_section q"
| "cq_section Increase q = increase_section q"
| "cq_section Clean q = CleanQueue_section q"
| "cq_section Broadcast q = broadcast_section q"
| "cq_section Queue_empty q = empty_section q"
| "cq_section Timed_pop q = timed_pop_section q"
| "cq_section Timed_out q = timed_out_section q"

text \<open>
  One whole call of \<open>wait_timeout_pop\<close>, as its caller sees it: \<open>pthread_cond_timedwait\<close> gives the
  mutex up and can end for reasons outside the object. Its environment is a list with one entry per call of it: the
  return code and the object's state when the mutex is held again. With no entry left the call is
  still waiting, and the result is \<open>None\<close>.
\<close>

fun wait_timeout_pop ::
  "(int \<times> 'a condition_queue) list \<Rightarrow> 'a condition_queue \<Rightarrow>
   ('a condition_queue \<times> 'a option) option" where
  "wait_timeout_pop env q =
     (case m_dataqueue q of
        ptr # rest \<Rightarrow> Some (q\<lparr>m_dataqueue := rest, m_used := m_used q + 1\<rparr>, ptr)
      | [] \<Rightarrow>
          (case env of
             [] \<Rightarrow> None
           | (rc, q') # env' \<Rightarrow>
               if rc \<noteq> 0 then Some (q', None) else wait_timeout_pop env' q'))"

declare wait_timeout_pop.simps [simp del]

text \<open>
  The deadline the code passes to \<open>pthread_cond_timedwait\<close>: the \<open>size_t\<close> argument becomes the signed
  64-bit \<open>tv_sec\<close>, with no clock reading added. The function takes it as a time since the epoch.
\<close>

record timespec =
  tv_sec :: int
  tv_nsec :: int

definition ntimeout :: "64 word \<Rightarrow> timespec" where
  "ntimeout timeout = \<lparr>tv_sec = sint timeout, tv_nsec = 0\<rparr>"

definition deadline_passed :: "timespec \<Rightarrow> timespec \<Rightarrow> bool" where
  "deadline_passed now t \<longleftrightarrow>
     tv_sec t < tv_sec now \<or> tv_sec t = tv_sec now \<and> tv_nsec t \<le> tv_nsec now"

lemma wait_timeout_pop_simps:
  "m_dataqueue q = ptr # rest \<Longrightarrow>
    wait_timeout_pop env q = Some (q\<lparr>m_dataqueue := rest, m_used := m_used q + 1\<rparr>, ptr)"
  "m_dataqueue q = [] \<Longrightarrow> wait_timeout_pop [] q = None"
  "m_dataqueue q = [] \<Longrightarrow> wait_timeout_pop ((rc, q') # env') q =
    (if rc \<noteq> 0 then Some (q', None) else wait_timeout_pop env' q')"
  by (subst wait_timeout_pop.simps; simp)+

lemma unat_minus_one_32: "unat (- 1 :: 32 word) = 4294967295"
  by (simp add: unsigned_minus_1_eq_mask mask_eq_exp_minus_1)

text \<open>Every pointer still queued is deleted, as often as it is queued.\<close>

lemma ConditionQueue_dtor_deletes: "map Some (ConditionQueue_dtor q) = filter (\<lambda>p. p \<noteq> None) (m_dataqueue q)"
proof -
  have "map Some (clean_loop xs) = filter (\<lambda>p. p \<noteq> None) xs" for xs :: "'a option list"
    by (induction xs rule: clean_loop.induct) (auto split: option.split)
  then show ?thesis by (simp add: ConditionQueue_dtor_def CleanQueue_section_def)
qed

lemmas cq_defs = size_section_def decrease_section_def increase_section_def
  CleanQueue_section_def broadcast_section_def empty_section_def push_section_def
  try_pop_section_def wait_pop_section_def timed_pop_section_def timed_out_section_def

type_synonym 'a cq_monitor = "('a condition_queue, cq_cond, 'a cq_op, 'a cq_ret) monitor"

abbreviation cq_reach :: "('a cq_op \<Rightarrow> bool) \<Rightarrow> nat \<Rightarrow> 'a cq_monitor \<Rightarrow> bool" where
  "cq_reach allowed n m \<equiv> timed_reach cq_late cq_section allowed (start ConditionQueue_init n) m"

lemma ConditionQueue_init_simps [simp]:
  "m_dataqueue ConditionQueue_init = []" "m_used ConditionQueue_init = 0"
  "wait_thread_num ConditionQueue_init = 0"
  by (simp_all add: ConditionQueue_init_def)

lemma cq_wait_cases:
  "cq_section op q = Wait q' c \<Longrightarrow> c = M_cond \<and> m_dataqueue q = [] \<and>
    (op = Wait_pop \<and> q' = q\<lparr>wait_thread_num := wait_thread_num q + 1\<rparr> \<or>
     op = Timed_pop \<and> q' = q)"
  by (cases c; cases op) (auto simp: cq_defs Let_def split: list.splits)

text \<open>
  A whole call of \<open>wait_timeout_pop\<close> is what its sections do turn by turn: \<open>Timed_pop\<close> until it
  returns, or \<open>Timed_out\<close> on the state the first failing wait comes back to.
\<close>

lemma wait_timeout_pop_sections:
  "wait_timeout_pop env q =
    (case cq_section Timed_pop q of
       Return q' (Popped p) ns ps \<Rightarrow> Some (q', p)
     | Wait q' c \<Rightarrow>
         (case env of
            [] \<Rightarrow> None
          | (rc, q1) # env' \<Rightarrow>
              if rc = 0 then wait_timeout_pop env' q1
              else (case cq_section Timed_out q1 of Return q2 r ns ps \<Rightarrow> Some (q2, None)
                    | _ \<Rightarrow> None))
     | _ \<Rightarrow> None)"
  by (cases "m_dataqueue q"; cases env)
    (auto simp: wait_timeout_pop_simps timed_pop_section_def timed_out_section_def)

lemma clean_loop_eq: "clean_loop ps = List.map_filter id ps"
  by (induction ps) (auto simp: List.map_filter_simps split: option.splits)

subsection \<open>The sequential specification\<close>

text \<open>
  The abstract state is the queue and the number of elements in use; the count of waiting threads
  is not part of it.
\<close>

fun cq_spec ::
  "'a cq_op \<Rightarrow> 'a cq_ret \<Rightarrow> 'a option list \<times> 32 word \<Rightarrow> ('a option list \<times> 32 word) option" where
  "cq_spec (Push p) r (xs, u) = (if r = Pushed then Some (xs @ [p], u) else None)"
| "cq_spec Try_pop r (xs, u) =
     (case xs of [] \<Rightarrow> if r = Nothing then Some (xs, u) else None
      | p # ys \<Rightarrow> if r = Popped p then Some (ys, u + 1) else None)"
| "cq_spec Wait_pop r (xs, u) =
     (case xs of [] \<Rightarrow> None | p # ys \<Rightarrow> if r = Popped p then Some (ys, u + 1) else None)"
| "cq_spec Timed_pop r (xs, u) =
     (case xs of [] \<Rightarrow> None | p # ys \<Rightarrow> if r = Popped p then Some (ys, u + 1) else None)"
| "cq_spec Timed_out r (xs, u) = (if r = Nothing then Some (xs, u) else None)"
| "cq_spec Queue_size r (xs, u) =
     (if r = Num (u + of_nat (length xs)) then Some (xs, u) else None)"
| "cq_spec Decrease r (xs, u) =
     (let u' = (if u = 0 then 0 else u - 1) in if r = Num u' then Some (xs, u') else None)"
| "cq_spec Increase r (xs, u) = (if r = Num (u + 1) then Some (xs, u + 1) else None)"
| "cq_spec Clean r (xs, u) =
     (if r = Cleaned xs (List.map_filter id xs) then Some ([], 0) else None)"
| "cq_spec Broadcast r (xs, u) = (if r = Sent then Some (xs, u) else None)"
| "cq_spec Queue_empty r (xs, u) = (if r = Flag (xs = []) then Some (xs, u) else None)"

definition cq_abs :: "'a condition_queue \<Rightarrow> 'a option list \<times> 32 word" where
  "cq_abs q = (m_dataqueue q, m_used q)"

fun cq_puts :: "'a cq_op \<Rightarrow> 'a cq_ret \<Rightarrow> 'a option list" where
  "cq_puts (Push p) r = [p]"
| "cq_puts _ _ = []"

fun cq_takes :: "'a cq_op \<Rightarrow> 'a cq_ret \<Rightarrow> 'a option list" where
  "cq_takes op (Popped p) = [p]"
| "cq_takes op (Cleaned ps ds) = ps"
| "cq_takes _ _ = []"

lemma cq_section_spec:
  "cq_section op q = Return q' r ns ps \<Longrightarrow> cq_spec op r (cq_abs q) = Some (cq_abs q')"
  by (cases op)
    (auto simp: cq_abs_def cq_defs Let_def size_value_def clean_loop_eq word_gt_0
      split: if_splits list.splits)

interpretation cq: timed_refines allowed "\<lambda>_. True" cq_late cq_section "\<lambda>_. True" cq_abs cq_spec
  by unfold_locales (auto dest!: cq_wait_cases cq_section_spec simp: cq_abs_def)

interpretation cqf: fifo_spec cq_spec fst cq_puts cq_takes
proof
  fix op :: "'a cq_op" and r a a'
  assume "cq_spec op r a = Some a'"
  then show "fst a @ cq_puts op r = cq_takes op r @ fst a'"
    by (cases "(op, r, a)" rule: cq_spec.cases)
      (auto simp: Let_def split: if_splits list.splits)
qed

subsection \<open>Wake-up discipline\<close>

fun is_wait_pop :: "'a cq_op \<Rightarrow> bool" where
  "is_wait_pop Wait_pop = True"
| "is_wait_pop Timed_pop = True"
| "is_wait_pop _ = False"

lemma cq_pays:
  "cq_section op q = Return q' r ns ps \<Longrightarrow>
    length (m_dataqueue q') + (if is_wait_pop op then 1 else 0) \<le>
    length (m_dataqueue q) + count_list ns (One M_cond) + count_list ps (One M_cond)"
  by (cases op) (auto simp: cq_defs Let_def split: if_splits list.splits)

fun is_timed_out :: "'a cq_op \<Rightarrow> bool" where
  "is_timed_out Timed_out = True"
| "is_timed_out _ = False"

lemma cq_late_out: "cq_late op = Some op' \<Longrightarrow> is_timed_out op' \<and> \<not> is_timed_out op"
  by (cases op) auto

text \<open>The waits of \<open>wait_timeout_pop\<close> that have ended with a timeout so far.\<close>

definition timeouts :: "'a cq_monitor \<Rightarrow> nat" where
  "timeouts m = count_where (\<lambda>(i, op, r). op = Timed_out) (history m) +
     count_where (\<lambda>t. t = Ready Timed_out) (threads m)"

lemma is_timed_out_iff: "is_timed_out op \<longleftrightarrow> op = Timed_out"
  by (cases op) auto

lemma timeouts_expired: "timeouts m = expired is_timed_out m"
proof -
  have "(case t of Ready op \<Rightarrow> is_timed_out op | _ \<Rightarrow> False) \<longleftrightarrow> t = Ready Timed_out"
    for t :: "(cq_cond, 'a cq_op) tstate"
    by (cases t) (auto simp: is_timed_out_iff)
  then show ?thesis by (simp add: timeouts_def expired_def is_timed_out_iff)
qed

interpretation cqw: timed_wakeups allowed "\<lambda>_. True" cq_late cq_section "\<lambda>_. True" M_cond
    is_wait_pop "\<lambda>q. length (m_dataqueue q)" "\<lambda>_. False" is_timed_out Wait_pop
proof
  fix op :: "'a cq_op" and q q' r ns ps
  assume "cq_section op q = Return q' r ns ps"
  then show "length (m_dataqueue q') + (if is_wait_pop op then 1 else 0) \<le>
      length (m_dataqueue q) + count_list ns (One M_cond) + count_list ps (One M_cond)"
    by (rule cq_pays)
qed (auto dest!: cq_wait_cases cq_late_out)

subsection \<open>Elements in use\<close>

text \<open>Without \<open>increase\<close>, \<open>decrease\<close> and \<open>CleanQueue\<close>, every pop counts one element in use.\<close>

fun keeps_count :: "'a cq_op \<Rightarrow> bool" where
  "keeps_count Increase = False"
| "keeps_count Decrease = False"
| "keeps_count Clean = False"
| "keeps_count _ = True"

definition pushed :: "(nat \<times> 'a cq_op \<times> 'a cq_ret) list \<Rightarrow> 'a option list" where
  "pushed h = concat (map (\<lambda>(i, op, r). cq_puts op r) h)"

definition popped :: "(nat \<times> 'a cq_op \<times> 'a cq_ret) list \<Rightarrow> 'a option list" where
  "popped h = concat (map (\<lambda>(i, op, r). cq_takes op r) h)"

lemma spec_used:
  "cq_spec op r a = Some a' \<Longrightarrow> keeps_count op \<Longrightarrow>
    snd a' = snd a + of_nat (length (cq_takes op r))"
  by (cases "(op, r, a)" rule: cq_spec.cases) (auto split: if_splits list.splits)

lemma run_spec_used:
  "run_spec cq_spec a h = Some a' \<Longrightarrow> \<forall>(i, op, r) \<in> set h. keeps_count op \<Longrightarrow>
    snd a' = snd a + of_nat (length (popped h))"
proof (induction h arbitrary: a)
  case (Cons e h)
  obtain i op r where e: "e = (i, op, r)" by (cases e)
  with Cons.prems obtain b where b: "cq_spec op r a = Some b" "run_spec cq_spec b h = Some a'"
    by (auto split: option.splits)
  from Cons.IH [OF b(2)] spec_used [OF b(1)] Cons.prems(2) e show ?case
    by (simp add: popped_def add.assoc)
qed (simp add: popped_def)

lemma cq_late_keeps: "keeps_count op \<Longrightarrow> cq_late op = Some op' \<Longrightarrow> keeps_count op'"
  by (cases op) auto

interpretation cqk: timed_ops keeps_count keeps_count cq_late
  by unfold_locales (auto intro: cq_late_keeps)

subsection \<open>Properties\<close>

lemmas cq_eval = cq_defs start_def ConditionQueue_init_def waiters_def wait_size_def
  size_value_def numeral_3_eq_3 numeral_2_eq_2

text \<open>
  C22: every concurrent run on one \<open>ConditionQueue\<close>, waits with a deadline that expire at any
  moment included, is linearizable: the log of completed operations
  is a legal history of an unbounded queue of pointers with a count of elements in use, and the
  pointers pushed are, in order, those popped followed by those still queued.
\<close>

theorem condition_queue_linearizable:
  assumes "cq_reach allowed n m"
  shows "run_spec cq_spec ([], 0) (history m) = Some (m_dataqueue (shared m), m_used (shared m)) \<and>
    pushed (history m) = popped (history m) @ m_dataqueue (shared m)"
proof -
  have r: "run_spec cq_spec ([], 0) (history m) = Some (m_dataqueue (shared m), m_used (shared m))"
    using cq.timed_linearizable [OF assms] by (simp add: cq_abs_def)
  from cqf.run_fifo [OF this] r show ?thesis by (simp add: pushed_def popped_def)
qed

text \<open>The counters agree. When elements are only pushed and popped, \<open>m_used\<close> is the number of pops
  and \<open>size()\<close> the number of pushes, both modulo \<open>2^32\<close>, in every reachable state.
\<close>

theorem condition_queue_size_counts_pushes:
  assumes "cq_reach keeps_count n m"
  shows "m_used (shared m) = of_nat (length (popped (history m))) \<and>
    size_value (shared m) = of_nat (length (pushed (history m)))"
proof -
  have r: "run_spec cq_spec ([], 0) (history m) = Some (m_dataqueue (shared m), m_used (shared m))"
    using cq.timed_linearizable [OF assms] by (simp add: cq_abs_def)
  have "pushed (history m) = popped (history m) @ m_dataqueue (shared m)"
    using cqf.run_fifo [OF r] by (simp add: pushed_def popped_def)
  moreover have "m_used (shared m) = of_nat (length (popped (history m)))"
    using run_spec_used [OF r] cqk.timed_reach_history [OF assms] by fastforce
  ultimately show ?thesis by (simp add: size_value_def)
qed

text \<open>
  C23: \<open>push\<close> signals after unlocking, and a wait that times out may take a signal with it; every
  such timeout costs at most one wake-up. Whenever more pointers are queued than waits of
  \<open>wait_timeout_pop\<close> have timed out so far (with no timeout: whenever the queue is not empty), a
  thread waiting in \<open>wait_pop\<close> or \<open>wait_timeout_pop\<close> has a helper that is about to run the loop
  test of one of them or to signal \<open>m_cond\<close>.
\<close>

theorem condition_queue_wakeup:
  assumes "cq_reach (\<lambda>_. True) n m" and "timeouts m < length (m_dataqueue (shared m))"
    and "i < length (threads m)" and "threads m ! i = Blocked M_cond op"
  shows "\<exists>j < length (threads m). threads m ! j \<in> {Ready Wait_pop, Ready Timed_pop} \<or>
    (\<exists>ns. threads m ! j = Post ns \<and> One M_cond \<in> set ns)"
proof -
  have "is_wait_pop op' \<longleftrightarrow> op' = Wait_pop \<or> op' = Timed_pop" for op' :: "'a cq_op"
    by (cases op') auto
  with cqw.timed_waiting_has_helper [OF assms(1), of i] assms(2,3,4) show ?thesis
    by (auto simp: timeouts_expired)
qed


text \<open>\<open>wait_size()\<close> is not the number of waiting threads. \<open>wait_pop\<close> takes one off the counter on
  every return, waited or not, so one push and one pop leave it at \<open>2^32 - 1\<close> with no thread
  waiting; and every spurious wake-up counts a waiting thread once more.
\<close>

theorem condition_queue_wait_size_wrong:
  "ends_in (run cq_section (\<lambda>_. True)
      [Call 0 (Push x), Section 0 0, Notify 0 0, Leave 0, Call 0 Wait_pop, Section 0 0, Leave 0]
      (start ConditionQueue_init 1))
    (\<lambda>m. threads m = [Idle] \<and> unat (wait_size (shared m)) = 2 ^ 32 - 1) \<and>
   ends_in (run cq_section (\<lambda>_. True)
      [Call 0 (Wait_pop :: 'a cq_op), Section 0 0, Spurious 0, Section 0 0]
      (start ConditionQueue_init 1))
    (\<lambda>m. threads m = [Blocked M_cond Wait_pop] \<and> wait_size (shared m) = 2)"
  by (simp add: cq_defs start_def ConditionQueue_init_def waiters_def wait_size_def
      unat_minus_one_32)

text \<open>
  \<open>CleanQueue\<close> empties the queue, resets the count of elements in use, and deletes exactly the
  non-null pointers that were queued, in order; so \<open>size()\<close> is 0 afterwards.
\<close>

lemma condition_queue_clean:
  "\<exists>q'. cq_section Clean q = Return q' (Cleaned (m_dataqueue q) (List.map_filter id (m_dataqueue q))) [] [] \<and>
    m_dataqueue q' = [] \<and> size_value q' = 0 \<and> wait_size q' = wait_size q"
  by (simp add: CleanQueue_section_def clean_loop_eq size_value_def wait_size_def)

text \<open>\<open>wait_timeout_pop\<close>, against every environment: if it returns, it has popped the front of a
  non-empty queue and counted it, or the last timed wait failed and it returns a null pointer with
  the queue as that wait left it. In particular, on an empty queue a deadline that has already
  passed (the wait fails at once) makes it return without waiting.
\<close>

theorem condition_queue_timeout_pop:
  assumes "wait_timeout_pop env q = Some (q', p)"
  shows "(\<exists>q1 rest. q1 \<in> insert q (snd ` set env) \<and> m_dataqueue q1 = p # rest \<and>
      q' = q1\<lparr>m_dataqueue := rest, m_used := m_used q1 + 1\<rparr>) \<or>
    (p = None \<and> (\<exists>rc. rc \<noteq> 0 \<and> (rc, q') \<in> set env))"
  using assms
proof (induction env q rule: wait_timeout_pop.induct)
  case (1 env q)
  show ?case
  proof (cases "m_dataqueue q")
    case Nil
    with "1.prems" obtain rc q1 env' where env: "env = (rc, q1) # env'"
      by (cases env) (auto simp: wait_timeout_pop_simps)
    show ?thesis
    proof (cases "rc = 0")
      case True
      with Nil env "1.prems" have "wait_timeout_pop env' q1 = Some (q', p)"
        by (simp add: wait_timeout_pop_simps)
      from "1.IH" [OF Nil env refl _ this] True env show ?thesis by auto
    next
      case False
      with Nil env "1.prems" show ?thesis by (auto simp: wait_timeout_pop_simps)
    qed
  next
    case (Cons ptr rest)
    with "1.prems" show ?thesis by (auto simp: wait_timeout_pop_simps)
  qed
qed

text \<open>the timeout is no duration. \<open>timedwait\<close> stands for the return code of \<open>pthread_cond_timedwait\<close> at
  a given clock and deadline; all that is used of it is that a passed deadline makes it fail. Then
  from the year 2001 on (\<open>10^9\<close> seconds after the epoch), no timeout of up to 31 years makes
  \<open>wait_timeout_pop\<close> wait for an element: on an empty queue its first wait already fails.
\<close>

theorem condition_queue_timeout_absolute:
  assumes law: "\<And>n t. deadline_passed n t \<Longrightarrow> timedwait n t \<noteq> (0 :: int)"
    and "m_dataqueue q = []" and "unat timeout < 10 ^ 9" and "10 ^ 9 \<le> tv_sec now"
  shows "wait_timeout_pop ((timedwait now (ntimeout timeout), q1) # env) q = Some (q1, None)"
proof -
  have "- (2 ^ 63) \<le> uint timeout" by (rule order_trans [of _ 0]) simp_all
  then have "sint timeout \<le> uint timeout"
    by (simp add: sint_uint signed_take_bit_int_less_eq_self_iff)
  also have "int (unat timeout) < int (10 ^ 9)" using assms(3) by (simp only: of_nat_less_iff)
  then have "uint timeout < 10 ^ 9" by simp
  finally have "deadline_passed now (ntimeout timeout)"
    using assms(4) by (simp add: deadline_passed_def ntimeout_def)
  from law [OF this] assms(2) show ?thesis by (simp add: wait_timeout_pop_simps)
qed

theorem condition_queue_timeout_absolute_witness:
  "wait_timeout_pop ((if deadline_passed \<lparr>tv_sec = 1524000000, tv_nsec = 0\<rparr> (ntimeout 30) then 110
      else 0, ConditionQueue_init) # []) (ConditionQueue_init :: nat condition_queue) =
    Some (ConditionQueue_init, None)"
  using condition_queue_timeout_absolute [where
      timedwait = "\<lambda>now t. if deadline_passed now t then 110 else 0" and timeout = 30 and
      now = "\<lparr>tv_sec = 1524000000, tv_nsec = 0\<rparr>" and env = "[]" and q = "ConditionQueue_init :: nat condition_queue"]
  by simp

text \<open>
  A deadline that passes between the push of an element and its signal makes \<open>wait_timeout_pop\<close>
  give a null pointer beside a non-empty queue: the early return does not test the queue again.
  The element is not lost, the next pop takes it.
\<close>

theorem condition_queue_timed_pop_misses:
  "ends_in (run_timed cq_late cq_section (\<lambda>_. True)
      (map Move [Call 0 Timed_pop, Section 0 0, Call 1 (Push (Some x)), Section 1 0] @ [Expire 0 (Spurious 0)] @
       map Move [Section 0 0])
      (start ConditionQueue_init 2))
    (\<lambda>m. history m = [(1, Push (Some x), Pushed), (0, Timed_out, Nothing)] \<and>
      m_dataqueue (shared m) = [Some x])"
  by (simp add: cq_defs start_def ConditionQueue_init_def numeral_2_eq_2)

subsection \<open>Witnesses\<close>

definition cq_demo :: "nat cq_op timed_move list" where
  "cq_demo = map Move [Call 0 Timed_pop, Section 0 0, Call 1 Wait_pop, Section 1 0,
     Call 2 (Push (Some 4)), Section 2 0] @ [Expire 0 (Notify 2 0)] @
     map Move [Section 0 0, Call 3 (Push (Some 5)), Section 3 0]"

definition cq_pop_demo :: "nat cq_op timed_move list" where
  "cq_pop_demo = map Move [Call 0 Timed_pop, Section 0 0] @ [Expire 0 (Spurious 0)] @
     map Move [Section 0 0, Leave 0, Call 0 (Push (Some 4)), Section 0 0, Notify 0 0, Leave 0,
       Call 0 (Push (Some 5)), Section 0 0, Notify 0 0, Leave 0, Call 0 Timed_pop, Section 0 0]"

lemma cq_pop_demo_reach:
  "\<exists>m. cq_reach keeps_count 1 m \<and> m_dataqueue (shared m) = [Some (5 :: nat)]"
proof -
  have "ends_in (run_timed cq_late cq_section keeps_count cq_pop_demo (start ConditionQueue_init 1))
    (\<lambda>m. m_dataqueue (shared m) = [Some (5 :: nat)])"
    by (simp add: cq_pop_demo_def cq_eval)
  then show ?thesis using run_timed_reach unfolding ends_in_iff by blast
qed

theorem condition_queue_linearizable_witness:
  "\<exists>m. cq_reach keeps_count 1 m \<and> m_dataqueue (shared m) = [Some (5 :: nat)] \<and>
    run_spec cq_spec ([], 0) (history m) = Some ([Some 5], m_used (shared m)) \<and>
    pushed (history m) = popped (history m) @ [Some 5]"
  using cq_pop_demo_reach condition_queue_linearizable by metis

theorem condition_queue_size_counts_pushes_witness:
  "\<exists>m. cq_reach keeps_count 1 m \<and> m_dataqueue (shared m) = [Some (5 :: nat)] \<and>
    size_value (shared m) = of_nat (length (pushed (history m)))"
  using cq_pop_demo_reach condition_queue_size_counts_pushes by metis

theorem condition_queue_wakeup_witness:
  "\<exists>m :: nat cq_monitor. cq_reach (\<lambda>_. True) 4 m \<and> timeouts m = 1 \<and>
    m_dataqueue (shared m) = [Some 4, Some 5] \<and> threads m ! 1 = Blocked M_cond Wait_pop \<and>
    (\<exists>j < length (threads m). threads m ! j \<in> {Ready Wait_pop, Ready Timed_pop} \<or>
      (\<exists>ns. threads m ! j = Post ns \<and> One M_cond \<in> set ns))"
proof -
  have "ends_in (run_timed cq_late cq_section (\<lambda>_. True) cq_demo (start ConditionQueue_init 4))
    (\<lambda>m. timeouts m = 1 \<and> m_dataqueue (shared m) = [Some 4, Some 5] \<and> 1 < length (threads m) \<and>
      threads m ! 1 = Blocked M_cond Wait_pop)"
    by (simp add: cq_demo_def cq_eval timeouts_def eval_nat_numeral)
  then obtain m :: "nat cq_monitor" where m: "cq_reach (\<lambda>_. True) 4 m" "timeouts m = 1"
    "m_dataqueue (shared m) = [Some 4, Some 5]" "1 < length (threads m)"
    "threads m ! 1 = Blocked M_cond Wait_pop"
    unfolding ends_in_iff using run_timed_reach by blast
  from condition_queue_wakeup [OF m(1) _ m(4,5)] m show ?thesis by auto
qed

theorem condition_queue_timeout_pop_witness:
  "wait_timeout_pop [(110, ConditionQueue_init)] (ConditionQueue_init :: nat condition_queue) =
     Some (ConditionQueue_init, None) \<and>
   (\<exists>rc. rc \<noteq> (0 :: int) \<and> (rc, ConditionQueue_init) \<in> set [(110, ConditionQueue_init :: nat condition_queue)])"
proof -
  have r: "wait_timeout_pop [(110, ConditionQueue_init)]
      (ConditionQueue_init :: nat condition_queue) = Some (ConditionQueue_init, None)"
    by (simp add: wait_timeout_pop.simps)
  from condition_queue_timeout_pop [OF r] r show ?thesis by auto
qed

end
