(* ===== verification/C_Pool.thy ===== *)
theory C_Pool
  imports Leano_Prelude "HOL-Library.Multiset"
begin

section \<open>The pthread pool (src/thread_pool.cpp)\<close>

text \<open>
  \<open>CPool\<close> is a queue of messages (a function and its argument, of type \<open>'a\<close> here), a count of them,
  a shutdown flag, a mutex and a condition variable. Workers run \<open>thread_routine\<close>, clients call
  \<open>pool_add_worker\<close>, one thread calls \<open>pool_destory\<close>. The steps are finer than whole critical
  sections, because what matters here is who holds the mutex: a worker is its program counter, and
  the mutex records the worker that holds it. The section of \<open>pool_add_worker\<close> touches only data
  that the workers touch under the same mutex, so it is one step, enabled when the mutex is free.

  The code has two builds. The wait on the condition variable stands inside \<open>#ifdef DEBUG\<close>; without
  \<open>DEBUG\<close> the wait loop has an empty body, and the worker spins with the mutex held, on plain \<open>int\<close>s
  that \<open>pool_destory\<close> writes without the mutex. That is a data race, to which C++ gives no meaning: a
  compiler may keep the loads of the loop in it, or move them in front of it (the repository builds
  with \<open>-O2\<close>), after which a worker that has entered the loop never leaves it. So there are three
  builds. \<open>cp_added\<close>, \<open>cp_started\<close> and \<open>cp_finished\<close> are logs.
\<close>

datatype build =
    Debug            \<comment> \<open>\<open>DEBUG\<close> is defined\<close>
  | Rereads          \<comment> \<open>not defined, the empty loop loads the variables in every round\<close>
  | Hoists           \<comment> \<open>not defined, the loads are moved in front of the loop\<close>

datatype 'a routine =
    T_lock           \<comment> \<open>at \<open>pthread_mutex_lock\<close> (or waking up in \<open>pthread_cond_wait\<close>)\<close>
  | T_test           \<comment> \<open>holds the mutex, at the test of the inner \<open>while\<close>\<close>
  | T_enter_wait     \<comment> \<open>holds the mutex, about to wait (\<open>DEBUG\<close>)\<close>
  | T_wait           \<comment> \<open>in \<open>pthread_cond_wait\<close> (\<open>DEBUG\<close>)\<close>
  | T_spin           \<comment> \<open>holds the mutex, in the loop without loads\<close>
  | T_after          \<comment> \<open>holds the mutex, past the inner \<open>while\<close>\<close>
  | T_run 'a         \<comment> \<open>has unlocked, runs the message\<close>
  | T_exited

datatype 'a adder = A_idle | A_lock 'a | A_signal

datatype destroyer =
    D_idle | D_broadcast | D_join nat | D_wait nat | D_free | D_done

text \<open>The member \<open>threadid\<close>, which the constructor leaves indeterminate.\<close>

datatype thread_array = Indeterminate | Allocated | Deleted | Null_array

record 'a cpool =
  queue_b :: "'a list"
  cur_queue_size :: int
  shutdown :: bool
  max_thread_num :: int
  queue_lock :: "nat option"
  cp_routines :: "'a routine list"
  cp_adders :: "'a adder list"
  cp_destroyer :: destroyer
  cp_pool_null :: bool
  threadid :: thread_array
  cp_freed :: "'a list"
  cp_leaked :: "'a list"
  cp_added :: "'a list"
  cp_started :: "'a list"
  cp_finished :: "'a list"

text \<open>The constructor, with room in the model for \<open>clients\<close> threads that add messages.\<close>

definition ThreadPool_new :: "nat \<Rightarrow> 'a cpool" where
  "ThreadPool_new clients = \<lparr>queue_b = [], cur_queue_size = 0, shutdown = False,
     max_thread_num = 0, queue_lock = None, cp_routines = [],
     cp_adders = replicate clients A_idle, cp_destroyer = D_idle, cp_pool_null = False,
     threadid = Indeterminate, cp_freed = [], cp_leaked = [], cp_added = [], cp_started = [], cp_finished = []\<rparr>"

text \<open>\<open>new pthread_t[max_thread_num]\<close> throws for a negative size.\<close>

definition start_pool :: "int \<Rightarrow> 'a cpool \<Rightarrow> 'a cpool res" where
  "start_pool n p =
     (if cp_pool_null p then Inl Null_deref
      else if n < 0 then Inl Uncaught
      else Inr (p\<lparr>max_thread_num := n, cur_queue_size := 0, shutdown := False,
             threadid := Allocated, cp_routines := cp_routines p @ replicate (nat n) T_lock\<rparr>))"

definition set_routine :: "nat \<Rightarrow> 'a routine \<Rightarrow> 'a cpool \<Rightarrow> 'a cpool" where
  "set_routine i t p = p\<lparr>cp_routines := (cp_routines p)[i := t]\<rparr>"

fun thread_routine_at :: "build \<Rightarrow> nat \<Rightarrow> 'a routine \<Rightarrow> 'a cpool \<Rightarrow> 'a cpool option" where
  "thread_routine_at b i T_lock p =
     (if queue_lock p = None then Some (set_routine i T_test (p\<lparr>queue_lock := Some i\<rparr>)) else None)"
| "thread_routine_at b i T_test p =
     Some (set_routine i
       (if cur_queue_size p = 0 \<and> \<not> shutdown p
        then (case b of Debug \<Rightarrow> T_enter_wait | Rereads \<Rightarrow> T_test | Hoists \<Rightarrow> T_spin)
        else T_after) p)"
| "thread_routine_at b i T_spin p = Some p"
| "thread_routine_at b i T_enter_wait p =
     Some (set_routine i T_wait (p\<lparr>queue_lock := None\<rparr>))"
| "thread_routine_at b i T_wait p = None"
| "thread_routine_at b i T_after p =
     (if shutdown p then Some (set_routine i T_exited (p\<lparr>queue_lock := None\<rparr>))
      else if 0 < cur_queue_size p then
        (case queue_b p of
           q_msg # rest \<Rightarrow>
             Some (set_routine i (T_run q_msg)
               (p\<lparr>cur_queue_size := cur_queue_size p - 1, queue_b := rest, queue_lock := None,
                  cp_started := cp_started p @ [q_msg]\<rparr>))
         | [] \<Rightarrow> None)
      else Some (set_routine i T_lock p))"
| "thread_routine_at b i (T_run q_msg) p =
     Some (set_routine i T_lock (p\<lparr>cp_finished := cp_finished p @ [q_msg]\<rparr>))"
| "thread_routine_at b i T_exited p = None"

definition thread_routine :: "build \<Rightarrow> nat \<Rightarrow> 'a cpool \<Rightarrow> 'a cpool option" where
  "thread_routine b i p =
     (if i < length (cp_routines p) then thread_routine_at b i (cp_routines p ! i) p else None)"

text \<open>\<open>pthread_cond_signal\<close> wakes thread \<open>k\<close>, some waiting thread, if there is one.\<close>

definition cp_waiting :: "'a cpool \<Rightarrow> nat list" where
  "cp_waiting p = filter (\<lambda>i. case cp_routines p ! i of T_wait \<Rightarrow> True | _ \<Rightarrow> False)
     [0..<length (cp_routines p)]"

definition cond_signal :: "nat \<Rightarrow> 'a cpool \<Rightarrow> 'a cpool option" where
  "cond_signal k p =
     (if cp_waiting p = [] then Some p
      else if k \<in> set (cp_waiting p) then Some (set_routine k T_lock p) else None)"

fun woken :: "'a routine \<Rightarrow> 'a routine" where
  "woken T_wait = T_lock"
| "woken t = t"

definition cond_broadcast :: "'a cpool \<Rightarrow> 'a cpool" where
  "cond_broadcast p = p\<lparr>cp_routines := map woken (cp_routines p)\<rparr>"

definition set_adder :: "nat \<Rightarrow> 'a adder \<Rightarrow> 'a cpool \<Rightarrow> 'a cpool" where
  "set_adder j a p = p\<lparr>cp_adders := (cp_adders p)[j := a]\<rparr>"

text \<open>A step of client \<open>j\<close> inside \<open>pool_add_worker\<close>: the locked section, then the signal.\<close>

fun pool_add_worker_at :: "nat \<Rightarrow> nat \<Rightarrow> 'a adder \<Rightarrow> 'a cpool \<Rightarrow> 'a cpool option" where
  "pool_add_worker_at j k A_idle p = None"
| "pool_add_worker_at j k (A_lock newMsg) p =
     (if queue_lock p = None then
        Some (set_adder j A_signal
          (p\<lparr>queue_b := queue_b p @ [newMsg], cur_queue_size := cur_queue_size p + 1,
             cp_added := cp_added p @ [newMsg]\<rparr>))
      else None)"
| "pool_add_worker_at j k A_signal p = map_option (set_adder j A_idle) (cond_signal k p)"

definition pool_add_worker_step :: "nat \<Rightarrow> nat \<Rightarrow> 'a cpool \<Rightarrow> 'a cpool option" where
  "pool_add_worker_step j k p =
     (if j < length (cp_adders p) then pool_add_worker_at j k (cp_adders p ! j) p else None)"

text \<open>
  The loop of \<open>pool_destory\<close> over the queue, \<open>for (i = 0; i < queue_b.size(); ++i)\<close>, which pops one
  message per round: what it deletes, and what it leaves.
\<close>

fun free_loop :: "nat \<Rightarrow> 'a list \<Rightarrow> 'a list \<times> 'a list" where
  "free_loop i [] = ([], [])"
| "free_loop i (m # rest) =
     (if i < Suc (length rest)
      then (let (freed, left) = free_loop (Suc i) rest in (m # freed, left))
      else ([], m # rest))"

text \<open>
  A step of \<open>pool_destory\<close>, after the test and the store at its entry. Without a \<open>start\<close> before it
  \<open>delete[] threadid\<close> deletes an indeterminate pointer, which is a fault and no step.
\<close>

fun pool_destory_at :: "destroyer \<Rightarrow> 'a cpool \<Rightarrow> 'a cpool option" where
  "pool_destory_at D_idle p = None"
| "pool_destory_at D_broadcast p = Some ((cond_broadcast p)\<lparr>cp_destroyer := D_join 0\<rparr>)"
| "pool_destory_at (D_join i) p =
     (if i < nat (max_thread_num p)
      then Some ((cond_broadcast p)\<lparr>cp_destroyer := D_wait i\<rparr>)
      else Some (p\<lparr>cp_destroyer := D_free\<rparr>))"
| "pool_destory_at (D_wait i) p =
     (case cp_routines p ! i of T_exited \<Rightarrow> Some (p\<lparr>cp_destroyer := D_join (Suc i)\<rparr>) | _ \<Rightarrow> None)"
| "pool_destory_at D_free p =
     (if threadid p \<noteq> Allocated then None
      else let (freed, left) = free_loop 0 (queue_b p)
        in Some (p\<lparr>queue_b := [], cp_freed := freed, cp_leaked := left, cp_pool_null := True,
               threadid := Deleted, cp_destroyer := D_done\<rparr>))"
| "pool_destory_at D_done p = None"

definition pool_destory_step :: "'a cpool \<Rightarrow> 'a cpool option" where
  "pool_destory_step p = pool_destory_at (cp_destroyer p) p"

text \<open>
  The entry of \<open>pool_destory\<close>: \<open>pool->shutdown\<close> is read through \<open>pool\<close>, which the previous call set
  to null. The result is -1 and nothing changes when the flag is already up.
\<close>

definition pool_destory_entry :: "'a cpool \<Rightarrow> (int \<times> 'a cpool) res" where
  "pool_destory_entry p =
     (if cp_pool_null p then Inl Null_deref
      else if shutdown p then Inr (-1, p)
      else Inr (0, p\<lparr>shutdown := True, cp_destroyer := D_broadcast\<rparr>))"

text \<open>
  The destructor. It deletes the pool unless \<open>pool_destory\<close> has, with its queue but not the messages
  in it, and the thread array unless \<open>threadid\<close> is null, which nothing before has made it.
\<close>

definition ThreadPool_dtor :: "'a cpool \<Rightarrow> 'a cpool res" where
  "ThreadPool_dtor p =
     (let p1 = (if cp_pool_null p then p
           else p\<lparr>queue_b := [], cp_leaked := cp_leaked p @ queue_b p, cp_pool_null := True\<rparr>)
      in case threadid p1 of
           Null_array \<Rightarrow> Inr p1
         | Allocated \<Rightarrow> Inr (p1\<lparr>threadid := Null_array\<rparr>)
         | _ \<Rightarrow> Inl Dangling)"

datatype 'a cp_ev =
    Routine nat | Spurious_wake nat | Add_call nat 'a | Add_step nat nat | Destroy_call | Destroy_step

text \<open>
  One event. Once \<open>pool_destory\<close> has set \<open>pool\<close> to null, every further access dereferences it, and
  no event is possible. A call of \<open>pool_destory\<close> that faults or returns -1 is no event either.
\<close>

definition cp_alive_event :: "build \<Rightarrow> 'a cp_ev \<Rightarrow> 'a cpool \<Rightarrow> 'a cpool option" where
  "cp_alive_event b e p =
     (case e of
        Routine i \<Rightarrow> thread_routine b i p
      | Spurious_wake i \<Rightarrow> if i \<in> set (cp_waiting p) then Some (set_routine i T_lock p) else None
      | Add_call j x \<Rightarrow>
          if j < length (cp_adders p) then
            (case cp_adders p ! j of A_idle \<Rightarrow> Some (set_adder j (A_lock x) p) | _ \<Rightarrow> None)
          else None
      | Add_step j k \<Rightarrow> pool_add_worker_step j k p
      | Destroy_call \<Rightarrow>
          (case pool_destory_entry p of
             Inr (rc, p') \<Rightarrow> if rc = 0 then Some p' else None
           | Inl err \<Rightarrow> None)
      | Destroy_step \<Rightarrow> pool_destory_step p)"

definition cp_event :: "build \<Rightarrow> 'a cp_ev \<Rightarrow> 'a cpool \<Rightarrow> 'a cpool option" where
  "cp_event b e p = (if cp_pool_null p then None else cp_alive_event b e p)"

fun cp_run :: "build \<Rightarrow> 'a cp_ev list \<Rightarrow> 'a cpool \<Rightarrow> 'a cpool option" where
  "cp_run b [] p = Some p"
| "cp_run b (e # es) p =
     (case cp_event b e p of None \<Rightarrow> None | Some p' \<Rightarrow> cp_run b es p')"

definition started_pool :: "int \<Rightarrow> nat \<Rightarrow> 'a cpool" where
  "started_pool n clients =
     (case start_pool n (ThreadPool_new clients) of Inr p \<Rightarrow> p | Inl e \<Rightarrow> ThreadPool_new clients)"

lemmas cp_defs = thread_routine_def set_routine_def cp_waiting_def cond_signal_def
  cond_broadcast_def set_adder_def pool_add_worker_step_def pool_destory_step_def
  pool_destory_entry_def

lemma cp_run_invariant:
  assumes "cp_run b es p = Some p'" and "P p"
    and step: "\<And>e q q'. e \<in> set es \<Longrightarrow> cp_event b e q = Some q' \<Longrightarrow> P q \<Longrightarrow> P q'"
  shows "P p'"
  using assms
proof (induction es arbitrary: p)
  case (Cons e es)
  then obtain p1 where p1: "cp_event b e p = Some p1" "cp_run b es p1 = Some p'"
    by (auto split: option.splits)
  have "P p1" using Cons.prems(2) Cons.prems(3) [of e] p1(1) by simp
  then show ?case using Cons.IH [OF p1(2)] Cons.prems(3) by (meson list.set_intros(2))
qed simp

subsection \<open>The mutex and the order of messages\<close>

fun holds_lock :: "'a routine \<Rightarrow> bool" where
  "holds_lock T_test = True"
| "holds_lock T_enter_wait = True"
| "holds_lock T_after = True"
| "holds_lock T_spin = True"
| "holds_lock _ = False"

text \<open>
  The worker that the mutex names, and no other, is between lock and unlock; the count is the
  length of the queue; the messages added are those taken by workers followed by the queue; and
  as a multiset those taken are finished or running. A worker past the wait loop either sees
  \<open>shutdown\<close> or has a message to take.
\<close>

fun running :: "'a routine \<Rightarrow> 'a list" where
  "running (T_run x) = [x]"
| "running _ = []"

definition lock_ok :: "'a cpool \<Rightarrow> bool" where
  "lock_ok p \<longleftrightarrow> (\<forall>i < length (cp_routines p).
     holds_lock (cp_routines p ! i) \<longleftrightarrow> queue_lock p = Some i) \<and>
   (\<forall>i. queue_lock p = Some i \<longrightarrow> i < length (cp_routines p))"

definition after_ok :: "'a cpool \<Rightarrow> bool" where
  "after_ok p \<longleftrightarrow> (\<forall>i < length (cp_routines p). cp_routines p ! i = T_after \<longrightarrow>
     shutdown p \<or> 0 < cur_queue_size p)"

definition fifo_ok :: "'a cpool \<Rightarrow> bool" where
  "fifo_ok p \<longleftrightarrow> cur_queue_size p = int (length (queue_b p)) \<and>
     cp_added p = cp_started p @ queue_b p \<and>
     mset (cp_started p) = mset (cp_finished p) + mset (concat (map running (cp_routines p)))"

definition cp_inv :: "'a cpool \<Rightarrow> bool" where
  "cp_inv p \<longleftrightarrow> \<not> cp_pool_null p \<and> lock_ok p \<and> after_ok p \<and> fifo_ok p"

lemma mset_running_update:
  "i < length ts \<Longrightarrow>
    mset (concat (map running (ts[i := t]))) + mset (running (ts ! i)) =
    mset (concat (map running ts)) + mset (running t)"
proof (induction ts arbitrary: i)
  case (Cons v ts)
  show ?case
  proof (cases i)
    case (Suc j)
    with Cons.prems Cons.IH [of j] show ?thesis by (simp add: add.assoc)
  qed (simp add: add.commute)
qed simp

lemma mset_running_update_same:
  "i < length ts \<Longrightarrow> running (ts ! i) = [] \<Longrightarrow> running t = [] \<Longrightarrow>
    mset (concat (map running (ts[i := t]))) = mset (concat (map running ts))"
  using mset_running_update [of i ts t] by simp

lemma set_routine_simps [simp]:
  "queue_b (set_routine i t p) = queue_b p" "cur_queue_size (set_routine i t p) = cur_queue_size p"
  "shutdown (set_routine i t p) = shutdown p" "queue_lock (set_routine i t p) = queue_lock p"
  "cp_routines (set_routine i t p) = (cp_routines p)[i := t]"
  "cp_adders (set_routine i t p) = cp_adders p" "cp_destroyer (set_routine i t p) = cp_destroyer p"
  "cp_pool_null (set_routine i t p) = cp_pool_null p" "cp_added (set_routine i t p) = cp_added p"
  "cp_started (set_routine i t p) = cp_started p" "cp_finished (set_routine i t p) = cp_finished p"
  "max_thread_num (set_routine i t p) = max_thread_num p" "threadid (set_routine i t p) = threadid p"
  by (simp_all add: set_routine_def)

lemma set_adder_simps [simp]:
  "queue_b (set_adder i t p) = queue_b p" "cur_queue_size (set_adder i t p) = cur_queue_size p"
  "shutdown (set_adder i t p) = shutdown p" "queue_lock (set_adder i t p) = queue_lock p"
  "cp_routines (set_adder i t p) = cp_routines p"
  "cp_adders (set_adder i t p) = (cp_adders p)[i := t]" "cp_destroyer (set_adder i t p) = cp_destroyer p"
  "cp_pool_null (set_adder i t p) = cp_pool_null p" "cp_added (set_adder i t p) = cp_added p"
  "cp_started (set_adder i t p) = cp_started p" "cp_finished (set_adder i t p) = cp_finished p"
  "max_thread_num (set_adder i t p) = max_thread_num p" "threadid (set_adder i t p) = threadid p"
  by (simp_all add: set_adder_def)

lemma routine_lock_ok:
  assumes "thread_routine_at b i (cp_routines p ! i) p = Some p'"
    and i: "i < length (cp_routines p)" and "lock_ok p" and "after_ok p"
  shows "lock_ok p'"
proof -
  have h: "holds_lock (cp_routines p ! j) \<longleftrightarrow> queue_lock p = Some j"
    if "j < length (cp_routines p)" for j
    using assms(3) that by (simp add: lock_ok_def)
  show ?thesis
    using assms h [OF i]
    by (cases "cp_routines p ! i")
      (auto simp: lock_ok_def after_ok_def nth_list_update split: if_splits list.splits build.splits)
qed

lemma routine_after_ok:
  assumes "thread_routine_at b i (cp_routines p ! i) p = Some p'"
    and i: "i < length (cp_routines p)" and "lock_ok p" and "after_ok p" and "fifo_ok p"
  shows "after_ok p'"
proof -
  have h: "holds_lock (cp_routines p ! j) \<longleftrightarrow> queue_lock p = Some j"
    if "j < length (cp_routines p)" for j
    using assms(3) that by (simp add: lock_ok_def)
  have others: "cp_routines p ! j \<noteq> T_after"
    if "holds_lock (cp_routines p ! i)" "j < length (cp_routines p)" "j \<noteq> i" for j
    using h [OF i] h [OF that(2)] that by auto
  show ?thesis
    using assms others
    by (cases "cp_routines p ! i")
      (auto simp: after_ok_def fifo_ok_def nth_list_update split: if_splits list.splits build.splits)
qed

lemma routine_fifo_ok:
  assumes "thread_routine_at b i (cp_routines p ! i) p = Some p'"
    and i: "i < length (cp_routines p)" and "fifo_ok p"
  shows "fifo_ok p'"
proof (cases "cp_routines p ! i")
  case T_after
  with assms mset_running_update [OF i] show ?thesis
    by (auto simp: fifo_ok_def mset_running_update_same split: if_splits list.splits)
next
  case (T_run x)
  with assms mset_running_update [OF i, of T_lock] show ?thesis
    by (auto simp: fifo_ok_def)
qed (use assms in \<open>auto simp: fifo_ok_def mset_running_update_same split: if_splits build.splits\<close>)

lemma waiting_iff: "i \<in> set (cp_waiting p) \<longleftrightarrow> i < length (cp_routines p) \<and> cp_routines p ! i = T_wait"
  by (auto simp: cp_waiting_def split: routine.splits)

lemma wake_one_inv: "i \<in> set (cp_waiting p) \<Longrightarrow> cp_inv p \<Longrightarrow> cp_inv (set_routine i T_lock p)"
  by (auto simp: waiting_iff cp_inv_def lock_ok_def after_ok_def fifo_ok_def nth_list_update
      mset_running_update_same)

lemma woken_simps [simp]:
  "holds_lock (woken t) = holds_lock t" "running (woken t) = running t" "woken t = T_after \<longleftrightarrow> t = T_after"
  "woken t = T_exited \<longleftrightarrow> t = T_exited" "woken t = T_spin \<longleftrightarrow> t = T_spin"
  "woken t = T_test \<longleftrightarrow> t = T_test" "woken t = T_enter_wait \<longleftrightarrow> t = T_enter_wait" "woken t \<noteq> T_wait"
  by (cases t; simp)+

lemma running_woken [simp]: "map (running \<circ> woken) ts = map running ts"
  by simp

lemma broadcast_inv: "cp_inv p \<Longrightarrow> cp_inv (cond_broadcast p)"
  by (auto simp: cp_inv_def lock_ok_def after_ok_def fifo_ok_def cond_broadcast_def)

lemma cp_inv_frame:
  "cp_inv p \<Longrightarrow> cp_inv (set_adder j a p)"
  "cp_inv p \<Longrightarrow> cp_inv (p\<lparr>cp_destroyer := d\<rparr>)"
  "cp_inv p \<Longrightarrow> cp_inv (p\<lparr>shutdown := True\<rparr>)"
  by (auto simp: cp_inv_def lock_ok_def after_ok_def fifo_ok_def)

lemma signal_inv: "cond_signal k p = Some p' \<Longrightarrow> cp_inv p \<Longrightarrow> cp_inv p'"
  by (auto simp: cond_signal_def intro: wake_one_inv split: if_splits)

lemma adder_inv: "pool_add_worker_at j k a p = Some p' \<Longrightarrow> cp_inv p \<Longrightarrow> cp_inv p'"
proof (cases a)
  case (A_lock x)
  assume "pool_add_worker_at j k a p = Some p'" "cp_inv p"
  with A_lock show ?thesis
    by (auto simp: cp_inv_def lock_ok_def after_ok_def fifo_ok_def split: if_splits)
next
  case A_signal
  assume "pool_add_worker_at j k a p = Some p'" "cp_inv p"
  with A_signal show ?thesis by (auto intro: cp_inv_frame dest: signal_inv)
qed auto

lemma destroyer_inv:
  "pool_destory_at d p = Some p' \<Longrightarrow> d \<noteq> D_free \<Longrightarrow> cp_inv p \<Longrightarrow> cp_inv p'"
  by (cases d) (auto intro: cp_inv_frame broadcast_inv split: if_splits routine.splits)

lemma cp_alive_event_inv:
  assumes "cp_alive_event b e p = Some p'" and "cp_inv p"
    and "\<not> cp_pool_null p'"
  shows "cp_inv p'"
proof (cases e)
  case (Routine i)
  with assms have i: "i < length (cp_routines p)"
    and step: "thread_routine_at b i (cp_routines p ! i) p = Some p'"
    by (auto simp: cp_alive_event_def thread_routine_def split: if_splits)
  with assms(2,3) show ?thesis
    by (auto simp: cp_inv_def intro: routine_lock_ok routine_after_ok routine_fifo_ok)
next
  case (Spurious_wake i)
  with assms show ?thesis by (auto simp: cp_alive_event_def intro: wake_one_inv split: if_splits)
next
  case (Add_call j x)
  with assms show ?thesis
    by (auto simp: cp_alive_event_def intro: cp_inv_frame split: if_splits adder.splits)
next
  case (Add_step j k)
  with assms show ?thesis
    by (auto simp: cp_alive_event_def pool_add_worker_step_def intro: adder_inv split: if_splits)
next
  case Destroy_call
  with assms show ?thesis
    by (auto simp: cp_alive_event_def pool_destory_entry_def intro!: cp_inv_frame split: if_splits)
next
  case Destroy_step
  show ?thesis
  proof (cases "cp_destroyer p = D_free")
    case True
    with assms Destroy_step show ?thesis
      by (auto simp: cp_alive_event_def pool_destory_step_def Let_def split: prod.splits if_splits)
  next
    case False
    with assms Destroy_step show ?thesis
      by (auto simp: cp_alive_event_def pool_destory_step_def intro: destroyer_inv)
  qed
qed

lemma cp_event_inv:
  "cp_event b e p = Some p' \<Longrightarrow> cp_pool_null p \<or> cp_inv p \<Longrightarrow> cp_pool_null p' \<or> cp_inv p'"
  using cp_alive_event_inv by (auto simp: cp_event_def split: if_splits)

lemma started_pool_inv: "0 \<le> n \<Longrightarrow> cp_inv (started_pool n c)"
  by (auto simp: started_pool_def start_pool_def ThreadPool_new_def cp_inv_def lock_ok_def
      after_ok_def fifo_ok_def)

lemma cp_run_inv:
  assumes "cp_run b es (started_pool n c) = Some p" and "0 \<le> n" and "\<not> cp_pool_null p"
  shows "cp_inv p"
proof -
  have "cp_pool_null p \<or> cp_inv p"
    by (rule cp_run_invariant [where P = "\<lambda>p. cp_pool_null p \<or> cp_inv p", OF assms(1)])
      (use started_pool_inv [OF assms(2)] cp_event_inv in blast)+
  with assms(3) show ?thesis by simp
qed

subsection \<open>The builds without DEBUG: a worker that finds no message keeps the mutex\<close>

definition spinning :: "nat \<Rightarrow> 'a cpool \<Rightarrow> bool" where
  "spinning i p \<longleftrightarrow> i < length (cp_routines p) \<and> cp_routines p ! i \<in> {T_test, T_spin} \<and>
     queue_lock p = Some i \<and> cur_queue_size p = 0 \<and> \<not> shutdown p"

lemma spinning_event:
  assumes "cp_event b e p = Some p'" and "b \<noteq> Debug" and "e \<noteq> Destroy_call"
    and "cp_inv p" and "spinning i p" and "cp_destroyer p = D_idle"
  shows "cp_inv p' \<and> spinning i p' \<and> cp_destroyer p' = D_idle \<and> cp_added p' = cp_added p \<and>
    cp_started p' = cp_started p"
proof -
  have nn: "\<not> cp_pool_null p" using assms(4) by (simp add: cp_inv_def)
  have step: "cp_alive_event b e p = Some p'" using assms(1) nn by (simp add: cp_event_def)
  have only: "holds_lock (cp_routines p ! j) \<longleftrightarrow> i = j" if "j < length (cp_routines p)" for j
    using assms(4,5) that by (auto simp: cp_inv_def lock_ok_def spinning_def)
  have eff: "spinning i p' \<and> cp_destroyer p' = D_idle \<and> cp_added p' = cp_added p \<and>
      cp_started p' = cp_started p \<and> cp_pool_null p' = cp_pool_null p"
  proof (cases e)
    case (Routine j)
    with step only [of j] assms(2,5,6) show ?thesis
      by (cases "cp_routines p ! j")
        (auto simp: cp_alive_event_def thread_routine_def spinning_def nth_list_update
          split: if_splits build.splits)
  next
    case (Spurious_wake j)
    with step assms(2,5,6) show ?thesis
      by (auto simp: cp_alive_event_def waiting_iff spinning_def nth_list_update split: if_splits)
  next
    case (Add_call j x)
    with step assms(2,5,6) show ?thesis
      by (auto simp: cp_alive_event_def spinning_def split: if_splits adder.splits)
  next
    case (Add_step j k)
    with step assms(2,5,6) show ?thesis
      by (cases "cp_adders p ! j")
        (auto simp: cp_alive_event_def pool_add_worker_step_def cond_signal_def waiting_iff
          spinning_def nth_list_update split: if_splits)
  next
    case Destroy_step
    with step assms(6) show ?thesis by (simp add: cp_alive_event_def pool_destory_step_def)
  qed (use assms(3) in simp)
  with cp_alive_event_inv [OF step assms(4)] nn show ?thesis by simp
qed

subsection \<open>The builds without DEBUG: does \<open>pool_destory\<close> return?\<close>

fun routine_left :: "'a routine \<Rightarrow> nat" where
  "routine_left T_lock = 3"
| "routine_left T_test = 2"
| "routine_left T_after = 1"
| "routine_left (T_run x) = 4"
| "routine_left _ = 0"

fun destroyer_left :: "nat \<Rightarrow> destroyer \<Rightarrow> nat" where
  "destroyer_left n D_broadcast = 2 * n + 3"
| "destroyer_left n (D_join i) = 2 * (n - i) + 2"
| "destroyer_left n (D_wait i) = 2 * (n - i) + 1"
| "destroyer_left n D_free = 1"
| "destroyer_left n _ = 0"

definition destroy_measure :: "'a cpool \<Rightarrow> nat" where
  "destroy_measure p = sum_list (map routine_left (cp_routines p)) +
     destroyer_left (nat (max_thread_num p)) (cp_destroyer p)"

text \<open>The workers that \<open>pool_destory\<close> has joined.\<close>

fun joined :: "nat \<Rightarrow> destroyer \<Rightarrow> nat" where
  "joined n (D_join i) = i"
| "joined n (D_wait i) = i"
| "joined n D_free = n"
| "joined n D_done = n"
| "joined n _ = 0"

fun waits :: "'a routine \<Rightarrow> bool" where
  "waits T_wait = True"
| "waits T_enter_wait = True"
| "waits _ = False"

text \<open>Without \<open>DEBUG\<close> no worker waits, and when the loop loads the variables none is caught in it.\<close>

definition pool_shape :: "build \<Rightarrow> 'a cpool \<Rightarrow> bool" where
  "pool_shape b p \<longleftrightarrow> (\<forall>t \<in> set (cp_routines p). \<not> waits t \<and> (b = Rereads \<longrightarrow> t \<noteq> T_spin)) \<and>
     nat (max_thread_num p) = length (cp_routines p) \<and> threadid p = Allocated"

definition closing :: "'a cpool \<Rightarrow> bool" where
  "closing p \<longleftrightarrow> lock_ok p \<and> shutdown p \<and>
     (\<forall>t \<in> set (cp_routines p). \<not> waits t \<and> t \<noteq> T_spin) \<and>
     nat (max_thread_num p) = length (cp_routines p) \<and> cp_destroyer p \<noteq> D_idle \<and>
     (\<forall>i. cp_destroyer p = D_wait i \<longrightarrow> i < length (cp_routines p)) \<and>
     (\<forall>j < length (cp_routines p). j < joined (length (cp_routines p)) (cp_destroyer p) \<longrightarrow>
       cp_routines p ! j = T_exited) \<and>
     (cp_pool_null p \<longleftrightarrow> cp_destroyer p = D_done) \<and>
     (cp_destroyer p \<noteq> D_done \<longrightarrow> threadid p = Allocated)"

fun pool_thread :: "'a cp_ev \<Rightarrow> bool" where
  "pool_thread (Routine i) = True"
| "pool_thread Destroy_step = True"
| "pool_thread _ = False"

lemma sum_left_update:
  "i < length xs \<Longrightarrow>
    sum_list (map f (xs[i := x])) + f (xs ! i) = sum_list (map f xs) + (f x :: nat)"
proof (induction xs arbitrary: i)
  case (Cons y ys)
  show ?case
  proof (cases i)
    case (Suc j)
    with Cons.prems Cons.IH [of j] show ?thesis by simp
  qed simp
qed simp

lemma map_woken_id: "\<forall>t \<in> set ts. t \<noteq> T_wait \<Longrightarrow> map woken ts = ts"
proof (induction ts)
  case (Cons t ts)
  then show ?case by (cases t) auto
qed simp

lemma no_waiting: "\<forall>t \<in> set (cp_routines p). \<not> waits t \<Longrightarrow> cp_waiting p = []"
  by (metis in_set_conv_nth last_in_set nth_mem waiting_iff waits.simps(1))

text \<open>Up to the call of \<open>pool_destory\<close>.\<close>

lemma routine_shape:
  assumes "thread_routine_at b i (cp_routines p ! i) p = Some p'" and "b \<noteq> Debug"
    and "pool_shape b p" and i: "i < length (cp_routines p)"
  shows "pool_shape b p'"
proof -
  have "\<exists>t. cp_routines p' = (cp_routines p)[i := t] \<and> \<not> waits t \<and> (b = Rereads \<longrightarrow> t \<noteq> T_spin) \<or>
      p' = p"
    if "\<not> waits (cp_routines p ! i)"
    using assms(1,2) that
    by (cases "cp_routines p ! i") (auto split: if_splits list.splits build.splits)
  moreover have "max_thread_num p' = max_thread_num p" "threadid p' = threadid p"
    using assms(1) by (cases "cp_routines p ! i"; auto split: if_splits list.splits)+
  moreover have "\<not> waits (cp_routines p ! i)" using assms(3) i by (simp add: pool_shape_def)
  ultimately show ?thesis
    using assms(3) set_update_subset_insert [of "cp_routines p" i]
    by (fastforce simp: pool_shape_def)
qed

lemma event_shape:
  assumes "cp_event b e p = Some p'" and "b \<noteq> Debug" and "\<not> cp_pool_null p'" and shape: "pool_shape b p"
  shows "pool_shape b p'"
proof -
  have step: "cp_alive_event b e p = Some p'" using assms(1) by (simp add: cp_event_def split: if_splits)
  have calm: "cp_waiting p = []" using shape by (intro no_waiting) (simp add: pool_shape_def)
  have wake: "map woken (cp_routines p) = cp_routines p"
    using shape by (intro map_woken_id) (auto simp: pool_shape_def)
  show ?thesis
  proof (cases e)
    case (Routine i)
    with step show ?thesis
      using routine_shape [OF _ assms(2) shape]
      by (auto simp: cp_alive_event_def thread_routine_def split: if_splits)
  next
    case (Spurious_wake i)
    with step calm show ?thesis by (simp add: cp_alive_event_def)
  next
    case (Add_call j x)
    with step shape show ?thesis
      by (auto simp: cp_alive_event_def pool_shape_def set_adder_def split: if_splits adder.splits)
  next
    case (Add_step j k)
    with step calm shape show ?thesis
      by (cases "cp_adders p ! j")
        (auto simp: cp_alive_event_def pool_add_worker_step_def cond_signal_def pool_shape_def
          set_adder_def split: if_splits)
  next
    case Destroy_call
    with step shape show ?thesis
      by (auto simp: cp_alive_event_def pool_destory_entry_def pool_shape_def split: if_splits)
  next
    case Destroy_step
    with step shape wake assms(3) show ?thesis
      by (cases "cp_destroyer p")
        (auto simp: cp_alive_event_def pool_destory_step_def pool_shape_def cond_broadcast_def Let_def
          split: if_splits routine.splits prod.splits)
  qed
qed

lemma started_shape: "0 \<le> n \<Longrightarrow> pool_shape b (started_pool n c)"
  by (simp add: started_pool_def start_pool_def ThreadPool_new_def pool_shape_def)

lemma cp_run_shape:
  assumes "cp_run b es (started_pool n c) = Some p" and "0 \<le> n" and "b \<noteq> Debug" and "\<not> cp_pool_null p"
  shows "pool_shape b p"
proof -
  have "cp_pool_null p \<or> pool_shape b p"
    by (rule cp_run_invariant [where P = "\<lambda>p. cp_pool_null p \<or> pool_shape b p", OF assms(1)])
      (use started_shape [OF assms(2)] event_shape [OF _ assms(3)] cp_event_def in
        \<open>metis option.distinct(1)\<close>)+
  with assms(4) show ?thesis by simp
qed

lemma max_thread_num_event:
  "cp_event b e p = Some p' \<Longrightarrow> length (cp_routines p') = length (cp_routines p)"
  by (cases e; cases "cp_destroyer p")
    (auto simp: cp_event_def cp_alive_event_def thread_routine_def set_routine_def set_adder_def
      pool_add_worker_step_def cond_signal_def pool_destory_entry_def pool_destory_step_def
      cond_broadcast_def Let_def
      split: if_splits adder.splits routine.splits prod.splits list.splits
      elim!: thread_routine_at.elims pool_add_worker_at.elims)

text \<open>The call makes the pool close.\<close>

lemma destroy_call_closes:
  assumes "cp_event Rereads Destroy_call p = Some p'" and "cp_inv p" and "pool_shape Rereads p"
  shows "closing p'" and "destroy_measure p' \<le> 6 * length (cp_routines p) + 3"
proof -
  have p': "p' = p\<lparr>shutdown := True, cp_destroyer := D_broadcast\<rparr>"
    using assms(1) by (auto simp: cp_event_def cp_alive_event_def pool_destory_entry_def split: if_splits)
  with assms(2,3) show "closing p'"
    by (auto simp: closing_def cp_inv_def lock_ok_def pool_shape_def)
  have "routine_left t \<le> 4" for t :: "'a routine" by (cases t) simp_all
  then have "sum_list (map routine_left ts) \<le> 4 * length ts" for ts :: "'a routine list"
    by (induction ts) (auto intro: add_mono)
  from this [of "cp_routines p"] assms(3) p'
  show "destroy_measure p' \<le> 6 * length (cp_routines p) + 3"
    by (simp add: destroy_measure_def pool_shape_def)
qed

lemma closing_routine:
  assumes step: "thread_routine_at Rereads i (cp_routines p ! i) p = Some p'"
    and i: "i < length (cp_routines p)" and c: "closing p"
  shows "closing p' \<and> destroy_measure p' < destroy_measure p"
proof -
  have lock: "lock_ok p'"
  proof (rule routine_lock_ok [OF step i])
    show "lock_ok p" "after_ok p" using c by (auto simp: closing_def after_ok_def)
  qed
  have now: "shutdown p" "\<not> waits (cp_routines p ! i)" "cp_routines p ! i \<noteq> T_spin"
    using c nth_mem [OF i] by (auto simp: closing_def)
  obtain t where t: "cp_routines p' = (cp_routines p)[i := t]" "routine_left t < routine_left (cp_routines p ! i)"
    "\<not> waits t" "t \<noteq> T_spin"
    and f: "shutdown p' = shutdown p" "max_thread_num p' = max_thread_num p"
      "cp_destroyer p' = cp_destroyer p" "cp_pool_null p' = cp_pool_null p"
    using step now by (cases "cp_routines p ! i") (auto split: if_splits list.splits)
  have "cp_routines p ! i \<noteq> T_exited" using step by (cases "cp_routines p ! i") auto
  moreover have "threadid p' = threadid p"
    using step by (cases "cp_routines p ! i") (auto split: if_splits list.splits)
  ultimately have "closing p'"
    using i c lock t f set_update_subset_insert [of "cp_routines p" i t]
    by (auto simp: closing_def nth_list_update)
  with sum_left_update [OF i, of routine_left t] t f show ?thesis
    by (simp add: destroy_measure_def)
qed

lemma closing_destroyer:
  assumes "pool_destory_at (cp_destroyer p) p = Some p'" and c: "closing p"
  shows "closing p' \<and> destroy_measure p' < destroy_measure p"
proof -
  have b: "map woken (cp_routines p) = cp_routines p"
    by (rule map_woken_id) (use c in \<open>auto simp: closing_def\<close>)
  with assms show ?thesis
    by (cases "cp_destroyer p")
      (auto simp: closing_def destroy_measure_def cond_broadcast_def lock_ok_def Let_def less_Suc_eq
        split: if_splits routine.splits prod.splits)
qed

lemma closing_event:
  assumes "cp_event Rereads e p = Some p'" and c: "closing p"
  shows "closing p' \<and> destroy_measure p' + (if pool_thread e then 1 else 0) \<le> destroy_measure p"
proof -
  have calm: "cp_waiting p = []" using c by (intro no_waiting) (simp add: closing_def)
  have step: "cp_alive_event Rereads e p = Some p'"
    using assms(1) by (simp add: cp_event_def split: if_splits)
  show ?thesis
  proof (cases e)
    case (Routine i)
    with step closing_routine [of i p p'] c show ?thesis
      by (auto simp: cp_alive_event_def thread_routine_def split: if_splits)
  next
    case (Spurious_wake i)
    with step calm show ?thesis by (simp add: cp_alive_event_def)
  next
    case (Add_call j x)
    with step c show ?thesis
      by (auto simp: cp_alive_event_def closing_def lock_ok_def destroy_measure_def
          split: if_splits adder.splits)
  next
    case (Add_step j k)
    with step calm c show ?thesis
      by (cases "cp_adders p ! j")
        (auto simp: cp_alive_event_def pool_add_worker_step_def cond_signal_def closing_def
          lock_ok_def destroy_measure_def set_adder_def split: if_splits)
  next
    case Destroy_call
    with step c show ?thesis
      by (auto simp: cp_alive_event_def pool_destory_entry_def closing_def split: if_splits)
  next
    case Destroy_step
    with step closing_destroyer [of p p'] c show ?thesis
      by (auto simp: cp_alive_event_def pool_destory_step_def)
  qed
qed

lemma closing_run:
  "cp_run Rereads es p = Some p' \<Longrightarrow> closing p \<Longrightarrow>
    closing p' \<and> length (filter pool_thread es) + destroy_measure p' \<le> destroy_measure p"
proof (induction es arbitrary: p)
  case (Cons e es)
  then obtain p1 where p1: "cp_event Rereads e p = Some p1" "cp_run Rereads es p1 = Some p'"
    by (auto split: option.splits)
  with Cons.IH [OF p1(2)] closing_event [OF p1(1) Cons.prems(2)] show ?case by auto
qed simp

lemma closing_routine_moves:
  assumes c: "closing p" and i: "i < length (cp_routines p)" and "cp_routines p ! i \<noteq> T_exited"
  shows "\<exists>j < length (cp_routines p). thread_routine_at Rereads j (cp_routines p ! j) p \<noteq> None"
proof (cases "queue_lock p")
  case None
  with c i have "\<not> holds_lock (cp_routines p ! i)" by (auto simp: closing_def lock_ok_def)
  with None assms nth_mem [OF i] show ?thesis
    by (cases "cp_routines p ! i") (auto simp: closing_def intro!: exI [of _ i])
next
  case (Some j)
  with c have j: "j < length (cp_routines p)" "holds_lock (cp_routines p ! j)"
    by (auto simp: closing_def lock_ok_def)
  with c nth_mem [OF j(1)] show ?thesis
    by (cases "cp_routines p ! j") (auto simp: closing_def intro!: exI [of _ j])
qed

lemma closing_quiet:
  assumes c: "closing p" and quiet: "\<forall>e. pool_thread e \<longrightarrow> cp_event Rereads e p = None"
  shows "cp_destroyer p = D_done"
proof (rule ccontr)
  assume d: "cp_destroyer p \<noteq> D_done"
  then have nn: "\<not> cp_pool_null p" using c by (simp add: closing_def)
  have "thread_routine Rereads j p = None" for j
    using quiet [rule_format, of "Routine j"] nn by (simp add: cp_event_def cp_alive_event_def)
  then have "thread_routine_at Rereads j (cp_routines p ! j) p = None" if "j < length (cp_routines p)" for j
    using that by (metis thread_routine_def)
  then have ex: "cp_routines p ! i = T_exited" if "i < length (cp_routines p)" for i
    using closing_routine_moves [OF c that] by (metis option.distinct(1))
  have "pool_destory_at (cp_destroyer p) p = None"
    using quiet [rule_format, of Destroy_step] nn
    by (simp add: cp_event_def cp_alive_event_def pool_destory_step_def)
  then show False using d c ex
    by (cases "cp_destroyer p") (auto simp: closing_def Let_def split: if_splits prod.splits)
qed

text \<open>A worker caught in the loop without loads keeps the mutex, and \<open>pool_destory\<close> never joins it.\<close>

definition stuck :: "nat \<Rightarrow> 'a cpool \<Rightarrow> bool" where
  "stuck i p \<longleftrightarrow> i < length (cp_routines p) \<and> cp_routines p ! i = T_spin \<and> queue_lock p = Some i \<and>
     nat (max_thread_num p) = length (cp_routines p) \<and> \<not> cp_pool_null p \<and> lock_ok p \<and>
     cp_destroyer p \<notin> {D_free, D_done} \<and> joined 0 (cp_destroyer p) \<le> i"

lemma stuck_event:
  assumes "cp_event b e p = Some p'" and s: "stuck i p" and inv: "cp_inv p"
  shows "stuck i p' \<and> cp_inv p' \<and> cp_added p' = cp_added p"
proof -
  have step: "cp_alive_event b e p = Some p'" using assms(1) by (simp add: cp_event_def split: if_splits)
  have only: "holds_lock (cp_routines p ! j) \<longleftrightarrow> i = j" if "j < length (cp_routines p)" for j
    using s that by (auto simp: lock_ok_def stuck_def)
  have eff: "cp_routines p' ! i = T_spin \<and> length (cp_routines p') = length (cp_routines p) \<and>
      queue_lock p' = Some i \<and> max_thread_num p' = max_thread_num p \<and> \<not> cp_pool_null p' \<and>
      cp_destroyer p' \<notin> {D_free, D_done} \<and> joined 0 (cp_destroyer p') \<le> i \<and> cp_added p' = cp_added p"
  proof (cases e)
    case (Routine j)
    with step only [of j] s show ?thesis
      by (cases "cp_routines p ! j")
        (auto simp: cp_alive_event_def thread_routine_def stuck_def nth_list_update split: if_splits)
  next
    case (Spurious_wake j)
    with step s show ?thesis
      by (auto simp: cp_alive_event_def waiting_iff stuck_def nth_list_update split: if_splits)
  next
    case (Add_call j x)
    with step s show ?thesis
      by (auto simp: cp_alive_event_def stuck_def split: if_splits adder.splits)
  next
    case (Add_step j k)
    with step s show ?thesis
      by (cases "cp_adders p ! j")
        (auto simp: cp_alive_event_def pool_add_worker_step_def cond_signal_def waiting_iff
          stuck_def nth_list_update split: if_splits)
  next
    case Destroy_call
    with step s show ?thesis
      by (auto simp: cp_alive_event_def pool_destory_entry_def stuck_def split: if_splits)
  next
    case Destroy_step
    with step s show ?thesis
      by (cases "cp_destroyer p")
        (auto simp: cp_alive_event_def pool_destory_step_def stuck_def cond_broadcast_def
          le_less Suc_le_eq split: if_splits routine.splits)
  qed
  then have "cp_inv p'" using cp_alive_event_inv [OF step inv] by blast
  with eff s show ?thesis by (auto simp: stuck_def cp_inv_def)
qed

subsection \<open>The messages left at the end\<close>

lemma free_loop_append: "free_loop i q = (f, l) \<Longrightarrow> f @ l = q"
  by (induction q arbitrary: i f l) (auto split: if_splits prod.splits)

lemma free_loop_length:
  "free_loop i q = (f, l) \<Longrightarrow> i \<le> length q \<Longrightarrow> length f = (length q - i + 1) div 2"
proof (induction q arbitrary: i f l)
  case (Cons m q)
  show ?case
  proof (cases "i < Suc (length q)")
    case True
    with Cons.prems obtain f1 where f1: "free_loop (Suc i) q = (f1, l)" "f = m # f1"
      by (auto split: prod.splits)
    show ?thesis
    proof (cases "Suc i \<le> length q")
      case True
      with Cons.IH [OF f1(1)] f1(2) show ?thesis by simp
    next
      case False
      with True have i: "i = length q" by simp
      with f1(1) have "f1 = []" by (cases q) (auto split: if_splits)
      with f1(2) i show ?thesis by simp
    qed
  next
    case False
    with Cons.prems have "i = length (m # q)" "f = []" by auto
    then show ?thesis by simp
  qed
qed simp

subsection \<open>Properties\<close>

text \<open>
  C25: in every build and under every interleaving, as long as a pool that was started once, with nothing
  added before, exists, the count is the length of the queue, messages are taken in the order they
  were added, and each message taken is finished once or running in exactly one worker.
\<close>

theorem cpool_messages:
  assumes "cp_run b es (started_pool n c) = Some p" and "0 \<le> n" and "\<not> cp_pool_null p"
  shows "cur_queue_size p = int (length (queue_b p)) \<and> cp_added p = cp_started p @ queue_b p \<and>
    mset (cp_started p) = mset (cp_finished p) + mset (concat (map running (cp_routines p)))"
  using cp_run_inv [OF assms] by (simp add: cp_inv_def fifo_ok_def)

text \<open>The mutex works, in every build. At most one worker is between lock and unlock, and a worker
  that has left the wait loop sees the shutdown flag or a non-empty queue; so no worker pops an empty
  queue, and none goes back to the lock with the mutex still held.
\<close>

theorem cpool_mutual_exclusion:
  assumes "cp_run b es (started_pool n c) = Some p" and "0 \<le> n" and "\<not> cp_pool_null p"
    and "i < length (cp_routines p)" and "holds_lock (cp_routines p ! i)"
  shows "(\<forall>j < length (cp_routines p). holds_lock (cp_routines p ! j) \<longrightarrow> j = i) \<and>
    (cp_routines p ! i = T_after \<longrightarrow> shutdown p \<or> queue_b p \<noteq> [])"
  using cp_run_inv [OF assms(1,2,3)] assms(4,5)
  by (auto simp: cp_inv_def lock_ok_def after_ok_def fifo_ok_def)

text \<open>
  C26: without \<open>DEBUG\<close> the pool livelocks. Once a worker has found the queue empty it spins with the
  mutex held: until somebody calls \<open>pool_destory\<close>, no message is ever added or started again,
  whatever clients and workers do.
\<close>

theorem cpool_release_livelock:
  assumes "cp_run b es0 (started_pool n c) = Some p" and "0 \<le> n" and "b \<noteq> Debug" and "spinning i p"
    and "cp_destroyer p = D_idle" and "\<not> cp_pool_null p"
    and "cp_run b es p = Some p'" and "Destroy_call \<notin> set es"
  shows "spinning i p' \<and> cp_added p' = cp_added p \<and> cp_started p' = cp_started p"
proof -
  let ?P = "\<lambda>q. cp_inv q \<and> spinning i q \<and> cp_destroyer q = D_idle \<and> cp_added q = cp_added p \<and>
    cp_started q = cp_started p"
  have "?P p'"
  proof (rule cp_run_invariant [where P = ?P, OF assms(7)])
    show "?P p" using cp_run_inv [OF assms(1,2,6)] assms(4,5) by simp
    fix e q q'
    assume "e \<in> set es" "cp_event b e q = Some q'" "?P q"
    with assms(8) spinning_event [OF _ assms(3), of e q q' i] show "?P q'" by auto
  qed
  then show ?thesis by simp
qed

text \<open>
  C27: without \<open>DEBUG\<close>, whether \<open>pool_destory\<close> returns is up to the compiler. After a call of it, at any
  moment of any run of a started pool with \<open>n\<close> workers: if the empty loop loads the variables in every
  round, workers and \<open>pool_destory\<close> together make at most \<open>6 n + 3\<close> more steps, whatever clients do,
  and where they can go no further \<open>pool_destory\<close> has joined every worker, freed the pool and returned.
  If the loads were moved in front of the loop and a worker is in it, that worker keeps the mutex for
  ever and \<open>pool_destory\<close> never returns, nor does any message get in.
\<close>

theorem cpool_destory_terminates:
  assumes "cp_run b es0 (started_pool n c) = Some p0" and "0 \<le> n"
    and "cp_event b Destroy_call p0 = Some p" and "cp_run b es p = Some p'"
  shows "(b = Rereads \<longrightarrow> length (filter pool_thread es) \<le> 6 * nat n + 3 \<and>
      ((\<forall>e. pool_thread e \<longrightarrow> cp_event b e p' = None) \<longrightarrow>
        cp_destroyer p' = D_done \<and> cp_pool_null p' \<and> (\<forall>t \<in> set (cp_routines p'). t = T_exited))) \<and>
    (b = Hoists \<and> i < nat n \<and> cp_routines p0 ! i = T_spin \<longrightarrow> cp_destroyer p' \<noteq> D_done \<and>
      cp_routines p' ! i = T_spin \<and> queue_lock p' = Some i \<and> cp_added p' = cp_added p)"
proof -
  have nn: "\<not> cp_pool_null p0" using assms(3) by (auto simp: cp_event_def split: if_splits)
  note inv = cp_run_inv [OF assms(1,2) nn]
  have n: "length (cp_routines p0) = nat n"
    by (rule cp_run_invariant [where P = "\<lambda>q. length (cp_routines q) = nat n", OF assms(1)])
      (use assms(2) in \<open>auto simp: started_pool_def start_pool_def ThreadPool_new_def max_thread_num_event\<close>)
  show ?thesis
  proof (intro conjI impI)
    assume b: "b = Rereads"
    note closes = destroy_call_closes [OF assms(3) [unfolded b] inv cp_run_shape [OF assms(1,2) _ nn, unfolded b]]
    note run = closing_run [OF assms(4) [unfolded b] closes(1)]
    show "length (filter pool_thread es) \<le> 6 * nat n + 3" using run closes(2) n by simp
    assume "\<forall>e. pool_thread e \<longrightarrow> cp_event b e p' = None"
    then have ended: "cp_destroyer p' = D_done" using closing_quiet [of p'] run b by blast
    with run show "cp_pool_null p'" by (simp add: closing_def)
    from ended run show "\<forall>t \<in> set (cp_routines p'). t = T_exited"
      by (auto simp: closing_def in_set_conv_nth)
    show "cp_destroyer p' = D_done" by (rule ended)
  next
    assume h: "b = Hoists \<and> i < nat n \<and> cp_routines p0 ! i = T_spin"
    have shape: "pool_shape b p0" using cp_run_shape [OF assms(1,2) _ nn] h by simp
    have p: "p = p0\<lparr>shutdown := True, cp_destroyer := D_broadcast\<rparr>"
      using assms(3) by (auto simp: cp_event_def cp_alive_event_def pool_destory_entry_def split: if_splits)
    have "holds_lock (cp_routines p0 ! i)" using h by simp
    then have "queue_lock p0 = Some i"
      using inv conjunct1 [OF conjunct2 [OF h]] unfolding n [symmetric] cp_inv_def lock_ok_def by blast
    then have start: "stuck i p \<and> cp_inv p \<and> cp_added p = cp_added p"
      using h n shape inv nn
      by (auto simp: p stuck_def pool_shape_def cp_inv_def lock_ok_def after_ok_def fifo_ok_def)
    have "stuck i p' \<and> cp_inv p' \<and> cp_added p' = cp_added p"
      by (rule cp_run_invariant [where P = "\<lambda>q. stuck i q \<and> cp_inv q \<and> cp_added q = cp_added p", OF assms(4)])
        (use start in \<open>blast intro: trans dest: stuck_event\<close>)+
    then show "cp_destroyer p' \<noteq> D_done" "cp_routines p' ! i = T_spin" "queue_lock p' = Some i"
      "cp_added p' = cp_added p"
      by (simp_all add: stuck_def)
  qed
qed

text \<open>
  C28: \<open>pool_destory\<close> leaks half of the messages still queued. Its loop compares a growing index with
  a shrinking size, so of \<open>k\<close> messages it deletes \<open>(k + 1) div 2\<close>, the first ones, and the other
  \<open>k div 2\<close> are lost with the queue. A second call of \<open>pool_destory\<close> dereferences null, and the destructor
  deletes the thread array a second time.
\<close>

theorem cpool_destory_leaks:
  assumes "threadid p = Allocated"
  shows "\<exists>p'. pool_destory_at D_free p = Some p' \<and> cp_freed p' @ cp_leaked p' = queue_b p \<and>
    length (cp_freed p') = (length (queue_b p) + 1) div 2 \<and>
    length (cp_leaked p') = length (queue_b p) div 2 \<and>
    pool_destory_entry p' = Inl Null_deref \<and> ThreadPool_dtor p' = Inl Dangling"
proof -
  obtain f l where fl: "free_loop 0 (queue_b p) = (f, l)" by (cases "free_loop 0 (queue_b p)")
  have "length f + length l = length (queue_b p)"
    using free_loop_append [OF fl] by (metis length_append)
  moreover have "length f = (length (queue_b p) + 1) div 2" using free_loop_length [OF fl] by simp
  ultimately have "length l = length (queue_b p) div 2" by linarith
  with assms fl free_loop_append [OF fl] free_loop_length [OF fl] show ?thesis
    by (auto simp: pool_destory_entry_def ThreadPool_dtor_def)
qed

text \<open>Two more ways for messages and threads to be left behind. \<open>start\<close> resets the count but not the
  queue, so a message added before \<open>start\<close> is never run: the worker waits beside it (\<open>DEBUG\<close>). And
  \<open>pool_destory\<close> raises the flag without the mutex, so a worker between its test and its wait misses
  every broadcast, and the join waits for a worker that nothing will wake but a spurious wake-up.
\<close>

theorem cpool_left_behind:
  "ends_in (cp_run Debug [Add_call 0 x, Add_step 0 0, Add_step 0 0] (ThreadPool_new 1))
    (\<lambda>p. case start_pool 1 p of Inl e \<Rightarrow> False | Inr p' \<Rightarrow>
      ends_in (cp_run Debug [Routine 0, Routine 0, Routine 0] p')
        (\<lambda>p''. cp_routines p'' = [T_wait] \<and> queue_b p'' = [x])) \<and>
   ends_in (cp_run Debug [Routine 0, Routine 0, Destroy_call, Destroy_step, Destroy_step, Routine 0]
      (started_pool 1 0))
    (\<lambda>p. cp_routines p = [T_wait] \<and> cp_destroyer p = D_wait 0 \<and> shutdown p)"
  by (simp add: cp_defs cp_event_def cp_alive_event_def started_pool_def start_pool_def
      ThreadPool_new_def)

subsection \<open>Witnesses\<close>

lemmas cp_eval = cp_defs cp_event_def cp_alive_event_def started_pool_def start_pool_def
  ThreadPool_new_def

definition cp_demo :: "nat cpool option" where
  "cp_demo = cp_run Debug [Routine 0, Routine 0, Routine 0, Add_call 0 7, Add_step 0 0, Add_step 0 0,
     Add_call 0 8, Add_step 0 0, Routine 0, Routine 0] (started_pool 1 1)"

lemma cp_demo_ends: "ends_in cp_demo (\<lambda>p. \<not> cp_pool_null p \<and> cp_routines p = [T_after] \<and>
    cp_added p = [7, 8])"
  by (simp add: cp_demo_def cp_eval)

theorem cpool_messages_witness:
  "ends_in cp_demo (\<lambda>p. cp_added p = [7, 8] \<and> cur_queue_size p = int (length (queue_b p)) \<and>
    cp_added p = cp_started p @ queue_b p \<and>
    mset (cp_started p) = mset (cp_finished p) + mset (concat (map running (cp_routines p))))"
proof -
  obtain p where p: "cp_demo = Some p" "\<not> cp_pool_null p" "cp_added p = [7, 8]"
    using cp_demo_ends unfolding ends_in_iff by blast
  from cpool_messages [OF p(1) [unfolded cp_demo_def]] p(2,3) show ?thesis by (simp add: p(1))
qed

theorem cpool_mutual_exclusion_witness:
  "ends_in cp_demo (\<lambda>p. cp_routines p ! 0 = T_after \<and>
    (\<forall>j < length (cp_routines p). holds_lock (cp_routines p ! j) \<longrightarrow> j = 0) \<and>
    (cp_routines p ! 0 = T_after \<longrightarrow> shutdown p \<or> queue_b p \<noteq> []))"
proof -
  obtain p where p: "cp_demo = Some p" "\<not> cp_pool_null p" "cp_routines p = [T_after]"
    using cp_demo_ends unfolding ends_in_iff by blast
  from cpool_mutual_exclusion [OF p(1) [unfolded cp_demo_def], of 0] p(2,3) show ?thesis
    by (simp add: p(1))
qed

definition spin_demo :: "nat cpool option" where
  "spin_demo = cp_run Rereads [Routine 0, Routine 0, Add_call 0 7] (started_pool 2 1)"

theorem cpool_release_livelock_witness:
  "ends_in spin_demo (\<lambda>p. ends_in (cp_run Rereads [Routine 0, Routine 0, Routine 0] p) (\<lambda>p'.
    cp_adders p = [A_lock 7] \<and> spinning 0 p' \<and> cp_added p' = [] \<and> cp_started p' = []))"
proof -
  have "ends_in spin_demo (\<lambda>p. spinning 0 p \<and> cp_destroyer p = D_idle \<and> \<not> cp_pool_null p \<and>
      cp_adders p = [A_lock 7] \<and> cp_added p = [] \<and> cp_started p = [] \<and>
      ends_in (cp_run Rereads [Routine 0, Routine 0, Routine 0] p) (\<lambda>p'. True))"
    by (simp add: spin_demo_def cp_eval spinning_def numeral_2_eq_2)
  then obtain p p' where p: "spin_demo = Some p" "spinning 0 p" "cp_destroyer p = D_idle"
    "\<not> cp_pool_null p" "cp_run Rereads [Routine 0, Routine 0, Routine 0] p = Some p'"
    "cp_adders p = [A_lock 7]" "cp_added p = []" "cp_started p = []"
    unfolding ends_in_iff by blast
  from cpool_release_livelock [OF p(1) [unfolded spin_demo_def] _ _ p(2,3,4,5)] p(6,7,8)
  show ?thesis by (simp add: p(1,5) del: cp_run.simps)
qed

definition close_demo :: "build \<Rightarrow> nat cpool option" where
  "close_demo b = cp_run b [Routine 0, Routine 0] (started_pool 1 0)"

abbreviation close_steps :: "nat cp_ev list" where
  "close_steps \<equiv> [Destroy_step, Destroy_step, Routine 0, Routine 0, Destroy_step, Destroy_step, Destroy_step]"

theorem cpool_destory_terminates_witness:
  "ends_in (close_demo Rereads) (\<lambda>p0. ends_in (cp_event Rereads Destroy_call p0) (\<lambda>p.
     ends_in (cp_run Rereads close_steps p) (\<lambda>p'. cp_destroyer p' = D_done \<and> cp_routines p' = [T_exited]))) \<and>
   ends_in (close_demo Hoists) (\<lambda>p0. ends_in (cp_event Hoists Destroy_call p0) (\<lambda>p.
     ends_in (cp_run Hoists [Destroy_step, Destroy_step, Routine 0] p) (\<lambda>p'.
       cp_destroyer p' \<noteq> D_done \<and> queue_lock p' = Some 0)))"
proof (rule conjI)
  have "ends_in (close_demo Rereads) (\<lambda>p0. ends_in (cp_event Rereads Destroy_call p0) (\<lambda>p.
      ends_in (cp_run Rereads close_steps p) (\<lambda>p'. cp_pool_null p' \<and> length (cp_routines p') = 1)))"
    by (simp add: close_demo_def cp_eval)
  then obtain p0 p p' where p: "close_demo Rereads = Some p0" "cp_event Rereads Destroy_call p0 = Some p"
    "cp_run Rereads close_steps p = Some p'" "cp_pool_null p'" "length (cp_routines p') = 1"
    unfolding ends_in_iff by blast
  have "cp_event Rereads e p' = None" for e using p(4) by (simp add: cp_event_def)
  with cpool_destory_terminates [OF p(1) [unfolded close_demo_def] _ p(2,3)] p(5)
  show "ends_in (close_demo Rereads) (\<lambda>p0. ends_in (cp_event Rereads Destroy_call p0) (\<lambda>p.
      ends_in (cp_run Rereads close_steps p) (\<lambda>p'. cp_destroyer p' = D_done \<and> cp_routines p' = [T_exited])))"
    by (auto simp: p(1,2,3) length_Suc_conv simp del: cp_run.simps)
next
  let ?es = "[Destroy_step, Destroy_step, Routine 0]"
  have "ends_in (close_demo Hoists) (\<lambda>p0. cp_routines p0 ! 0 = T_spin \<and>
      ends_in (cp_event Hoists Destroy_call p0) (\<lambda>p. ends_in (cp_run Hoists ?es p) (\<lambda>p'. True)))"
    by (simp add: close_demo_def cp_eval)
  then obtain p0 p p' where p: "close_demo Hoists = Some p0" "cp_event Hoists Destroy_call p0 = Some p"
    "cp_run Hoists ?es p = Some p'" "cp_routines p0 ! 0 = T_spin"
    unfolding ends_in_iff by blast
  from cpool_destory_terminates [OF p(1) [unfolded close_demo_def] _ p(2,3), of 0] p(4)
  show "ends_in (close_demo Hoists) (\<lambda>p0. ends_in (cp_event Hoists Destroy_call p0) (\<lambda>p.
      ends_in (cp_run Hoists ?es p) (\<lambda>p'. cp_destroyer p' \<noteq> D_done \<and> queue_lock p' = Some 0)))"
    by (simp add: p(1,2,3) del: cp_run.simps)
qed

theorem cpool_destory_leaks_witness:
  "ends_in (pool_destory_at D_free ((started_pool 1 0)\<lparr>queue_b := [7, 8, 9 :: nat]\<rparr>))
    (\<lambda>p. length (cp_leaked p) = 1)"
proof -
  have "threadid ((started_pool 1 0)\<lparr>queue_b := [7, 8, 9 :: nat]\<rparr>) = Allocated" by (simp add: cp_eval)
  from cpool_destory_leaks [OF this] show ?thesis
    unfolding ends_in_iff by (auto simp del: pool_destory_at.simps)
qed

end
