(* ===== verification/Conn_Pool.thy ===== *)
theory Conn_Pool
  imports Leano_Prelude "HOL-Library.Signed_Division"
begin

section \<open>The database connection pool (src/connection_pool.cpp)\<close>

text \<open>
  \<open>ConnPool\<close> keeps a list of idle connections and the number of connections that exist, idle or
  handed out. The MySQL driver is not part of the program: what its calls do is a parameter.
  \<open>drv n\<close> is the outcome of the \<open>n\<close>-th \<open>driver->connect\<close>, and a connection is named by the number
  of the call that made it; \<open>cl c\<close> is the outcome of \<open>c->isClosed()\<close> and \<open>closing c\<close> that of
  \<open>c->close()\<close>. \<open>cn_live\<close> is the set of connection objects not deleted. Every operation runs
  under the mutex from beginning to end, so operations of several threads form a sequence; an
  operation that leaves by an exception leaves the mutex locked (\<open>cn_locked\<close>), and the next one
  blocks for ever (\<open>Lock_held\<close>). An operation returns the state and its result or fault.
\<close>

datatype connect_result =
    Connect_ok | Connect_null | Connect_sql_error | Connect_runtime_error | Connect_other

datatype closed_result = Is_open | Is_closed | Closed_throws

datatype close_result = Close_ok | Close_sql_error | Close_exception | Close_other

record conn_pool =
  curSize :: int
  maxSize :: int
  username :: string
  password :: string
  url :: string
  connList :: "nat list"
  cn_driver :: bool
  cn_locked :: bool
  cn_next :: nat
  cn_live :: "nat set"

type_synonym 'a pool_result = "conn_pool \<times> 'a res"

definition CreateConnection ::
  "(nat \<Rightarrow> connect_result) \<Rightarrow> conn_pool \<Rightarrow> nat option pool_result" where
  "CreateConnection drv p =
     (if \<not> cn_driver p then (p, Inl Dangling)
      else
        (let n = cn_next p; p' = p\<lparr>cn_next := Suc n\<rparr>
         in case drv n of
              Connect_ok \<Rightarrow> (p'\<lparr>cn_live := insert n (cn_live p)\<rparr>, Inr (Some n))
            | Connect_null \<Rightarrow> (p', Inr None)
            | Connect_sql_error \<Rightarrow> (p', Inr None)
            | Connect_runtime_error \<Rightarrow> (p', Inr None)
            | Connect_other \<Rightarrow> (p', Inl Uncaught)))"

fun init_loop :: "(nat \<Rightarrow> connect_result) \<Rightarrow> nat \<Rightarrow> conn_pool \<Rightarrow> unit pool_result" where
  "init_loop drv 0 p = (p, Inr ())"
| "init_loop drv (Suc k) p =
     (case CreateConnection drv p of
        (p', Inl e) \<Rightarrow> (p', Inl e)
      | (p', Inr (Some c)) \<Rightarrow>
          init_loop drv k (p'\<lparr>connList := connList p' @ [c], curSize := curSize p' + 1\<rparr>)
      | (p', Inr None) \<Rightarrow> init_loop drv k p')"

definition InitConnection ::
  "(nat \<Rightarrow> connect_result) \<Rightarrow> int \<Rightarrow> conn_pool \<Rightarrow> unit pool_result" where
  "InitConnection drv iInitialSize p =
     (if cn_locked p then (p, Inl Lock_held)
      else
        (case init_loop drv (nat iInitialSize) (p\<lparr>cn_locked := True\<rparr>) of
           (p', Inr u) \<Rightarrow> (p'\<lparr>cn_locked := False\<rparr>, Inr u)
         | (p', Inl e) \<Rightarrow> (p', Inl e)))"

text \<open>
  The constructor. \<open>maxSize / 2\<close> truncates towards zero; when \<open>get_driver_instance\<close> throws, the
  member \<open>driver\<close> is left unset.
\<close>

definition ConnPool_ctor ::
  "(nat \<Rightarrow> connect_result) \<Rightarrow> bool \<Rightarrow> string \<Rightarrow> string \<Rightarrow> string \<Rightarrow> int \<Rightarrow> unit pool_result" where
  "ConnPool_ctor drv driver_ok u user pwd maxS =
     InitConnection drv (maxS sdiv 2)
       \<lparr>curSize = 0, maxSize = maxS, username = user, password = pwd, url = u, connList = [],
        cn_driver = driver_ok, cn_locked = False, cn_next = 0, cn_live = {}\<rparr>"

definition unlock_pool :: "conn_pool \<Rightarrow> conn_pool" where
  "unlock_pool p = p\<lparr>cn_locked := False\<rparr>"

definition GetConnection ::
  "(nat \<Rightarrow> connect_result) \<Rightarrow> (nat \<Rightarrow> closed_result) \<Rightarrow> conn_pool \<Rightarrow> nat option pool_result" where
  "GetConnection drv cl p =
     (if cn_locked p then (p, Inl Lock_held)
      else
        (let p = p\<lparr>cn_locked := True\<rparr>
         in case connList p of
              con # rest \<Rightarrow>
                (let p = p\<lparr>connList := rest\<rparr>
                 in if con \<notin> cn_live p then (p, Inl Dangling)
                    else case cl con of
                      Closed_throws \<Rightarrow> (p, Inl Uncaught)
                    | Is_open \<Rightarrow> (unlock_pool p, Inr (Some con))
                    | Is_closed \<Rightarrow>
                        (case CreateConnection drv (p\<lparr>cn_live := cn_live p - {con}\<rparr>) of
                           (p, Inl e) \<Rightarrow> (p, Inl e)
                         | (p, Inr None) \<Rightarrow> (unlock_pool (p\<lparr>curSize := curSize p - 1\<rparr>), Inr None)
                         | (p, Inr (Some con')) \<Rightarrow> (unlock_pool p, Inr (Some con'))))
            | [] \<Rightarrow>
                if curSize p < maxSize p then
                  (case CreateConnection drv p of
                     (p, Inl e) \<Rightarrow> (p, Inl e)
                   | (p, Inr (Some con)) \<Rightarrow>
                       (unlock_pool (p\<lparr>curSize := curSize p + 1\<rparr>), Inr (Some con))
                   | (p, Inr None) \<Rightarrow> (unlock_pool p, Inr None))
                else (unlock_pool p, Inr None)))"

definition ReleaseConnection :: "nat option \<Rightarrow> conn_pool \<Rightarrow> unit pool_result" where
  "ReleaseConnection conn p =
     (case conn of
        None \<Rightarrow> (p, Inr ())
      | Some c \<Rightarrow>
          if cn_locked p then (p, Inl Lock_held)
          else (p\<lparr>connList := connList p @ [c]\<rparr>, Inr ()))"

text \<open>
  \<open>DestoryConnection\<close> deletes the connection when \<open>close\<close> returns or throws a
  \<open>std::exception\<close> (an \<open>sql::SQLException\<close> is one); any other exception leaves it.
\<close>

definition DestoryConnection ::
  "(nat \<Rightarrow> close_result) \<Rightarrow> nat option \<Rightarrow> conn_pool \<Rightarrow> unit pool_result" where
  "DestoryConnection closing conn p =
     (case conn of
        None \<Rightarrow> (p, Inr ())
      | Some c \<Rightarrow>
          if c \<notin> cn_live p then (p, Inl Dangling)
          else
            (case closing c of
               Close_ok \<Rightarrow> (p\<lparr>cn_live := cn_live p - {c}\<rparr>, Inr ())
             | Close_sql_error \<Rightarrow> (p\<lparr>cn_live := cn_live p - {c}\<rparr>, Inr ())
             | Close_exception \<Rightarrow> (p\<lparr>cn_live := cn_live p - {c}\<rparr>, Inr ())
             | Close_other \<Rightarrow> (p, Inl Uncaught)))"

fun destory_loop ::
  "(nat \<Rightarrow> close_result) \<Rightarrow> nat list \<Rightarrow> conn_pool \<Rightarrow> unit pool_result" where
  "destory_loop closing [] p = (p, Inr ())"
| "destory_loop closing (c # cs) p =
     (case DestoryConnection closing (Some c) p of
        (p', Inl e) \<Rightarrow> (p', Inl e)
      | (p', Inr _) \<Rightarrow> destory_loop closing cs p')"

definition DestoryConnPool :: "(nat \<Rightarrow> close_result) \<Rightarrow> conn_pool \<Rightarrow> unit pool_result" where
  "DestoryConnPool closing p =
     (if cn_locked p then (p, Inl Lock_held)
      else
        (case destory_loop closing (connList p) (p\<lparr>cn_locked := True\<rparr>) of
           (p', Inl e) \<Rightarrow> (p', Inl e)
         | (p', Inr u) \<Rightarrow> (unlock_pool (p'\<lparr>curSize := 0, connList := []\<rparr>), Inr ())))"

text \<open>The singleton: the arguments count on the first call only.\<close>

definition GetInstance ::
  "(nat \<Rightarrow> connect_result) \<Rightarrow> bool \<Rightarrow> int \<Rightarrow> string \<Rightarrow> string \<Rightarrow> string \<Rightarrow> conn_pool option \<Rightarrow>
   conn_pool option \<times> conn_pool res" where
  "GetInstance drv driver_ok maxS u user pwd inst =
     (case inst of
        Some p \<Rightarrow> (inst, Inr p)
      | None \<Rightarrow>
          (case ConnPool_ctor drv driver_ok u user pwd maxS of
             (p, Inr _) \<Rightarrow> (Some p, Inr p)
           | (p, Inl e) \<Rightarrow> (None, Inl e)))"

subsection \<open>Clients\<close>

text \<open>
  Clients get connections and give back only connections they hold. \<open>held\<close> lists the connections
  handed out. An event that faults has no successor.
\<close>

datatype conn_ev = Get "nat \<Rightarrow> closed_result" | Release nat

fun client_step ::
  "(nat \<Rightarrow> connect_result) \<Rightarrow> conn_ev \<Rightarrow> conn_pool \<times> nat list \<Rightarrow> (conn_pool \<times> nat list) option" where
  "client_step drv (Get cl) (p, held) =
     (case GetConnection drv cl p of
        (p', Inr (Some c)) \<Rightarrow> Some (p', c # held)
      | (p', Inr None) \<Rightarrow> Some (p', held)
      | (p', Inl e) \<Rightarrow> None)"
| "client_step drv (Release c) (p, held) =
     (if c \<in> set held then
        (case ReleaseConnection (Some c) p of
           (p', Inr _) \<Rightarrow> Some (p', remove1 c held)
         | (p', Inl e) \<Rightarrow> None)
      else None)"

fun client_run ::
  "(nat \<Rightarrow> connect_result) \<Rightarrow> conn_ev list \<Rightarrow> conn_pool \<times> nat list \<Rightarrow>
   (conn_pool \<times> nat list) option" where
  "client_run drv [] s = Some s"
| "client_run drv (e # es) s =
     (case client_step drv e s of None \<Rightarrow> None | Some s' \<Rightarrow> client_run drv es s')"

subsection \<open>The invariant\<close>

text \<open>
  Every connection that exists is idle or held, once; \<open>curSize\<close> counts them; there are never more
  than \<open>maxSize\<close>. Between operations the mutex is free.
\<close>

definition conn_inv :: "conn_pool \<times> nat list \<Rightarrow> bool" where
  "conn_inv s \<longleftrightarrow> (case s of (p, held) \<Rightarrow>
     distinct (connList p @ held) \<and> cn_live p = set (connList p @ held) \<and>
     curSize p = int (length (connList p) + length held) \<and>
     curSize p \<le> max 0 (maxSize p) \<and> (\<forall>c \<in> cn_live p. c < cn_next p) \<and> \<not> cn_locked p)"

lemma conn_invI:
  "distinct (connList p @ held) \<Longrightarrow> cn_live p = set (connList p @ held) \<Longrightarrow>
    curSize p = int (length (connList p) + length held) \<Longrightarrow> curSize p \<le> max 0 (maxSize p) \<Longrightarrow>
    (\<forall>c \<in> cn_live p. c < cn_next p) \<Longrightarrow> \<not> cn_locked p \<Longrightarrow> conn_inv (p, held)"
  by (simp add: conn_inv_def)

lemma CreateConnection_cases:
  "CreateConnection drv p = (p', r) \<Longrightarrow> r = Inr x \<Longrightarrow>
    (x = Some (cn_next p) \<and> drv (cn_next p) = Connect_ok \<and>
      p' = p\<lparr>cn_next := Suc (cn_next p), cn_live := insert (cn_next p) (cn_live p)\<rparr>) \<or>
    (x = None \<and> drv (cn_next p) \<noteq> Connect_ok \<and> p' = p\<lparr>cn_next := Suc (cn_next p)\<rparr>)"
  by (auto simp: CreateConnection_def Let_def split: if_splits connect_result.splits)

lemma GetConnection_inv:
  assumes get: "GetConnection drv cl p = (p', Inr r)" and inv: "conn_inv (p, held)"
  shows "conn_inv (p', (case r of None \<Rightarrow> held | Some c \<Rightarrow> c # held))"
proof (cases "connList p")
  case Nil
  with get inv show ?thesis
    by (auto simp: GetConnection_def Let_def conn_inv_def unlock_pool_def less_Suc_eq
        dest!: CreateConnection_cases
        split: if_splits prod.splits sum.splits option.splits)
next
  case (Cons c rest)
  with get inv show ?thesis
    by (auto simp: GetConnection_def Let_def conn_inv_def unlock_pool_def less_Suc_eq
        dest!: CreateConnection_cases
        split: if_splits prod.splits sum.splits option.splits closed_result.splits)
qed

lemma ReleaseConnection_inv:
  assumes "c \<in> set held" and "conn_inv (p, held)"
    and "ReleaseConnection (Some c) p = (p', Inr u)"
  shows "conn_inv (p', remove1 c held)"
proof -
  from assms(1) obtain n where "length held = Suc n"
    by (metis length_pos_if_in_set gr0_implies_Suc)
  with assms show ?thesis
    by (auto simp: ReleaseConnection_def conn_inv_def length_remove1 set_remove1_eq
        split: if_splits)
qed

lemma client_step_inv: "client_step drv e s = Some s' \<Longrightarrow> conn_inv s \<Longrightarrow> conn_inv s'"
proof (cases e)
  case (Get cl)
  obtain p held where s: "s = (p, held)" by (cases s)
  assume "client_step drv e s = Some s'" "conn_inv s"
  with Get s GetConnection_inv [of drv cl p _ _ held] show ?thesis
    by (fastforce split: prod.splits sum.splits option.splits)
next
  case (Release c)
  obtain p held where s: "s = (p, held)" by (cases s)
  assume "client_step drv e s = Some s'" "conn_inv s"
  with Release s ReleaseConnection_inv [of c held p] show ?thesis
    by (auto split: prod.splits sum.splits if_splits)
qed

lemma client_run_inv: "client_run drv es s = Some s' \<Longrightarrow> conn_inv s \<Longrightarrow> conn_inv s'"
  by (induction es arbitrary: s) (auto split: option.splits dest: client_step_inv)

text \<open>While the constructor runs, the connections that exist are the idle ones.\<close>

definition all_idle :: "conn_pool \<Rightarrow> bool" where
  "all_idle p \<longleftrightarrow> distinct (connList p) \<and> cn_live p = set (connList p) \<and>
     curSize p = int (length (connList p)) \<and> (\<forall>c \<in> cn_live p. c < cn_next p)"

lemma ConnPool_ctor_split:
  "init_loop drv k p = (p', Inr u) \<Longrightarrow> all_idle p \<Longrightarrow>
    all_idle p' \<and> curSize p' \<le> curSize p + int k \<and> maxSize p' = maxSize p \<and>
    cn_driver p' = cn_driver p"
proof (induction k arbitrary: p)
  case (Suc k)
  obtain q r where create: "CreateConnection drv p = (q, r)" by fastforce
  show ?case
  proof (cases r)
    case (Inl e)
    with Suc.prems create show ?thesis by simp
  next
    case (Inr x)
    from CreateConnection_cases [OF create Inr]
    consider "x = None" "q = p\<lparr>cn_next := Suc (cn_next p)\<rparr>"
      | "x = Some (cn_next p)"
        "q = p\<lparr>cn_next := Suc (cn_next p), cn_live := insert (cn_next p) (cn_live p)\<rparr>"
      by blast
    then show ?thesis
    proof cases
      case 1
      then have "all_idle q" using Suc.prems(2) by (auto simp: all_idle_def less_Suc_eq)
      with 1 Suc.prems(1) create Inr Suc.IH [of q] show ?thesis by simp
    next
      case 2
      let ?q = "q\<lparr>connList := connList q @ [cn_next p], curSize := curSize q + 1\<rparr>"
      have "init_loop drv k ?q = (p', Inr u)" using Suc.prems(1) create Inr 2 by simp
      moreover have "all_idle ?q"
        using Suc.prems(2) 2 by (auto simp: all_idle_def less_Suc_eq)
      ultimately show ?thesis using Suc.IH [of ?q] 2 by simp
    qed
  qed
qed simp

lemma sdiv2_le: "int (nat ((n::int) sdiv 2)) \<le> max 0 n"
proof (cases "0 \<le> n")
  case True
  then have "n sdiv 2 = n div 2" by (simp add: signed_divide_int_def sgn_if)
  with True show ?thesis by linarith
next
  case False
  then have "n sdiv 2 \<le> 0"
    by (simp add: signed_divide_int_def sgn_if)
  then show ?thesis by simp
qed

lemma ConnPool_ctor_inv:
  assumes "ConnPool_ctor drv d u user pwd m = (p, Inr x)"
  shows "conn_inv (p, []) \<and> maxSize p = m \<and> cn_driver p = d"
proof -
  from assms obtain q where q: "p = q\<lparr>cn_locked := False\<rparr>"
    and loop: "init_loop drv (nat (m sdiv 2)) \<lparr>curSize = 0, maxSize = m, username = user,
      password = pwd, url = u, connList = [], cn_driver = d, cn_locked = True, cn_next = 0,
      cn_live = {}\<rparr> = (q, Inr x)"
    by (auto simp: ConnPool_ctor_def InitConnection_def split: prod.splits sum.splits)
  from ConnPool_ctor_split [OF loop] sdiv2_le [of m] q show ?thesis
    by (auto simp: conn_inv_def all_idle_def)
qed

lemma CreateConnection_same: "CreateConnection drv p = (p', r) \<Longrightarrow> maxSize p' = maxSize p \<and> cn_driver p' = cn_driver p"
  by (auto simp: CreateConnection_def Let_def split: if_splits connect_result.splits)

lemma GetConnection_same: "GetConnection drv cl p = (p', r) \<Longrightarrow> maxSize p' = maxSize p \<and> cn_driver p' = cn_driver p"
  by (auto simp: GetConnection_def Let_def unlock_pool_def dest!: CreateConnection_same
      split: if_splits list.splits prod.splits sum.splits option.splits closed_result.splits)

lemma ReleaseConnection_same: "ReleaseConnection c p = (p', r) \<Longrightarrow> maxSize p' = maxSize p \<and> cn_driver p' = cn_driver p"
  by (auto simp: ReleaseConnection_def split: option.splits if_splits)

lemma client_step_same: "client_step drv e s = Some s' \<Longrightarrow> maxSize (fst s') = maxSize (fst s) \<and>
    cn_driver (fst s') = cn_driver (fst s)"
  by (cases e; cases s)
    (auto dest: GetConnection_same ReleaseConnection_same
      split: if_splits prod.splits sum.splits option.splits)

lemma client_run_same:
  "client_run drv es s = Some s' \<Longrightarrow> maxSize (fst s') = maxSize (fst s) \<and>
    cn_driver (fst s') = cn_driver (fst s)"
  by (induction es arbitrary: s) (auto split: option.splits dest: client_step_same)

lemma client_run_pool:
  assumes "ConnPool_ctor drv d u user pwd m = (p, Inr x)"
    and "client_run drv es (p, []) = Some (q, held)"
  shows "conn_inv (q, held) \<and> maxSize q = m \<and> cn_driver q = d"
  using ConnPool_ctor_inv [OF assms(1)] client_run_inv [OF assms(2)] client_run_same [OF assms(2)]
  by simp

lemma destory_loop_ok:
  "(\<And>c. c \<in> set cs \<Longrightarrow> closing c \<noteq> Close_other) \<Longrightarrow> distinct cs \<Longrightarrow> set cs \<subseteq> cn_live p \<Longrightarrow>
    destory_loop closing cs p = (p\<lparr>cn_live := cn_live p - set cs\<rparr>, Inr ())"
proof (induction cs arbitrary: p)
  case (Cons c cs)
  let ?q = "p\<lparr>cn_live := cn_live p - {c}\<rparr>"
  have "DestoryConnection closing (Some c) p = (?q, Inr ())"
    using Cons.prems(1) [of c] Cons.prems(3)
    by (auto simp: DestoryConnection_def split: close_result.splits)
  moreover have "destory_loop closing cs ?q = (?q\<lparr>cn_live := cn_live ?q - set cs\<rparr>, Inr ())"
    using Cons.prems by (intro Cons.IH) auto
  moreover have "cn_live p - {c} - set cs = cn_live p - insert c (set cs)" by blast
  ultimately show ?case by simp
qed simp

subsection \<open>Properties\<close>

text \<open>The pool never leaks a connection and never has more than \<open>maxSize\<close> of them: after any
  sequence of gets and releases by clients that give back only what they hold, whatever the driver
  does, the existing connections are exactly the idle ones and the ones handed out, each once, and
  there are at most \<open>maxSize\<close> (none when \<open>maxSize\<close> is negative). The mutex is free.
\<close>
theorem conn_pool_bounded:
  assumes "ConnPool_ctor drv d u user pwd m = (p, Inr x)"
    and "client_run drv es (p, []) = Some (q, held)"
  shows "distinct (connList q @ held) \<and> cn_live q = set (connList q @ held) \<and>
    curSize q = int (length (connList q @ held)) \<and> length (connList q @ held) \<le> nat m \<and>
    \<not> cn_locked q"
  using client_run_pool [OF assms] by (auto simp: conn_inv_def)

lemmas pool_simps = ConnPool_ctor_def InitConnection_def CreateConnection_def GetConnection_def
  ReleaseConnection_def DestoryConnPool_def DestoryConnection_def unlock_pool_def

definition pool_of_three :: "conn_pool" where
  "pool_of_three = fst (ConnPool_ctor (\<lambda>n. if n = 1 then Connect_null else Connect_ok) True
     ''tcp://127.0.0.1:3306'' ''root'' ''root'' 3)"

lemma pool_of_three_ctor:
  "ConnPool_ctor (\<lambda>n. if n = 1 then Connect_null else Connect_ok) True
     ''tcp://127.0.0.1:3306'' ''root'' ''root'' 3 = (pool_of_three, Inr ())"
  by (simp add: pool_of_three_def pool_simps signed_divide_int_def eval_nat_numeral)

lemma pool_of_three_run:
  "client_run (\<lambda>n. if n = 1 then Connect_null else Connect_ok)
      [Get (\<lambda>_. Is_open), Get (\<lambda>_. Is_open), Get (\<lambda>_. Is_open), Release 0]
      (pool_of_three, []) =
    Some (pool_of_three\<lparr>connList := [0], curSize := 2, cn_next := 3, cn_live := {0, 2}\<rparr>, [2])"
  by (simp add: pool_of_three_def pool_simps signed_divide_int_def eval_nat_numeral insert_commute)

theorem conn_pool_bounded_witness:
  "(let q = pool_of_three\<lparr>connList := [0], curSize := 2, cn_next := 3, cn_live := {0, 2}\<rparr>
    in cn_live q = set (connList q @ [2]) \<and> length (connList q @ [2]) \<le> 3 \<and> \<not> cn_locked q)"
  using conn_pool_bounded [OF pool_of_three_ctor pool_of_three_run]
  by (simp add: insert_commute)

text \<open>
  C30: A get succeeds exactly when the clients hold fewer than \<open>maxSize\<close> connections: with a driver
  whose connects succeed and connections whose \<open>isClosed\<close> answers, \<open>GetConnection\<close> returns a
  connection that nobody holds (a fresh one in place of an idle one that was closed) if
  fewer than \<open>maxSize\<close> are held, and \<open>NULL\<close>, changing nothing, otherwise.
\<close>
theorem conn_pool_get:
  assumes "ConnPool_ctor drv True u user pwd m = (p, Inr x)"
    and "client_run drv es (p, []) = Some (q, held)"
    and "\<And>n. cn_next q \<le> n \<Longrightarrow> drv n = Connect_ok" and "\<And>c. cl c \<noteq> Closed_throws"
  shows "if int (length held) < m
    then \<exists>q' c. GetConnection drv cl q = (q', Inr (Some c)) \<and> c \<notin> set held \<and> c \<in> cn_live q'
    else GetConnection drv cl q = (q, Inr None)"
proof -
  from client_run_pool [OF assms(1,2)] have inv: "conn_inv (q, held)" and m: "maxSize q = m" "cn_driver q"
    by auto
  have same: "q\<lparr>cn_locked := False\<rparr> = q" using inv by (simp add: conn_inv_def)
  show ?thesis
  proof (cases "connList q")
    case Nil
    with inv m assms(3) [of "cn_next q"] same show ?thesis
      by (auto simp: conn_inv_def GetConnection_def CreateConnection_def unlock_pool_def Let_def)
  next
    case (Cons c rest)
    with inv m assms(3) [of "cn_next q"] assms(4) [of c] show ?thesis
      by (cases "cl c")
        (auto simp: conn_inv_def GetConnection_def CreateConnection_def unlock_pool_def Let_def)
  qed
qed

theorem conn_pool_get_witness:
  "\<exists>q' c. GetConnection (\<lambda>n. if n = 1 then Connect_null else Connect_ok) (\<lambda>c. Is_closed)
      (pool_of_three\<lparr>connList := [0], curSize := 2, cn_next := 3, cn_live := {0, 2}\<rparr>) =
        (q', Inr (Some c)) \<and> c \<noteq> 2"
  using conn_pool_get [OF pool_of_three_ctor pool_of_three_run, of "\<lambda>c. Is_closed"]
  by (auto simp: pool_of_three_def pool_simps signed_divide_int_def eval_nat_numeral)

text \<open>An exception leaves the pool locked for ever. When \<open>isClosed\<close> of the first idle connection
  throws, or a connect throws something that is neither an \<open>SQLException\<close> nor a
  \<open>runtime_error\<close>, \<open>GetConnection\<close> leaves with the mutex locked, and every later get, release of
  a connection and destruction of the pool blocks for ever.
\<close>
theorem conn_pool_exception_locks:
  assumes "GetConnection drv cl p = (q, Inl Uncaught)"
  shows "GetConnection drv' cl' q = (q, Inl Lock_held) \<and>
    ReleaseConnection (Some c) q = (q, Inl Lock_held) \<and>
    DestoryConnPool closing q = (q, Inl Lock_held)"
proof -
  have "cn_locked q"
    using assms by (auto simp: GetConnection_def CreateConnection_def Let_def unlock_pool_def
      split: if_splits list.splits closed_result.splits connect_result.splits)
  then show ?thesis
    by (simp add: GetConnection_def ReleaseConnection_def DestoryConnPool_def)
qed

theorem conn_pool_exception_locks_witness:
  "ReleaseConnection (Some 2)
      (pool_of_three\<lparr>connList := [], curSize := 2, cn_next := 3, cn_live := {0, 2}, cn_locked := True\<rparr>)
    = (pool_of_three\<lparr>connList := [], curSize := 2, cn_next := 3, cn_live := {0, 2}, cn_locked := True\<rparr>,
        Inl Lock_held)"
proof -
  have "GetConnection (\<lambda>n. Connect_ok) (\<lambda>c. Closed_throws)
      (pool_of_three\<lparr>connList := [0], curSize := 2, cn_next := 3, cn_live := {0, 2}\<rparr>) =
    (pool_of_three\<lparr>connList := [], curSize := 2, cn_next := 3, cn_live := {0, 2}, cn_locked := True\<rparr>,
        Inl Uncaught)"
    by (simp add: pool_of_three_def pool_simps signed_divide_int_def eval_nat_numeral)
  from conn_pool_exception_locks [OF this] show ?thesis by blast
qed

text \<open>Destroying the pool deletes every idle connection and forgets the others. When every \<open>close\<close>
  returns or throws a \<open>std::exception\<close>, \<open>DestoryConnPool\<close> returns, the connections left are
  exactly the ones clients hold, and \<open>curSize\<close> is 0 however many these are: the pool will then
  hand out \<open>maxSize\<close> connections on top of them.
\<close>
theorem conn_pool_destory:
  assumes "ConnPool_ctor drv d u user pwd m = (p, Inr x)"
    and "client_run drv es (p, []) = Some (q, held)"
    and "\<And>c. closing c \<noteq> Close_other"
  shows "DestoryConnPool closing q =
    (q\<lparr>connList := [], curSize := 0, cn_live := set held\<rparr>, Inr ())"
proof -
  from client_run_pool [OF assms(1,2)] have inv: "conn_inv (q, held)" by simp
  have "cn_live q - set (connList q) = set held"
    using inv by (auto simp: conn_inv_def)
  moreover have "destory_loop closing (connList q) (q\<lparr>cn_locked := True\<rparr>) =
      (q\<lparr>cn_locked := True, cn_live := cn_live q - set (connList q)\<rparr>, Inr ())"
    using destory_loop_ok [of "connList q" closing "q\<lparr>cn_locked := True\<rparr>"] assms(3) inv
    by (auto simp: conn_inv_def)
  ultimately show ?thesis
    using inv by (simp add: DestoryConnPool_def unlock_pool_def conn_inv_def)
qed

theorem conn_pool_destory_witness:
  "cn_live (fst (DestoryConnPool (\<lambda>c. Close_sql_error)
      (pool_of_three\<lparr>connList := [0], curSize := 2, cn_next := 3, cn_live := {0, 2}\<rparr>))) = {2}"
  using conn_pool_destory [OF pool_of_three_ctor pool_of_three_run, of "\<lambda>c. Close_sql_error"]
  by simp

text \<open>\<open>ReleaseConnection\<close> takes any pointer. A client that releases a connection twice makes the pool
  hand the same connection to two clients; and after \<open>DestoryConnPool\<close>, which forgets the
  connections held, three connections exist although \<open>maxSize\<close> is 2.
\<close>
theorem conn_pool_release_unchecked:
  "(case ConnPool_ctor (\<lambda>n. Connect_ok) True ''u'' ''root'' ''root'' 2 of (p0, _) \<Rightarrow>
    case GetConnection (\<lambda>n. Connect_ok) (\<lambda>c. Is_open) p0 of (p1, r1) \<Rightarrow>
    case ReleaseConnection (Some 0) p1 of (p2, _) \<Rightarrow>
    case ReleaseConnection (Some 0) p2 of (p3, _) \<Rightarrow>
    case GetConnection (\<lambda>n. Connect_ok) (\<lambda>c. Is_open) p3 of (p4, r4) \<Rightarrow>
    case GetConnection (\<lambda>n. Connect_ok) (\<lambda>c. Is_open) p4 of (p5, r5) \<Rightarrow>
      r1 = Inr (Some 0) \<and> r4 = Inr (Some 0) \<and> r5 = Inr (Some 0)) \<and>
   (case ConnPool_ctor (\<lambda>n. Connect_ok) True ''u'' ''root'' ''root'' 2 of (p0, _) \<Rightarrow>
    case GetConnection (\<lambda>n. Connect_ok) (\<lambda>c. Is_open) p0 of (p1, _) \<Rightarrow>
    case DestoryConnPool (\<lambda>c. Close_ok) p1 of (p2, _) \<Rightarrow>
    case GetConnection (\<lambda>n. Connect_ok) (\<lambda>c. Is_open) p2 of (p3, r3) \<Rightarrow>
    case GetConnection (\<lambda>n. Connect_ok) (\<lambda>c. Is_open) p3 of (p4, r4) \<Rightarrow>
      r3 = Inr (Some 1) \<and> r4 = Inr (Some 2) \<and> cn_live p4 = {0, 1, 2} \<and> maxSize p4 = 2)"
  by (auto simp: pool_simps signed_divide_int_def eval_nat_numeral)

end
