(* ===== verification/Conn_Threads.thy ===== *)
theory Conn_Threads
  imports Monitor Conn_Pool "HOL-Library.Multiset"
begin

section \<open>The connection pool and the threads that share it\<close>

text \<open>
  The clients of \<open>ConnPool\<close> (src/connection_pool.cpp) are the threads of a monitor: every operation
  is one section under the mutex, which it gives up unless it leaves by an exception. A thread that
  finds the mutex locked by an operation that is over waits for it (there is no condition variable;
  the condition \<open>()\<close> stands for the mutex), and nothing will wake it. Releasing a null connection
  does not touch the mutex.
\<close>

datatype conn_op =
    Op_get "nat \<Rightarrow> closed_result" | Op_release "nat option" | Op_destory "nat \<Rightarrow> close_result"

definition conn_call ::
  "(nat \<Rightarrow> connect_result) \<Rightarrow> conn_op \<Rightarrow> conn_pool \<Rightarrow> nat option pool_result" where
  "conn_call drv op p =
     (case op of
        Op_get cl \<Rightarrow> GetConnection drv cl p
      | Op_release c \<Rightarrow> (case ReleaseConnection c p of (q, r) \<Rightarrow> (q, bind_res r (\<lambda>_. Inr None)))
      | Op_destory closing \<Rightarrow>
          (case DestoryConnPool closing p of (q, r) \<Rightarrow> (q, bind_res r (\<lambda>_. Inr None))))"

definition conn_section ::
  "(nat \<Rightarrow> connect_result) \<Rightarrow> conn_op \<Rightarrow> conn_pool \<Rightarrow> (conn_pool, unit, nat option res) outcome" where
  "conn_section drv op p =
     (case conn_call drv op p of
        (q, Inl Lock_held) \<Rightarrow> Wait q ()
      | (q, r) \<Rightarrow> Return q r [] [])"

text \<open>
  Threads that hold connections: \<open>holdings\<close> computes from the log what each of \<open>n\<close> threads holds.
  A thread is polite when it gives back only what it holds itself; threads that use the pool get and
  release and do not destroy it.
\<close>

definition hold_step :: "nat \<times> conn_op \<times> nat option res \<Rightarrow> nat list list \<Rightarrow> nat list list" where
  "hold_step e hs =
     (case e of
        (i, Op_get cl, Inr (Some c)) \<Rightarrow> hs[i := c # hs ! i]
      | (i, Op_release (Some c), Inr r) \<Rightarrow> hs[i := remove1 c (hs ! i)]
      | _ \<Rightarrow> hs)"

definition holdings :: "nat \<Rightarrow> (nat \<times> conn_op \<times> nat option res) list \<Rightarrow> nat list list" where
  "holdings n h = fold hold_step h (replicate n [])"

fun polite_from :: "nat list list \<Rightarrow> (nat \<times> conn_op \<times> nat option res) list \<Rightarrow> bool" where
  "polite_from hs [] \<longleftrightarrow> True"
| "polite_from hs (e # h) \<longleftrightarrow>
     (case e of (i, Op_release (Some c), r) \<Rightarrow> c \<in> set (hs ! i) | _ \<Rightarrow> True) \<and>
     polite_from (hold_step e hs) h"

definition polite :: "nat \<Rightarrow> (nat \<times> conn_op \<times> nat option res) list \<Rightarrow> bool" where
  "polite n h \<longleftrightarrow> polite_from (replicate n []) h"

fun client_op :: "conn_op \<Rightarrow> bool" where
  "client_op (Op_get cl) \<longleftrightarrow> (\<forall>c. cl c \<noteq> Closed_throws)"
| "client_op (Op_release c) \<longleftrightarrow> True"
| "client_op (Op_destory closing) \<longleftrightarrow> False"

subsection \<open>Every run is a sequential run\<close>

definition conn_spec ::
  "(nat \<Rightarrow> connect_result) \<Rightarrow> conn_op \<Rightarrow> nat option res \<Rightarrow> conn_pool \<Rightarrow> conn_pool option" where
  "conn_spec drv op r p = (case conn_call drv op p of (q, r') \<Rightarrow> if r' = r then Some q else None)"

lemma conn_section_Wait: "conn_section drv op p = Wait q c \<longleftrightarrow> conn_call drv op p = (q, Inl Lock_held)"
  by (auto simp: conn_section_def split: prod.splits sum.splits fault.splits)

lemma conn_section_Return:
  "conn_section drv op p = Return q r ns ps \<longleftrightarrow>
    conn_call drv op p = (q, r) \<and> r \<noteq> Inl Lock_held \<and> ns = [] \<and> ps = []"
  by (auto simp: conn_section_def split: prod.splits sum.splits fault.splits)

text \<open>Only a locked mutex makes an operation wait, and the wait changes nothing.\<close>

lemma CreateConnection_fault: "CreateConnection drv p = (q, Inl e) \<Longrightarrow> e \<noteq> Lock_held"
  by (auto simp: CreateConnection_def Let_def split: if_splits connect_result.splits)

lemma destory_loop_fault: "destory_loop closing cs p = (q, Inl e) \<Longrightarrow> e \<noteq> Lock_held"
  by (induction cs arbitrary: p)
    (auto simp: DestoryConnection_def split: prod.splits sum.splits if_splits close_result.splits)

lemma GetConnection_waits: "GetConnection drv cl p = (q, Inl Lock_held) \<longleftrightarrow> cn_locked p \<and> q = p"
  by (auto simp: GetConnection_def Let_def dest!: CreateConnection_fault
      split: if_splits list.splits closed_result.splits prod.splits sum.splits option.splits)

lemma ReleaseConnection_waits:
  "ReleaseConnection c p = (q, Inl Lock_held) \<longleftrightarrow> cn_locked p \<and> c \<noteq> None \<and> q = p"
  by (auto simp: ReleaseConnection_def split: option.splits)

lemma DestoryConnPool_waits: "DestoryConnPool closing p = (q, Inl Lock_held) \<longleftrightarrow> cn_locked p \<and> q = p"
  by (auto simp: DestoryConnPool_def dest!: destory_loop_fault split: prod.splits sum.splits)

lemma conn_call_waits:
  "conn_call drv op p = (q, Inl Lock_held) \<longleftrightarrow> cn_locked p \<and> op \<noteq> Op_release None \<and> q = p"
proof (cases op)
  case (Op_get cl)
  then show ?thesis by (simp add: conn_call_def GetConnection_waits)
next
  case (Op_release c)
  with ReleaseConnection_waits [of c p q] show ?thesis
    by (cases "ReleaseConnection c p"; cases "snd (ReleaseConnection c p)")
      (auto simp: conn_call_def)
next
  case (Op_destory closing)
  with DestoryConnPool_waits [of closing p q] show ?thesis
    by (cases "DestoryConnPool closing p"; cases "snd (DestoryConnPool closing p)")
      (auto simp: conn_call_def)
qed

interpretation conns: monitor_refines "conn_section drv" allowed "\<lambda>_. True" "\<lambda>p. p" "conn_spec drv"
  for drv allowed
  by unfold_locales
    (auto simp: conn_section_Wait conn_section_Return conn_call_waits conn_spec_def)

subsection \<open>Threads that hold connections\<close>

text \<open>The invariant of the pool does not depend on who holds what, nor in which order.\<close>

lemma conn_inv_mset: "mset held = mset held' \<Longrightarrow> conn_inv (p, held) \<Longrightarrow> conn_inv (p, held')"
  unfolding conn_inv_def
  by (auto dest: mset_eq_setD mset_eq_length mset_eq_imp_distinct_iff)

lemma mset_concat_Cons:
  "i < length hs \<Longrightarrow> mset (concat (hs[i := c # hs ! i])) = mset (c # concat hs)"
  by (induction hs arbitrary: i) (auto split: nat.splits)

lemma mset_concat_remove1:
  "i < length hs \<Longrightarrow> c \<in> set (hs ! i) \<Longrightarrow>
    mset (concat (hs[i := remove1 c (hs ! i)])) = mset (remove1 c (concat hs))"
proof (induction hs arbitrary: i)
  case (Cons a hs)
  show ?case
  proof (cases i)
    case (Suc j)
    with Cons.prems have "c \<in># mset (concat hs)" by (auto intro!: bexI [of _ "hs ! j"])
    with Suc Cons show ?thesis by simp
  qed (use Cons.prems in simp)
qed simp

lemma CreateConnection_succeeds:
  "cn_driver p \<Longrightarrow> \<forall>n. drv n \<noteq> Connect_other \<Longrightarrow> CreateConnection drv p \<noteq> (q, Inl e)"
  by (auto simp: CreateConnection_def Let_def split: connect_result.splits)

lemma GetConnection_succeeds:
  assumes "conn_inv (p, held)" and "cn_driver p" and "\<forall>n. drv n \<noteq> Connect_other"
    and "\<forall>c. cl c \<noteq> Closed_throws"
  shows "GetConnection drv cl p \<noteq> (q, Inl e)"
proof
  assume "GetConnection drv cl p = (q, Inl e)"
  then show False
    using assms(1,2,4) CreateConnection_succeeds [OF _ assms(3)]
    by (auto simp: GetConnection_def conn_inv_def Let_def
        split: list.splits if_splits closed_result.splits prod.splits sum.splits option.splits)
qed

text \<open>One operation of a polite client.\<close>

definition client_state :: "conn_pool \<Rightarrow> nat list list \<Rightarrow> bool" where
  "client_state p hs \<longleftrightarrow> conn_inv (p, concat hs) \<and> cn_driver p"

lemma client_get:
  assumes "client_state p hs" and "i < length hs" and "client_op (Op_get cl)"
    and "\<forall>n. drv n \<noteq> Connect_other" and "conn_call drv (Op_get cl) p = (q, r)"
  shows "client_state q (hold_step (i, Op_get cl, r) hs) \<and> maxSize q = maxSize p"
proof -
  have get: "GetConnection drv cl p = (q, r)" using assms(5) by (simp add: conn_call_def)
  with GetConnection_succeeds [of p "concat hs" drv cl] assms(1,3,4)
  obtain x where r: "r = Inr x" by (cases r) (auto simp: client_state_def)
  have "conn_inv (q, case x of None \<Rightarrow> concat hs | Some c \<Rightarrow> c # concat hs)"
    using GetConnection_inv [of drv cl p q x "concat hs"] get r assms(1)
    by (simp add: client_state_def)
  then have "conn_inv (q, concat (hold_step (i, Op_get cl, r) hs))"
    using conn_inv_mset [OF mset_concat_Cons [OF assms(2), symmetric], where p = q] r
    by (auto simp: hold_step_def split: option.splits)
  with GetConnection_same [OF get] assms(1) show ?thesis by (simp add: client_state_def)
qed

lemma client_release:
  assumes "client_state p hs" and "i < length hs" and "c \<in> set (hs ! i)"
    and "conn_call drv (Op_release (Some c)) p = (q, r)"
  shows "client_state q (hold_step (i, Op_release (Some c), r) hs) \<and> maxSize q = maxSize p"
proof -
  obtain u where rel: "ReleaseConnection (Some c) p = (q, Inr u)" and r: "r = Inr None"
    using assms(1,4)
    by (auto simp: conn_call_def ReleaseConnection_def client_state_def conn_inv_def)
  have "c \<in> set (concat hs)" using assms(2,3) by auto
  from ReleaseConnection_inv [OF this _ rel] assms(1)
  have "conn_inv (q, remove1 c (concat hs))" by (simp add: client_state_def)
  then have "conn_inv (q, concat (hold_step (i, Op_release (Some c), r) hs))"
    using conn_inv_mset [OF mset_concat_remove1 [OF assms(2,3), symmetric]] r
    by (simp add: hold_step_def)
  with ReleaseConnection_same [OF rel] assms(1) show ?thesis by (simp add: client_state_def)
qed

lemma hold_step_length [simp]: "length (hold_step e hs) = length hs"
  by (simp add: hold_step_def split: prod.split conn_op.split option.split sum.split)

lemma run_conn_spec_Cons:
  "run_spec (conn_spec drv) p ((i, op, r) # h) = Some q \<longleftrightarrow>
    (\<exists>p'. conn_call drv op p = (p', r) \<and> run_spec (conn_spec drv) p' h = Some q)"
  by (cases "conn_call drv op p") (simp add: conn_spec_def [of drv op r p])

lemma client_history:
  "run_spec (conn_spec drv) p h = Some q \<Longrightarrow> client_state p hs \<Longrightarrow> polite_from hs h \<Longrightarrow>
    \<forall>(i, op, r) \<in> set h. i < length hs \<and> client_op op \<Longrightarrow> \<forall>n. drv n \<noteq> Connect_other \<Longrightarrow>
    client_state q (fold hold_step h hs) \<and> maxSize q = maxSize p"
proof (induction h arbitrary: p hs)
  case (Cons e h)
  obtain i op r where e: "e = (i, op, r)" by (cases e)
  with Cons.prems(1) obtain p' where call: "conn_call drv op p = (p', r)"
    and rest: "run_spec (conn_spec drv) p' h = Some q"
    by (auto simp: run_conn_spec_Cons simp del: run_spec.simps)
  have i: "i < length hs" "client_op op" using Cons.prems(4) e by auto
  have "client_state p' (hold_step e hs) \<and> maxSize p' = maxSize p"
  proof (cases op)
    case (Op_get cl)
    with client_get [OF Cons.prems(2) i(1)] i(2) Cons.prems(5) call e show ?thesis by auto
  next
    case (Op_release conn)
    show ?thesis
    proof (cases conn)
      case None
      with Op_release call e Cons.prems(2) show ?thesis
        by (auto simp: conn_call_def ReleaseConnection_def hold_step_def)
    next
      case (Some c)
      with Cons.prems(3) e Op_release have "c \<in> set (hs ! i)" by simp
      with client_release [OF Cons.prems(2) i(1)] call e Op_release Some show ?thesis by auto
    qed
  qed (use i(2) in simp)
  with Cons.IH [OF rest] Cons.prems(3-5) e show ?case by auto
qed simp

lemma polite_from_prefix: "polite_from hs (h @ h') \<Longrightarrow> polite_from hs h"
  by (induction hs h rule: polite_from.induct) auto

lemma threads_state:
  assumes "ConnPool_ctor drv True u user pwd m = (p, Inr x)" and "\<forall>n. drv n \<noteq> Connect_other"
    and "mon_reach (conn_section drv) client_op (start p n) s" and "polite n (history s)"
  shows "client_state (shared s) (holdings n (history s)) \<and> maxSize (shared s) = m"
proof -
  have "run_spec (conn_spec drv) p (history s) = Some (shared s)"
    using conns.linearizable [OF assms(3)] by simp
  moreover have "client_state p (replicate n [])" "maxSize p = m"
    using ConnPool_ctor_inv [OF assms(1)] by (simp_all add: client_state_def)
  moreover have "\<forall>(i, op, r) \<in> set (history s). i < length (replicate n ([] :: nat list)) \<and> client_op op"
    using reach_history_allowed [OF assms(3)] by simp
  ultimately show ?thesis
    using client_history [of drv p "history s" "shared s" "replicate n []"] assms(2,4)
    by (simp add: holdings_def polite_def)
qed

lemma not_locked: "client_state p hs \<Longrightarrow> \<not> cn_locked p"
  by (simp add: client_state_def conn_inv_def)

lemma step_not_blocked:
  assumes "mon_step (conn_section drv) P s s'" and "\<not> cn_locked (shared s)"
    and "\<forall>t \<in> set (threads s). \<not> blocked_on () t"
  shows "\<forall>t \<in> set (threads s'). \<not> blocked_on () t"
  using assms
proof (induction rule: mon_step.induct)
  case (block i m op q c)
  then show ?case by (simp add: conn_section_Wait conn_call_waits)
next
  case (complete i m op q r ns ps ts')
  then show ?case
    by (auto simp: conn_section_Return dest!: subsetD [OF set_update_subset_insert])
next
  case (post i m p ps ts')
  have "woken_from ((threads m)[i := Post ps]) ts'" by (rule notify_woken [OF post(3)])
  moreover have "\<forall>t \<in> set ((threads m)[i := Post ps]). \<not> blocked_on () t"
    using post(5) by (auto dest!: subsetD [OF set_update_subset_insert])
  ultimately show ?case using woken_not_blocked by fastforce
qed (auto dest!: subsetD [OF set_update_subset_insert])

lemma step_log: "mon_step sec P s s' \<Longrightarrow> \<exists>h. history s' = history s @ h"
  by (induction rule: mon_step.induct) auto

lemma threads_not_blocked:
  assumes ctor: "ConnPool_ctor drv True u user pwd m = (p, Inr x)" and drv: "\<forall>n. drv n \<noteq> Connect_other"
  shows "mon_reach (conn_section drv) client_op (start p n) s \<Longrightarrow> polite n (history s) \<Longrightarrow>
    \<forall>t \<in> set (threads s). \<not> blocked_on () t"
proof (induction rule: mon_reach.induct)
  case (onward s s')
  from step_log [OF onward.hyps(2)] onward.prems have polite: "polite n (history s)"
    by (auto simp: polite_def dest: polite_from_prefix)
  with not_locked [of "shared s"] threads_state [OF ctor drv onward.hyps(1)]
  have "\<not> cn_locked (shared s)" by blast
  with step_not_blocked [OF onward.hyps(2)] onward.IH [OF polite] show ?case by blast
qed simp

subsection \<open>After an exception\<close>

lemma throws_locked: "conn_call drv op p = (q, Inl Uncaught) \<Longrightarrow> cn_locked q"
proof -
  have create: "CreateConnection drv a = (b, r) \<Longrightarrow> cn_locked b = cn_locked a" for a b r
    by (auto simp: CreateConnection_def Let_def split: if_splits connect_result.splits)
  have loop: "destory_loop closing cs a = (b, r) \<Longrightarrow> cn_locked b = cn_locked a" for closing cs a b r
    by (induction cs arbitrary: a)
      (fastforce simp: DestoryConnection_def split: prod.splits sum.splits if_splits close_result.splits)+
  have "ReleaseConnection c p \<noteq> (q, Inl Uncaught)" for c
    by (auto simp: ReleaseConnection_def split: option.splits)
  then show "conn_call drv op p = (q, Inl Uncaught) \<Longrightarrow> cn_locked q"
    by (cases op)
      (auto simp: conn_call_def GetConnection_def DestoryConnPool_def Let_def unlock_pool_def
        bind_res_def dest!: create loop
        split: prod.splits sum.splits if_splits list.splits option.splits closed_result.splits)
qed

lemma locked_step:
  assumes "mon_step (conn_section drv) P s s'" and "cn_locked (shared s)"
  shows "shared s' = shared s \<and>
    (\<exists>h. history s' = history s @ h \<and> (\<forall>(j, op, r) \<in> set h. op = Op_release None \<and> r = Inr None))"
  using assms
proof (induction rule: mon_step.induct)
  case (block i m op q c)
  then show ?case by (simp add: conn_section_Wait conn_call_waits)
next
  case (complete i m op q r ns ps ts')
  from complete(3) have call: "conn_call drv op (shared m) = (q, r)" "r \<noteq> Inl Lock_held"
    by (simp_all add: conn_section_Return)
  with conn_call_waits [of drv op "shared m" "shared m"] complete(5) have "op = Op_release None" by auto
  with call show ?case by (auto simp: conn_call_def ReleaseConnection_def)
qed simp_all

lemma thrown_locked:
  "mon_reach (conn_section drv) P (start p n) s \<Longrightarrow> (i, op, Inl Uncaught) \<in> set (history s) \<Longrightarrow>
    cn_locked (shared s)"
proof (induction rule: mon_reach.induct)
  case (onward s s')
  show ?case
  proof (cases "(i, op, Inl Uncaught) \<in> set (history s)")
    case True
    with onward.IH locked_step [OF onward.hyps(2)] show ?thesis by simp
  next
    case False
    with onward.hyps(2) onward.prems show ?thesis
      by (induction rule: mon_step.induct) (auto simp: conn_section_Return dest: throws_locked)
  qed
qed simp

lemma locked_for_ever:
  "mon_reach (conn_section drv) P s s' \<Longrightarrow> cn_locked (shared s) \<Longrightarrow> shared s' = shared s \<and>
    (\<exists>h. history s' = history s @ h \<and> (\<forall>(j, op, r) \<in> set h. op = Op_release None \<and> r = Inr None))"
proof (induction rule: mon_reach.induct)
  case (onward s1 s2)
  then obtain h where h: "history s1 = history s @ h" "\<forall>(j, op, r) \<in> set h. op = Op_release None \<and> r = Inr None"
    and same: "shared s1 = shared s" by auto
  obtain h' where "history s2 = history s1 @ h'" "shared s2 = shared s1"
    "\<forall>(j, op, r) \<in> set h'. op = Op_release None \<and> r = Inr None"
    using locked_step [OF onward.hyps(2)] same onward.prems by auto
  with h same show ?case by (intro conjI exI [of _ "h @ h'"]) auto
qed simp

subsection \<open>Properties\<close>

text \<open>
  C29: Any number of threads can share the pool. Whatever the interleaving, if each thread gives back
  only connections it holds, no connection ever is with two threads, or with a thread and in the pool
  at once, none is lost, and there are at most \<open>maxSize\<close>; no thread is ever stuck at the mutex, and a
  get that runs next returns without a fault. (The driver may fail, but with the exceptions the code
  handles, and \<open>isClosed\<close> answers.)
\<close>
theorem conn_pool_threads:
  assumes ctor: "ConnPool_ctor drv True u user pwd m = (p, Inr x)"
    and drv: "\<forall>k. drv k \<noteq> Connect_other"
    and reach: "mon_reach (conn_section drv) client_op (start p n) s"
    and polite: "polite n (history s)"
  shows "(let held = concat (holdings n (history s)); all = connList (shared s) @ held in
      distinct all \<and> set all = cn_live (shared s) \<and> length all \<le> nat m) \<and>
    (\<forall>t \<in> set (threads s). \<not> blocked_on () t) \<and>
    (client_op (Op_get cl) \<longrightarrow>
      (\<exists>q c. conn_section drv (Op_get cl) (shared s) = Return q (Inr c) [] []))"
proof -
  let ?hs = "holdings n (history s)"
  have state: "client_state (shared s) ?hs" and max: "maxSize (shared s) = m"
    using threads_state [OF assms] by simp_all
  have "\<exists>q c. conn_section drv (Op_get cl) (shared s) = Return q (Inr c) [] []"
    if "client_op (Op_get cl)"
  proof -
    obtain q r where get: "GetConnection drv cl (shared s) = (q, r)" by fastforce
    with GetConnection_succeeds [of "shared s" "concat ?hs" drv cl] state that drv
    obtain c where "r = Inr c" by (cases r) (auto simp: client_state_def)
    with get show ?thesis by (simp add: conn_section_Return conn_call_def)
  qed
  moreover note threads_not_blocked [OF ctor drv reach polite]
  ultimately show ?thesis
    using state max by (auto simp: client_state_def conn_inv_def Let_def)
qed

text \<open>
  C31: One exception stops all threads. Once an operation of any thread has left by an exception (out
  of \<open>isClosed\<close>, out of a connect that throws something else, or out of \<open>close\<close> while the pool is
  destroyed), the pool never changes again and no operation of any thread returns any more, except
  releases of a null connection.
\<close>
theorem conn_pool_exception_deadlock:
  assumes "mon_reach (conn_section drv) P (start p n) s"
    and "(i, op, Inl Uncaught) \<in> set (history s)"
    and "mon_reach (conn_section drv) P s s'"
  shows "shared s' = shared s \<and> (\<exists>h. history s' = history s @ h \<and>
    (\<forall>(j, op', r) \<in> set h. op' = Op_release None \<and> r = Inr None))"
  by (rule locked_for_ever [OF assms(3) thrown_locked [OF assms(1,2)]])

subsection \<open>Witnesses\<close>

abbreviation some_drv :: "nat \<Rightarrow> connect_result" where
  "some_drv \<equiv> \<lambda>n. if n = 1 then Connect_null else Connect_ok"

theorem conn_pool_threads_witness:
  "\<exists>s. mon_reach (conn_section some_drv) client_op (start pool_of_three 2) s \<and>
    holdings 2 (history s) = [[0], [2]] \<and> cn_live (shared s) = {0, 2} \<and>
    (\<forall>t \<in> set (threads s). \<not> blocked_on () t)"
proof -
  let ?moves = "[Call 0 (Op_get (\<lambda>_. Is_open)), Call 1 (Op_get (\<lambda>_. Is_open)), Section 0 0, Section 1 0,
    Leave 1, Call 1 (Op_get (\<lambda>_. Is_open)), Section 1 0]"
  have "ends_in (run (conn_section some_drv) client_op ?moves (start pool_of_three 2)) (\<lambda>s.
      history s = [(0, Op_get (\<lambda>_. Is_open), Inr (Some 0)), (1, Op_get (\<lambda>_. Is_open), Inr None),
        (1, Op_get (\<lambda>_. Is_open), Inr (Some 2))] \<and>
      cn_live (shared s) = {0, 2})"
    by (simp add: start_def pool_of_three_def pool_simps signed_divide_int_def eval_nat_numeral
        conn_section_def conn_call_def insert_commute)
  then obtain s where run: "run (conn_section some_drv) client_op ?moves (start pool_of_three 2) = Some s"
    and h: "history s = [(0, Op_get (\<lambda>_. Is_open), Inr (Some 0)), (1, Op_get (\<lambda>_. Is_open), Inr None),
        (1, Op_get (\<lambda>_. Is_open), Inr (Some 2))]"
    and live: "cn_live (shared s) = {0, 2}"
    unfolding ends_in_iff by blast
  note reach = run_reach [OF run]
  have "holdings 2 (history s) = [[0], [2]]"
    by (simp add: h holdings_def hold_step_def numeral_2_eq_2)
  moreover have "polite 2 (history s)" by (simp add: h polite_def)
  ultimately show ?thesis
    using reach live conn_pool_threads [OF pool_of_three_ctor _ reach] by auto
qed

theorem conn_pool_exception_deadlock_witness:
  "\<exists>s s'. mon_reach (conn_section some_drv) (\<lambda>_. True) (start pool_of_three 2) s \<and>
    mon_reach (conn_section some_drv) (\<lambda>_. True) s s' \<and>
    threads s' ! 1 = Blocked () (Op_release (Some 0)) \<and> shared s' = shared s \<and> length (history s) = 1"
proof -
  let ?sec = "conn_section some_drv"
  let ?get = "Op_get (\<lambda>_. Closed_throws)"
  have "ends_in (run ?sec (\<lambda>_. True) [Call 0 ?get, Section 0 0] (start pool_of_three 2)) (\<lambda>s.
      history s = [(0, ?get, Inl Uncaught)] \<and> threads s = [Post [], Idle] \<and> cn_locked (shared s))"
    by (simp add: start_def pool_of_three_def pool_simps signed_divide_int_def eval_nat_numeral
        conn_section_def conn_call_def)
  then obtain s where run: "run ?sec (\<lambda>_. True) [Call 0 ?get, Section 0 0] (start pool_of_three 2) = Some s"
    and s: "history s = [(0, ?get, Inl Uncaught)]" "threads s = [Post [], Idle]" "cn_locked (shared s)"
    unfolding ends_in_iff by blast
  have "ends_in (run ?sec (\<lambda>_. True) [Call 1 (Op_release (Some 0)), Section 1 0] s) (\<lambda>s'.
      threads s' ! 1 = Blocked () (Op_release (Some 0)))"
    using s by (simp add: conn_section_def conn_call_def ReleaseConnection_def)
  then obtain s' where run': "run ?sec (\<lambda>_. True) [Call 1 (Op_release (Some 0)), Section 1 0] s = Some s'"
    and s': "threads s' ! 1 = Blocked () (Op_release (Some 0))"
    unfolding ends_in_iff by blast
  from conn_pool_exception_deadlock [OF run_reach [OF run] _ run_reach [OF run']] s
  have "shared s' = shared s" by fastforce
  with run_reach [OF run] run_reach [OF run'] s(1) s' show ?thesis
    by (intro exI [of _ s] exI [of _ s'] conjI) simp_all
qed

end
