(* ===== verification/C_String.thy ===== *)
theory C_String
  imports Leano_Prelude "HOL-Library.Char_ord"
begin

section \<open>Blocks of memory and the C string functions\<close>

text \<open>
  A block of memory is the list of its bytes, all of them: the length of the list is the size of the
  block. The string functions of the C library that the sources call are modelled on blocks with an
  offset into them. They read up to a NUL byte, and a read or a write past the end of the block is
  the fault \<open>Out_of_bounds\<close>. What a fresh block holds is not known: it is a parameter of
  \<open>malloc_block\<close> and \<open>realloc_block\<close>, of which the block takes as many bytes as it needs.
\<close>

abbreviation NUL :: char where "NUL \<equiv> CHR 0x00"
abbreviation CR :: char where "CR \<equiv> CHR 0x0D"
abbreviation LF :: char where "LF \<equiv> CHR 0x0A"
abbreviation TAB :: char where "TAB \<equiv> CHR 0x09"

definition malloc_block :: "nat \<Rightarrow> string \<Rightarrow> string" where
  "malloc_block n garbage = take n (garbage @ replicate n NUL)"

definition realloc_block :: "nat \<Rightarrow> string \<Rightarrow> string \<Rightarrow> string" where
  "realloc_block n old garbage = take n (old @ malloc_block n garbage)"

definition write_block :: "string \<Rightarrow> nat \<Rightarrow> string \<Rightarrow> string res" where
  "write_block blk i bs =
     (if i + length bs \<le> length blk then Inr (take i blk @ bs @ drop (i + length bs) blk)
      else Inl Out_of_bounds)"

fun strlen :: "string \<Rightarrow> nat res" where
  "strlen [] = Inl Out_of_bounds"
| "strlen (c # cs) = (if c = NUL then Inr 0 else bind_res (strlen cs) (\<lambda>n. Inr (Suc n)))"

text \<open>\<open>strpbrk(blk + i, accept)\<close>, as the offset of the character found; a null result is \<open>None\<close>.\<close>

fun pbrk_scan :: "string \<Rightarrow> nat \<Rightarrow> string \<Rightarrow> nat option res" where
  "pbrk_scan [] i accept = Inl Out_of_bounds"
| "pbrk_scan (c # cs) i accept =
     (if c = NUL then Inr None
      else if c \<in> set accept then Inr (Some i)
      else pbrk_scan cs (Suc i) accept)"

definition strpbrk :: "string \<Rightarrow> nat \<Rightarrow> string \<Rightarrow> nat option res" where
  "strpbrk blk i accept = pbrk_scan (drop i blk) i accept"

text \<open>
  \<open>strncpy(dst, blk + i, n)\<close> writes \<open>n\<close> bytes whatever the length of the source: the characters up
  to a NUL, then NULs. It adds no NUL when the source is longer.
\<close>

definition strncpy :: "string \<Rightarrow> string \<Rightarrow> nat \<Rightarrow> nat \<Rightarrow> string res" where
  "strncpy dst blk i n =
     (let src = drop i blk; s = takeWhile (\<lambda>c. c \<noteq> NUL) (take n src)
      in if length blk < i \<or> length dst < n \<or> (length src < n \<and> NUL \<notin> set src)
         then Inl Out_of_bounds
         else Inr (s @ replicate (n - length s) NUL @ drop n dst))"

definition tolower :: "char \<Rightarrow> char" where
  "tolower c = (if CHR ''A'' \<le> c \<and> c \<le> CHR ''Z'' then char_of (of_char c + 32 :: nat) else c)"

text \<open>\<open>strncasecmp(blk + i, lit, length lit) == 0\<close> for a literal without NUL.\<close>

fun case_prefix :: "string \<Rightarrow> string \<Rightarrow> bool res" where
  "case_prefix src [] = Inr True"
| "case_prefix [] (l # ls) = Inl Out_of_bounds"
| "case_prefix (c # cs) (l # ls) =
     (if tolower c = tolower l \<and> c \<noteq> NUL then case_prefix cs ls else Inr False)"

definition strncasecmp_eq :: "string \<Rightarrow> nat \<Rightarrow> string \<Rightarrow> bool res" where
  "strncasecmp_eq blk i lit = case_prefix (drop i blk) lit"

text \<open>The decimal text of a number, as \<open>%d\<close> and the streams print it.\<close>

fun decimal :: "nat \<Rightarrow> string" where
  "decimal n =
     (if n < 10 then [char_of (48 + n)] else decimal (n div 10) @ [char_of (48 + n mod 10)])"

declare decimal.simps [simp del]

lemma digit_chars:
  "char_of (48 :: nat) = CHR ''0''" "char_of (49 :: nat) = CHR ''1''"
  "char_of (50 :: nat) = CHR ''2''" "char_of (51 :: nat) = CHR ''3''"
  "char_of (52 :: nat) = CHR ''4''" "char_of (53 :: nat) = CHR ''5''"
  "char_of (54 :: nat) = CHR ''6''" "char_of (55 :: nat) = CHR ''7''"
  "char_of (56 :: nat) = CHR ''8''" "char_of (57 :: nat) = CHR ''9''"
  by (simp_all add: char_of_def bit_iff_odd)

definition decimal_int :: "int \<Rightarrow> string" where
  "decimal_int n = (if n < 0 then CHR ''-'' # decimal (nat (- n)) else decimal (nat n))"

subsection \<open>Lemmas\<close>

lemma length_malloc_block [simp]: "length (malloc_block n g) = n"
  by (simp add: malloc_block_def)

lemma length_realloc_block [simp]: "length (realloc_block n old g) = n"
  by (simp add: realloc_block_def)

lemma drop_split: "drop i xs = a @ b \<Longrightarrow> drop (i + length a) xs = b"
  by (metis add.commute append_eq_conv_conj drop_drop)

lemma drop_split_Cons: "drop i xs = a @ x # b \<Longrightarrow> drop (Suc (i + length a)) xs = b"
  by (metis drop_split drop_Suc tl_drop list.sel(3))

lemma drop_nonempty_le: "drop i xs = a @ x # b \<Longrightarrow> i \<le> length xs"
  by (cases "i \<le> length xs") auto

lemma write_block_length: "write_block blk i bs = Inr blk' \<Longrightarrow> length blk' = length blk"
  by (auto simp: write_block_def split: if_splits)

lemma strlen_append: "NUL \<notin> set a \<Longrightarrow> strlen (a @ NUL # b) = Inr (length a)"
  by (induction a) auto

lemma strlen_no_nul: "NUL \<notin> set a \<Longrightarrow> strlen a = Inl Out_of_bounds"
  by (induction a) auto

lemma strlen_Inr: "strlen a = Inr n \<Longrightarrow> n < length a \<and> NUL \<notin> set (take n a) \<and> a ! n = NUL"
  by (induction a arbitrary: n) (auto simp: bind_res_Inr_iff split: if_splits)

lemma strlen_Inl: "strlen a = Inl e \<Longrightarrow> e = Out_of_bounds \<and> NUL \<notin> set a"
  by (induction a) (auto simp: bind_res_Inl_iff split: if_splits)

lemma strlen_behind: "strlen (a @ b) = Inr n \<Longrightarrow> NUL \<notin> set a \<Longrightarrow> length a \<le> n"
  by (drule strlen_Inr) (metis not_le nth_append nth_mem)

definition skips :: "string \<Rightarrow> string \<Rightarrow> bool" where
  "skips accept a \<longleftrightarrow> (\<forall>c \<in> set a. c \<noteq> NUL \<and> c \<notin> set accept)"

lemma skips_simps [simp]:
  "skips accept []"
  "skips accept (c # a) \<longleftrightarrow> c \<noteq> NUL \<and> c \<notin> set accept \<and> skips accept a"
  "skips accept (a @ b) \<longleftrightarrow> skips accept a \<and> skips accept b"
  by (auto simp: skips_def)

lemma pbrk_scan_found:
  "skips accept a \<Longrightarrow> x \<in> set accept \<Longrightarrow> x \<noteq> NUL \<Longrightarrow>
    pbrk_scan (a @ x # b) i accept = Inr (Some (i + length a))"
  by (induction a arbitrary: i) auto

lemma strpbrk_found:
  "drop i blk = a @ x # b \<Longrightarrow> skips accept a \<Longrightarrow> x \<in> set accept \<Longrightarrow> x \<noteq> NUL \<Longrightarrow>
    strpbrk blk i accept = Inr (Some (i + length a))"
  by (simp add: strpbrk_def pbrk_scan_found)

lemma pbrk_scan_none: "skips accept a \<Longrightarrow> pbrk_scan (a @ NUL # b) i accept = Inr None"
  by (induction a arbitrary: i) auto

lemma strpbrk_none:
  "drop i blk = a @ NUL # b \<Longrightarrow> skips accept a \<Longrightarrow> strpbrk blk i accept = Inr None"
  by (simp add: strpbrk_def pbrk_scan_none)

lemma pbrk_scan_oob: "skips accept a \<Longrightarrow> pbrk_scan a i accept = Inl Out_of_bounds"
  by (induction a arbitrary: i) auto

lemma strpbrk_oob:
  "skips accept (drop i blk) \<Longrightarrow> strpbrk blk i accept = Inl Out_of_bounds"
  by (simp add: strpbrk_def pbrk_scan_oob)

lemma pbrk_scan_Some:
  "pbrk_scan s i accept = Inr (Some j) \<Longrightarrow> i \<le> j \<and> j < i + length s"
  by (induction s arbitrary: i) (force split: if_splits)+

lemma strpbrk_Some:
  "strpbrk blk i accept = Inr (Some j) \<Longrightarrow> i \<le> j \<and> j < length blk"
  using pbrk_scan_Some [of "drop i blk" i accept j] by (auto simp: strpbrk_def)

lemma takeWhile_no_nul: "NUL \<notin> set a \<Longrightarrow> takeWhile (\<lambda>c. c \<noteq> NUL) a = a"
  by (induction a) auto

lemma strncpy_ok:
  assumes "drop i blk = a @ b" and "i \<le> length blk" and "NUL \<notin> set a" and "length a \<le> length dst"
  shows "strncpy dst blk i (length a) = Inr (a @ drop (length a) dst)"
  using assms by (simp add: strncpy_def Let_def takeWhile_no_nul)

lemma strncpy_oob: "length dst < n \<Longrightarrow> strncpy dst blk i n = Inl Out_of_bounds"
  by (simp add: strncpy_def Let_def)

lemma strncpy_length: "strncpy dst blk i n = Inr dst' \<Longrightarrow> length dst' = length dst"
proof -
  assume *: "strncpy dst blk i n = Inr dst'"
  have "length (takeWhile (\<lambda>c. c \<noteq> NUL) (take n (drop i blk))) \<le> n"
    by (rule order.trans [OF length_takeWhile_le]) simp
  with * show ?thesis by (auto simp: strncpy_def Let_def split: if_splits)
qed

end
