(* ===== verification/Logging.thy ===== *)
theory Logging
  imports C_String
begin

section \<open>Logging (include/logging.hpp)\<close>

text \<open>
  A log statement such as \<open>LEANO_LOG_ERROR << a << b;\<close> is a test of the current level, a temporary
  \<open>logger\<close>, one \<open>operator<<\<close> per value and the destructor, which hands the text to the current
  handler. The level and the handler are static variables (\<open>logging\<close>). Handlers are numbered, 0 is
  the \<open>CerrLogHandler\<close>; \<open>log_out\<close> is what the handlers have been given. Values appear as the text
  that the stream makes of them, and the time of a statement as its broken-down fields.
\<close>

datatype LogLevel = Debug | Info | Warning | Error | Critical

fun level_value :: "LogLevel \<Rightarrow> nat" where
  "level_value Debug = 0"
| "level_value Info = 1"
| "level_value Warning = 2"
| "level_value Error = 3"
| "level_value Critical = 4"

lemma level_value_eq: "level_value a = level_value b \<longleftrightarrow> a = b"
  by (cases a; cases b) simp_all

instantiation LogLevel :: linorder
begin

definition less_eq_LogLevel :: "LogLevel \<Rightarrow> LogLevel \<Rightarrow> bool" where
  "a \<le> b \<longleftrightarrow> level_value a \<le> level_value b"

definition less_LogLevel :: "LogLevel \<Rightarrow> LogLevel \<Rightarrow> bool" where
  "a < b \<longleftrightarrow> level_value a < level_value b"

instance
  by standard (auto simp: less_eq_LogLevel_def less_LogLevel_def simp flip: level_value_eq)

end

record tm =
  tm_year :: nat
  tm_mon :: nat
  tm_mday :: nat
  tm_hour :: nat
  tm_min :: nat
  tm_sec :: nat

definition two_digits :: "nat \<Rightarrow> string" where
  "two_digits n = [char_of (48 + n div 10 mod 10), char_of (48 + n mod 10)]"

definition timestamp :: "tm \<Rightarrow> string" where
  "timestamp t = decimal (tm_year t) @ ''-'' @ two_digits (tm_mon t) @ ''-'' @ two_digits (tm_mday t) @
     '' '' @ two_digits (tm_hour t) @ '':'' @ two_digits (tm_min t) @ '':'' @ two_digits (tm_sec t)"

record logging =
  current_level :: LogLevel
  current_handler :: "nat option"
  log_out :: "(nat \<times> string \<times> LogLevel) list"

definition logging_init :: logging where
  "logging_init = \<lparr>current_level = Info, current_handler = Some 0, log_out = []\<rparr>"

record logger =
  stringstream :: string
  logger_level :: LogLevel

definition logger_ctor :: "tm \<Rightarrow> string \<Rightarrow> LogLevel \<Rightarrow> logger" where
  "logger_ctor t prefix level =
     \<lparr>stringstream = ''('' @ timestamp t @ '') ['' @ prefix @ ''] '', logger_level = level\<rparr>"

definition get_current_log_level :: "logging \<Rightarrow> LogLevel" where
  "get_current_log_level st = current_level st"

definition logger_insert :: "logging \<Rightarrow> string \<Rightarrow> logger \<Rightarrow> logger" where
  "logger_insert st value lg =
     (if get_current_log_level st \<le> logger_level lg then lg\<lparr>stringstream := stringstream lg @ value\<rparr> else lg)"

text \<open>The destructor calls through the handler pointer without a test.\<close>

definition logger_dtor :: "logger \<Rightarrow> logging \<Rightarrow> logging res" where
  "logger_dtor lg st =
     (if get_current_log_level st \<le> logger_level lg then
        (let message = stringstream lg @ [LF] in
         case current_handler st of
           None \<Rightarrow> Inl Null_deref
         | Some h \<Rightarrow> Inr (st\<lparr>log_out := log_out st @ [(h, message, logger_level lg)]\<rparr>))
      else Inr st)"

definition setLogLevel :: "LogLevel \<Rightarrow> logging \<Rightarrow> logging" where
  "setLogLevel level st = st\<lparr>current_level := level\<rparr>"

definition setHandler :: "nat option \<Rightarrow> logging \<Rightarrow> logging" where
  "setHandler h st = st\<lparr>current_handler := h\<rparr>"

text \<open>What the default handler does with a message, given what is on the error stream.\<close>

definition CerrLogHandler_log :: "string \<Rightarrow> LogLevel \<Rightarrow> string \<Rightarrow> string" where
  "CerrLogHandler_log msg level cerr = cerr @ msg"

definition cerr_output :: "logging \<Rightarrow> string" where
  "cerr_output st =
     fold (\<lambda>(h, msg, level) cerr. if h = 0 then CerrLogHandler_log msg level cerr else cerr)
       (log_out st) []"

fun level_prefix :: "LogLevel \<Rightarrow> string" where
  "level_prefix Critical = ''CRITICAL''"
| "level_prefix Error = ''ERROR   ''"
| "level_prefix Warning = ''WARNING ''"
| "level_prefix Info = ''INFO    ''"
| "level_prefix Debug = ''DEBUG   ''"

definition log_statement :: "LogLevel \<Rightarrow> tm \<Rightarrow> string list \<Rightarrow> logging \<Rightarrow> logging res" where
  "log_statement level t values st =
     (if get_current_log_level st \<le> level
      then logger_dtor (fold (logger_insert st) values (logger_ctor t (level_prefix level) level)) st
      else Inr st)"

datatype log_call = Log LogLevel tm "string list" | Set_level LogLevel | Set_handler "nat option"

fun log_run :: "log_call list \<Rightarrow> logging \<Rightarrow> logging res" where
  "log_run [] st = Inr st"
| "log_run (Log l t vs # cs) st = bind_res (log_statement l t vs st) (log_run cs)"
| "log_run (Set_level l # cs) st = log_run cs (setLogLevel l st)"
| "log_run (Set_handler h # cs) st = log_run cs (setHandler h st)"

subsection \<open>What is logged\<close>

text \<open>
  The specification: the text of a statement depends on the statement alone, and a statement is
  enabled when its level is at least the one last set. \<open>log_lines\<close> are the enabled statements of a
  list of calls with the handler in force; \<open>None\<close> when one of them meets a null handler.
\<close>

definition log_text :: "LogLevel \<Rightarrow> tm \<Rightarrow> string list \<Rightarrow> string" where
  "log_text l t vs = ''('' @ timestamp t @ '') ['' @ level_prefix l @ ''] '' @ concat vs @ [LF]"

fun log_lines ::
  "LogLevel \<Rightarrow> nat option \<Rightarrow> log_call list \<Rightarrow> (nat \<times> string \<times> LogLevel) list option" where
  "log_lines cur h [] = Some []"
| "log_lines cur h (Set_level l # cs) = log_lines l h cs"
| "log_lines cur h (Set_handler h' # cs) = log_lines cur h' cs"
| "log_lines cur h (Log l t vs # cs) =
     (if l < cur then log_lines cur h cs
      else (case h of
              None \<Rightarrow> None
            | Some n \<Rightarrow> map_option (Cons (n, log_text l t vs, l)) (log_lines cur h cs)))"

lemma fold_logger_insert:
  "get_current_log_level st \<le> logger_level lg \<Longrightarrow>
    fold (logger_insert st) vs lg = lg\<lparr>stringstream := stringstream lg @ concat vs\<rparr>"
  by (induction vs arbitrary: lg) (simp_all add: logger_insert_def)

lemma log_statement_eq:
  "log_statement l t vs st =
    (if l < current_level st then Inr st
     else (case current_handler st of
             None \<Rightarrow> Inl Null_deref
           | Some h \<Rightarrow> Inr (st\<lparr>log_out := log_out st @ [(h, log_text l t vs, l)]\<rparr>)))"
  by (auto simp: log_statement_def logger_ctor_def fold_logger_insert logger_dtor_def log_text_def
      get_current_log_level_def split: option.splits)

lemma log_run_lines:
  "(case log_run cs st of
      Inl e \<Rightarrow> e = Null_deref \<and> log_lines (current_level st) (current_handler st) cs = None
    | Inr st' \<Rightarrow> (\<exists>ls. log_lines (current_level st) (current_handler st) cs = Some ls \<and>
        log_out st' = log_out st @ ls))"
proof (induction cs arbitrary: st)
  case (Cons c cs)
  show ?case
  proof (cases c)
    case (Log l t vs)
    then show ?thesis
      using Cons.IH [of st]
        Cons.IH [of "st\<lparr>log_out := log_out st @ [(the (current_handler st), log_text l t vs, l)]\<rparr>"]
      by (auto simp: log_statement_eq split: option.splits sum.splits)
  next
    case (Set_level l)
    then show ?thesis using Cons.IH [of "setLogLevel l st"] by (auto simp: setLogLevel_def split: sum.splits)
  next
    case (Set_handler h)
    then show ?thesis using Cons.IH [of "setHandler h st"] by (auto simp: setHandler_def split: sum.splits)
  qed
qed simp

lemma cerr_fold:
  "fold (\<lambda>(h, msg, level) cerr. if h = 0 then CerrLogHandler_log msg level cerr else cerr) ls out =
    out @ concat [msg. (h, msg, level) \<leftarrow> ls, h = 0]"
  by (induction ls arbitrary: out) (auto simp: CerrLogHandler_log_def)

lemma cerr_output_eq: "cerr_output st = concat [msg. (h, msg, level) \<leftarrow> log_out st, h = 0]"
  by (simp add: cerr_output_def cerr_fold)

subsection \<open>Properties\<close>

text \<open>
  C39: Logging neither loses, repeats nor mixes messages. From the initial state, after any list of log
  statements and changes of the level and the handler, the handlers have been given exactly the
  enabled statements, in order, each once, with the handler in force and the text closed by a
  newline, and the error stream holds the texts given to the default handler; a fault happens
  exactly when an enabled statement meets a null handler.
\<close>
theorem log_filter:
  "(log_run cs logging_init = Inl Null_deref \<longleftrightarrow> log_lines Info (Some 0) cs = None) \<and>
   (\<forall>st. log_run cs logging_init = Inr st \<longrightarrow> (\<exists>ls. log_lines Info (Some 0) cs = Some ls \<and>
     log_out st = ls \<and> cerr_output st = concat [msg. (h, msg, level) \<leftarrow> ls, h = 0]))"
  using log_run_lines [of logging_init cs] cerr_output_eq
  by (auto simp: logging_init_def split: sum.splits)

theorem log_filter_witness:
  "log_lines Info (Some 0)
     [Log Debug \<lparr>tm_year = 2018, tm_mon = 4, tm_mday = 14, tm_hour = 9, tm_min = 5, tm_sec = 0\<rparr> [''a''],
      Log Info \<lparr>tm_year = 2018, tm_mon = 4, tm_mday = 14, tm_hour = 9, tm_min = 5, tm_sec = 0\<rparr>
        [''a'', ''b'']] =
   Some [(0, ''(2018-04-14 09:05:00) [INFO    ] ab'' @ [LF], Info)]"
proof -
  let ?t = "\<lparr>tm_year = 2018, tm_mon = 4, tm_mday = 14, tm_hour = 9, tm_min = 5, tm_sec = 0\<rparr>"
  let ?st = "logging_init\<lparr>log_out := [(0, ''(2018-04-14 09:05:00) [INFO    ] ab'' @ [LF], Info)]\<rparr>"
  have "log_run [Log Debug ?t [''a''], Log Info ?t [''a'', ''b'']] logging_init = Inr ?st"
    by (simp add: log_statement_eq logging_init_def less_LogLevel_def log_text_def timestamp_def
        two_digits_def decimal.simps digit_chars)
  then have "log_lines Info (Some 0) [Log Debug ?t [''a''], Log Info ?t [''a'', ''b'']] =
      Some (log_out ?st)"
    using log_filter by blast
  then show ?thesis by (simp add: logging_init_def)
qed

end
