(* ===== verification/Configuration.thy ===== *)
theory Configuration
  imports Logging
begin

section \<open>The configuration (src/config.cpp, include/config.h, include/aocsingleton.hpp)\<close>

text \<open>
  \<open>FdConf\<close> is the struct of settings. \<open>Config::init\<close> reads it from a JSON file; jsoncpp is not
  part of the program: \<open>json_api\<close> says what \<open>v[key]\<close>, \<open>asInt\<close> and \<open>asString\<close> do on its values
  (\<open>None\<close> for an exception), and \<open>config_file\<close> what opening and parsing the file does. The
  build with \<open>NWITH_FILECONF\<close> is not modelled: it assigns string literals to \<open>int\<close> members and does
  not compile. The int members of a new object are indeterminate: they are parameters.
\<close>

record FdConf =
  Fid :: string
  TaskID :: string
  EngineType :: string
  TaskType :: string
  Task_Shuffle :: int
  Thread_Num :: int
  Server :: string
  Ceph_path :: string
  DBData_Host :: string
  DBData_User :: string
  DBData_Pwd :: string
  DBTask_Host :: string
  DBTask_User :: string
  DBTask_Pwd :: string

definition Config_ctor :: "int \<Rightarrow> int \<Rightarrow> FdConf" where
  "Config_ctor shuffle threads = \<lparr>Fid = [], TaskID = [], EngineType = [], TaskType = [],
     Task_Shuffle = shuffle, Thread_Num = threads, Server = [], Ceph_path = [], DBData_Host = [],
     DBData_User = [], DBData_Pwd = [], DBTask_Host = [], DBTask_User = [], DBTask_Pwd = []\<rparr>"

record 'v json_api =
  js_index :: "'v \<Rightarrow> string \<Rightarrow> 'v option"
  as_int :: "'v \<Rightarrow> int option"
  as_string :: "'v \<Rightarrow> string option"

datatype 'v config_file = Not_open | Parse_failed | Parse_throws | Parsed 'v

datatype setting = Int_setting "int \<Rightarrow> FdConf \<Rightarrow> FdConf" | String_setting "string \<Rightarrow> FdConf \<Rightarrow> FdConf"

definition set_Fid :: "string \<Rightarrow> FdConf \<Rightarrow> FdConf" where "set_Fid x c = c\<lparr>Fid := x\<rparr>"
definition set_TaskID :: "string \<Rightarrow> FdConf \<Rightarrow> FdConf" where "set_TaskID x c = c\<lparr>TaskID := x\<rparr>"
definition set_EngineType :: "string \<Rightarrow> FdConf \<Rightarrow> FdConf" where
  "set_EngineType x c = c\<lparr>EngineType := x\<rparr>"
definition set_TaskType :: "string \<Rightarrow> FdConf \<Rightarrow> FdConf" where "set_TaskType x c = c\<lparr>TaskType := x\<rparr>"
definition set_Task_Shuffle :: "int \<Rightarrow> FdConf \<Rightarrow> FdConf" where
  "set_Task_Shuffle x c = c\<lparr>Task_Shuffle := x\<rparr>"
definition set_Thread_Num :: "int \<Rightarrow> FdConf \<Rightarrow> FdConf" where
  "set_Thread_Num x c = c\<lparr>Thread_Num := x\<rparr>"
definition set_Server :: "string \<Rightarrow> FdConf \<Rightarrow> FdConf" where "set_Server x c = c\<lparr>Server := x\<rparr>"
definition set_Ceph_path :: "string \<Rightarrow> FdConf \<Rightarrow> FdConf" where "set_Ceph_path x c = c\<lparr>Ceph_path := x\<rparr>"
definition set_DBData_Host :: "string \<Rightarrow> FdConf \<Rightarrow> FdConf" where
  "set_DBData_Host x c = c\<lparr>DBData_Host := x\<rparr>"
definition set_DBData_User :: "string \<Rightarrow> FdConf \<Rightarrow> FdConf" where
  "set_DBData_User x c = c\<lparr>DBData_User := x\<rparr>"
definition set_DBData_Pwd :: "string \<Rightarrow> FdConf \<Rightarrow> FdConf" where
  "set_DBData_Pwd x c = c\<lparr>DBData_Pwd := x\<rparr>"
definition set_DBTask_Host :: "string \<Rightarrow> FdConf \<Rightarrow> FdConf" where
  "set_DBTask_Host x c = c\<lparr>DBTask_Host := x\<rparr>"
definition set_DBTask_User :: "string \<Rightarrow> FdConf \<Rightarrow> FdConf" where
  "set_DBTask_User x c = c\<lparr>DBTask_User := x\<rparr>"
definition set_DBTask_Pwd :: "string \<Rightarrow> FdConf \<Rightarrow> FdConf" where
  "set_DBTask_Pwd x c = c\<lparr>DBTask_Pwd := x\<rparr>"

lemmas setting_defs = set_Fid_def set_TaskID_def set_EngineType_def set_TaskType_def
  set_Task_Shuffle_def set_Thread_Num_def set_Server_def set_Ceph_path_def set_DBData_Host_def
  set_DBData_User_def set_DBData_Pwd_def set_DBTask_Host_def set_DBTask_User_def
  set_DBTask_Pwd_def

text \<open>The getters.\<close>

definition get_Fid :: "FdConf \<Rightarrow> string" where "get_Fid c = Fid c"
definition get_TaskID :: "FdConf \<Rightarrow> string" where "get_TaskID c = TaskID c"
definition get_EngineType :: "FdConf \<Rightarrow> string" where "get_EngineType c = EngineType c"
definition get_TaskType :: "FdConf \<Rightarrow> string" where "get_TaskType c = TaskType c"
definition get_Task_Shuffle :: "FdConf \<Rightarrow> int" where "get_Task_Shuffle c = Task_Shuffle c"
definition get_Thread_Num :: "FdConf \<Rightarrow> int" where "get_Thread_Num c = Thread_Num c"
definition get_Server :: "FdConf \<Rightarrow> string" where "get_Server c = Server c"
definition get_Ceph_path :: "FdConf \<Rightarrow> string" where "get_Ceph_path c = Ceph_path c"
definition get_DBData_Host :: "FdConf \<Rightarrow> string" where "get_DBData_Host c = DBData_Host c"
definition get_DBData_User :: "FdConf \<Rightarrow> string" where "get_DBData_User c = DBData_User c"
definition get_DBData_Pwd :: "FdConf \<Rightarrow> string" where "get_DBData_Pwd c = DBData_Pwd c"
definition get_DBTask_Host :: "FdConf \<Rightarrow> string" where "get_DBTask_Host c = DBTask_Host c"
definition get_DBTask_User :: "FdConf \<Rightarrow> string" where "get_DBTask_User c = DBTask_User c"
definition get_DBTask_Pwd :: "FdConf \<Rightarrow> string" where "get_DBTask_Pwd c = DBTask_Pwd c"

lemmas getter_defs = get_Fid_def get_TaskID_def get_EngineType_def get_TaskType_def
  get_Task_Shuffle_def get_Thread_Num_def get_Server_def get_Ceph_path_def
  get_DBData_Host_def get_DBData_User_def get_DBData_Pwd_def
  get_DBTask_Host_def get_DBTask_User_def get_DBTask_Pwd_def

text \<open>The assignments of \<open>init\<close>, in order: the key in the file and the member.\<close>

definition file_settings :: "(string \<times> setting) list" where
  "file_settings =
     [(''shuffle'', Int_setting set_Task_Shuffle), (''thread_num'', Int_setting set_Thread_Num),
      (''dbdata_host'', String_setting set_DBData_Host),
      (''dbdata_user'', String_setting set_DBData_User),
      (''dbdata_pwd'', String_setting set_DBData_Pwd),
      (''dbtask_host'', String_setting set_DBTask_Host),
      (''dbtask_user'', String_setting set_DBTask_User),
      (''dbtask_pwd'', String_setting set_DBTask_Pwd)]"

fun read_setting :: "'v json_api \<Rightarrow> 'v \<Rightarrow> string \<times> setting \<Rightarrow> (FdConf \<Rightarrow> FdConf) option" where
  "read_setting api v (key, Int_setting f) =
     map_option f (Option.bind (js_index api v key) (as_int api))"
| "read_setting api v (key, String_setting f) =
     map_option f (Option.bind (js_index api v key) (as_string api))"

text \<open>The assignments up to the first one that throws, and whether none did.\<close>

fun load_settings ::
  "'v json_api \<Rightarrow> 'v \<Rightarrow> (string \<times> setting) list \<Rightarrow> FdConf \<Rightarrow> FdConf \<times> bool" where
  "load_settings api v [] c = (c, True)"
| "load_settings api v (s # ss) c =
     (case read_setting api v s of
        None \<Rightarrow> (c, False)
      | Some f \<Rightarrow> load_settings api v ss (f c))"

text \<open>
  \<open>Config::init\<close> with the logging state: the handler \<open>catch (...)\<close> logs an error. The two messages
  on the standard output are not modelled.
\<close>

definition config_caught ::
  "tm \<Rightarrow> string \<Rightarrow> FdConf \<Rightarrow> logging \<Rightarrow> (FdConf \<times> bool \<times> logging) res" where
  "config_caught t cfg_path c st =
     bind_res (log_statement Error t [''Parse json config'', cfg_path, ''wrong''] st)
       (\<lambda>st'. Inr (c, False, st'))"

definition Config_init ::
  "'v json_api \<Rightarrow> tm \<Rightarrow> string \<Rightarrow> 'v config_file \<Rightarrow> FdConf \<Rightarrow> logging \<Rightarrow>
   (FdConf \<times> bool \<times> logging) res" where
  "Config_init api t cfg_path file c st =
     (case file of
        Not_open \<Rightarrow> Inr (c, False, st)
      | Parse_failed \<Rightarrow> Inr (c, False, st)
      | Parse_throws \<Rightarrow> config_caught t cfg_path c st
      | Parsed v \<Rightarrow>
          (case load_settings api v file_settings c of
             (c', False) \<Rightarrow> config_caught t cfg_path c' st
           | (c', True) \<Rightarrow>
               Inr (c'\<lparr>Fid := '''', TaskID := '''', EngineType := ''unknown'', TaskType := ''unknown'',
                   Server := ''127.0.0.1'', Ceph_path := ''''\<rparr>, True, st)))"

definition Config_output :: "tm \<Rightarrow> FdConf \<Rightarrow> logging \<Rightarrow> logging res" where
  "Config_output t c =
     log_run
       [Log Info t [''Fid: '', Fid c], Log Info t [''TaskID: '', TaskID c],
        Log Info t [''EngineType: '', EngineType c], Log Info t [''TaskType: '', TaskType c],
        Log Info t [''Task_Shuffle: '', decimal_int (Task_Shuffle c)],
        Log Info t [''Thread_Num: '', decimal_int (Thread_Num c)],
        Log Info t [''Server: '', Server c], Log Info t [''Ceph_path: '', Ceph_path c],
        Log Info t [''DBData_Host: '', DBData_Host c],
        Log Info t [''DBData_User: '', DBData_User c],
        Log Info t [''DBData_Pwd: '', DBData_Pwd c],
        Log Info t [''DBTask_Host: '', DBTask_Host c],
        Log Info t [''DBTask_User: '', DBTask_User c],
        Log Info t [''DBTask_Pwd: '', DBTask_Pwd c]]"

subsection \<open>The singleton\<close>

text \<open>
  \<open>IAocSingleton<T>\<close>. Objects are named by the order of their creation; \<open>objects\<close> holds the ones not
  deleted. A use of the object through a pointer is a function on its contents.
\<close>

record 'a singleton =
  the_instance :: "nat option"
  objects :: "nat \<Rightarrow> 'a option"
  next_object :: nat

definition singleton_init :: "'a singleton" where
  "singleton_init = \<lparr>the_instance = None, objects = (\<lambda>_. None), next_object = 0\<rparr>"

definition get_instance :: "'a \<Rightarrow> 'a singleton \<Rightarrow> nat \<times> 'a singleton" where
  "get_instance new s =
     (case the_instance s of
        Some p \<Rightarrow> (p, s)
      | None \<Rightarrow>
          (let p = next_object s in
           (p, s\<lparr>the_instance := Some p, objects := (objects s)(p \<mapsto> new), next_object := Suc p\<rparr>)))"

definition release :: "'a singleton \<Rightarrow> 'a singleton" where
  "release s =
     (case the_instance s of
        None \<Rightarrow> s
      | Some p \<Rightarrow> s\<lparr>objects := (objects s)(p := None), the_instance := None\<rparr>)"

definition use_object :: "nat \<Rightarrow> ('a \<Rightarrow> 'a) \<Rightarrow> 'a singleton \<Rightarrow> 'a singleton res" where
  "use_object p f s =
     (case objects s p of
        None \<Rightarrow> Inl Dangling
      | Some x \<Rightarrow> Inr (s\<lparr>objects := (objects s)(p \<mapsto> f x)\<rparr>))"

datatype 'a singleton_call = Get_instance 'a | Release_instance | Use nat "'a \<Rightarrow> 'a"

fun singleton_run :: "'a singleton_call list \<Rightarrow> 'a singleton \<Rightarrow> 'a singleton res" where
  "singleton_run [] s = Inr s"
| "singleton_run (Get_instance new # cs) s = singleton_run cs (snd (get_instance new s))"
| "singleton_run (Release_instance # cs) s = singleton_run cs (release s)"
| "singleton_run (Use p f # cs) s = bind_res (use_object p f s) (singleton_run cs)"

subsection \<open>Lemmas\<close>

lemma load_settings_eq:
  "load_settings api v ss c =
    (fold (\<lambda>s. the (read_setting api v s)) (takeWhile (\<lambda>s. read_setting api v s \<noteq> None) ss) c,
     \<forall>s \<in> set ss. read_setting api v s \<noteq> None)"
  by (induction ss arbitrary: c) (auto split: option.splits)

definition rest_same :: "FdConf \<Rightarrow> FdConf \<Rightarrow> bool" where
  "rest_same c c' \<longleftrightarrow> Fid c' = Fid c \<and> TaskID c' = TaskID c \<and> EngineType c' = EngineType c \<and>
     TaskType c' = TaskType c \<and> Server c' = Server c \<and> Ceph_path c' = Ceph_path c"

lemma rest_same_refl [simp]: "rest_same c c"
  by (simp add: rest_same_def)

lemma read_setting_rest_same:
  "read_setting api v s = Some f \<Longrightarrow> s \<in> set file_settings \<Longrightarrow> rest_same c (f c)"
  by (auto simp: file_settings_def setting_defs rest_same_def)

lemma load_settings_rest_same:
  "set ss \<subseteq> set file_settings \<Longrightarrow> rest_same c (fst (load_settings api v ss c))"
proof (induction ss arbitrary: c)
  case (Cons s ss)
  then show ?case
    using read_setting_rest_same [of api v s]
    by (auto simp: rest_same_def split: option.splits)
qed simp

lemma load_settings_all:
  assumes "load_settings api v file_settings c = (c', True)"
  shows "Option.bind (js_index api v ''shuffle'') (as_int api) = Some (Task_Shuffle c') \<and>
    Option.bind (js_index api v ''thread_num'') (as_int api) = Some (Thread_Num c') \<and>
    Option.bind (js_index api v ''dbdata_host'') (as_string api) = Some (DBData_Host c') \<and>
    Option.bind (js_index api v ''dbdata_user'') (as_string api) = Some (DBData_User c') \<and>
    Option.bind (js_index api v ''dbdata_pwd'') (as_string api) = Some (DBData_Pwd c') \<and>
    Option.bind (js_index api v ''dbtask_host'') (as_string api) = Some (DBTask_Host c') \<and>
    Option.bind (js_index api v ''dbtask_user'') (as_string api) = Some (DBTask_User c') \<and>
    Option.bind (js_index api v ''dbtask_pwd'') (as_string api) = Some (DBTask_Pwd c')"
  using assms by (auto simp: file_settings_def setting_defs split: option.splits)

text \<open>What the getters give after a complete load.\<close>

definition config_values :: "'v json_api \<Rightarrow> 'v \<Rightarrow> FdConf \<Rightarrow> bool" where
  "config_values api v c \<longleftrightarrow>
     Option.bind (js_index api v ''shuffle'') (as_int api) = Some (get_Task_Shuffle c) \<and>
     Option.bind (js_index api v ''thread_num'') (as_int api) = Some (get_Thread_Num c) \<and>
     Option.bind (js_index api v ''dbdata_host'') (as_string api) = Some (get_DBData_Host c) \<and>
     Option.bind (js_index api v ''dbdata_user'') (as_string api) = Some (get_DBData_User c) \<and>
     Option.bind (js_index api v ''dbdata_pwd'') (as_string api) = Some (get_DBData_Pwd c) \<and>
     Option.bind (js_index api v ''dbtask_host'') (as_string api) = Some (get_DBTask_Host c) \<and>
     Option.bind (js_index api v ''dbtask_user'') (as_string api) = Some (get_DBTask_User c) \<and>
     Option.bind (js_index api v ''dbtask_pwd'') (as_string api) = Some (get_DBTask_Pwd c) \<and>
     get_Fid c = [] \<and> get_TaskID c = [] \<and> get_EngineType c = ''unknown'' \<and>
     get_TaskType c = ''unknown'' \<and> get_Server c = ''127.0.0.1'' \<and> get_Ceph_path c = []"

text \<open>The members that a file sets before its first bad key, and whether it has one.\<close>

definition partial_load :: "'v json_api \<Rightarrow> 'v config_file \<Rightarrow> FdConf \<Rightarrow> FdConf" where
  "partial_load api cf c =
     (case cf of
        Parsed v \<Rightarrow> fold (\<lambda>s. the (read_setting api v s))
          (takeWhile (\<lambda>s. read_setting api v s \<noteq> None) file_settings) c
      | _ \<Rightarrow> c)"

definition config_good :: "'v json_api \<Rightarrow> 'v config_file \<Rightarrow> bool" where
  "config_good api cf \<longleftrightarrow>
     (case cf of Parsed v \<Rightarrow> list_all (\<lambda>s. read_setting api v s \<noteq> None) file_settings | _ \<Rightarrow> False)"

definition config_throws :: "'v json_api \<Rightarrow> 'v config_file \<Rightarrow> bool" where
  "config_throws api cf \<longleftrightarrow>
     (case cf of Parse_throws \<Rightarrow> True | Parsed v \<Rightarrow> \<not> config_good api cf | _ \<Rightarrow> False)"

lemma partial_load_rest_same: "rest_same c (partial_load api cf c)"
proof (cases cf)
  case (Parsed v)
  with load_settings_rest_same [of file_settings c api v] load_settings_eq [of api v file_settings c]
  show ?thesis by (simp add: partial_load_def)
qed (simp_all add: partial_load_def)

lemma load_settings_partial:
  "load_settings api v file_settings c =
    (partial_load api (Parsed v) c, config_good api (Parsed v))"
  by (simp add: load_settings_eq partial_load_def config_good_def list_all_iff)

lemma Config_init_fails:
  assumes "\<not> config_good api cf"
  shows "Config_init api t path cf c st =
    (if config_throws api cf then config_caught t path (partial_load api cf c) st
     else Inr (partial_load api cf c, False, st))"
proof (cases cf)
  case (Parsed v)
  with assms show ?thesis by (simp add: Config_init_def load_settings_partial config_throws_def)
qed (simp_all add: Config_init_def config_throws_def partial_load_def)

lemma Config_init_good:
  assumes "config_good api cf"
  obtains v c' where "cf = Parsed v" "Config_init api t path cf c st = Inr (c', True, st)"
    "config_values api v c'"
proof -
  from assms obtain v where v: "cf = Parsed v"
    by (auto simp: config_good_def split: config_file.splits)
  with assms have "load_settings api v file_settings c = (partial_load api cf c, True)"
    by (simp add: load_settings_partial)
  with load_settings_all [OF this] v show ?thesis
    by (intro that) (auto simp: Config_init_def config_values_def getter_defs)
qed

lemma config_caught_eq:
  "config_caught t path c st =
    (if Error < current_level st then Inr (c, False, st)
     else (case current_handler st of
             None \<Rightarrow> Inl Null_deref
           | Some h \<Rightarrow> Inr (c, False, st\<lparr>log_out := log_out st @
               [(h, log_text Error t [''Parse json config'', path, ''wrong''], Error)]\<rparr>)))"
  by (simp add: config_caught_def log_statement_eq split: option.split)

definition one_instance :: "'a singleton \<Rightarrow> bool" where
  "one_instance s \<longleftrightarrow> (\<forall>p. objects s p = None \<longleftrightarrow> the_instance s \<noteq> Some p)"

lemma singleton_run_one_instance:
  "singleton_run cs s = Inr s' \<Longrightarrow> one_instance s \<Longrightarrow> one_instance s'"
proof (induction cs s rule: singleton_run.induct)
  case (2 new cs s)
  have "one_instance (snd (get_instance new s))"
    using "2.prems"(2) by (auto simp: get_instance_def one_instance_def Let_def split: option.splits)
  with 2 show ?case by simp
next
  case (3 cs s)
  have "one_instance (release s)"
    using "3.prems"(2) by (auto simp: release_def one_instance_def split: option.splits)
  with 3 show ?case by simp
next
  case (4 p f cs s)
  from "4.prems"(1) obtain s1 where s1: "use_object p f s = Inr s1" "singleton_run cs s1 = Inr s'"
    by (auto simp: bind_res_Inr_iff)
  obtain x where x: "objects s p = Some x" "s1 = s\<lparr>objects := (objects s)(p \<mapsto> f x)\<rparr>"
    using s1(1) by (auto simp: use_object_def split: option.splits)
  have "the_instance s = Some p"
    using "4.prems"(2) x(1) unfolding one_instance_def by (metis option.distinct(1))
  then have "one_instance s1"
    using "4.prems"(2) x(2) by (simp add: one_instance_def)
  with 4 s1 show ?case by simp
qed simp

subsection \<open>Properties\<close>

text \<open>
  C38: \<open>Config::init\<close> returns true exactly when the file opens, parses and all eight keys convert to
  the types of their members; then each of the eight getters gives the value of its key and the other
  six give their fixed values. When it returns false the six others are as before, and of the
  eight settings the ones before the first key that does not convert have been overwritten; an
  exception is logged once, at the level of errors. It dereferences a null pointer exactly when
  that message is enabled and the log handler is null.
\<close>
theorem config_init_result:
  "case Config_init api t path cf c st of
     Inl e \<Rightarrow> e = Null_deref \<and> config_throws api cf \<and> current_level st \<le> Error \<and>
       current_handler st = None
   | Inr (c', ok, st') \<Rightarrow> ok = config_good api cf \<and>
       (if ok then st' = st \<and> (case cf of Parsed v \<Rightarrow> config_values api v c' | _ \<Rightarrow> False)
        else rest_same c c' \<and> c' = partial_load api cf c \<and>
          log_lines (current_level st) (current_handler st)
            (if config_throws api cf then [Log Error t [''Parse json config'', path, ''wrong'']]
             else []) = Some (drop (length (log_out st)) (log_out st')))"
proof (cases "config_good api cf")
  case True
  from Config_init_good [OF True, of t path c st] True show ?thesis by fastforce
next
  case False
  then show ?thesis
    by (auto simp: Config_init_fails config_caught_eq partial_load_rest_same not_less
        dest: leD split: option.split)
qed

text \<open>There is at most one instance. After any sequence of \<open>get_instance\<close>, \<open>release\<close> and uses through
  pointers, the objects that exist are the current instance alone; so a pointer can be used
  exactly as long as it is the current instance, and dangles from the next \<open>release\<close> on.
\<close>
theorem singleton_one_instance:
  assumes "singleton_run cs singleton_init = Inr s"
  shows "(objects s p \<noteq> None \<longleftrightarrow> the_instance s = Some p) \<and>
    (use_object p f s = Inl Dangling \<longleftrightarrow> the_instance s \<noteq> Some p)"
proof -
  have "one_instance s"
    by (rule singleton_run_one_instance [OF assms]) (simp add: one_instance_def singleton_init_def)
  then have "objects s p \<noteq> None \<longleftrightarrow> the_instance s = Some p"
    by (simp add: one_instance_def)
  then show ?thesis by (auto simp: use_object_def split: option.splits)
qed

subsection \<open>Witnesses\<close>

text \<open>A small JSON interface for the witnesses: an object maps keys to integers or strings.\<close>

datatype demo_json = J_int int | J_string string | J_object "(string \<times> demo_json) list" | J_null

definition demo_api :: "demo_json json_api" where
  "demo_api =
     \<lparr>js_index = (\<lambda>v k. case v of
        J_object kvs \<Rightarrow> (case map_of kvs k of None \<Rightarrow> Some J_null | Some x \<Rightarrow> Some x) | _ \<Rightarrow> None),
      as_int = (\<lambda>v. case v of J_int n \<Rightarrow> Some n | J_null \<Rightarrow> Some 0 | _ \<Rightarrow> None),
      as_string = (\<lambda>v. case v of J_string s \<Rightarrow> Some s | J_null \<Rightarrow> Some [] | _ \<Rightarrow> None)\<rparr>"

definition convert_cfg :: demo_json where
  "convert_cfg = J_object
     [(''shuffle'', J_int 1), (''thread_num'', J_int 1), (''dbdata_host'', J_string ''192.168.1.32''),
      (''dbdata_user'', J_string ''root''), (''dbdata_pwd'', J_string ''root''),
      (''dbtask_host'', J_string ''192.168.1.32''), (''dbtask_user'', J_string ''root''),
      (''dbtask_pwd'', J_string ''root'')]"

theorem config_init_result_witness:
  "case Config_init demo_api \<lparr>tm_year = 2018, tm_mon = 4, tm_mday = 14, tm_hour = 9, tm_min = 5,
       tm_sec = 0\<rparr> ''convert.cfg'' (Parsed convert_cfg) (Config_ctor 7 7) logging_init of
     Inl e \<Rightarrow> False
   | Inr (c', ok, st') \<Rightarrow> ok \<and> get_Thread_Num c' = 1 \<and> get_DBTask_Host c' = ''192.168.1.32''"
proof -
  have "config_good demo_api (Parsed convert_cfg)"
    by (simp add: config_good_def file_settings_def demo_api_def convert_cfg_def)
  moreover from this have "\<not> config_throws demo_api (Parsed convert_cfg)"
    by (simp add: config_throws_def)
  ultimately show ?thesis
    using config_init_result [where api = demo_api and cf = "Parsed convert_cfg" and
        t = "\<lparr>tm_year = 2018, tm_mon = 4, tm_mday = 14, tm_hour = 9, tm_min = 5, tm_sec = 0\<rparr>" and
        path = "''convert.cfg''" and c = "Config_ctor 7 7" and st = logging_init]
    by (auto simp: config_values_def demo_api_def convert_cfg_def split: sum.splits)
qed

theorem singleton_one_instance_witness:
  "(case singleton_run [Get_instance (3 :: nat), Use 0 Suc, Release_instance, Get_instance 5] singleton_init of
      Inl e \<Rightarrow> False
    | Inr s \<Rightarrow> the_instance s = Some 1 \<and> use_object 0 Suc s = Inl Dangling)"
proof -
  obtain s where s: "singleton_run [Get_instance (3 :: nat), Use 0 Suc, Release_instance,
      Get_instance 5] singleton_init = Inr s" "the_instance s = Some 1"
    by (simp add: singleton_init_def get_instance_def use_object_def release_def)
  with singleton_one_instance [OF s(1), of 0 Suc] show ?thesis by simp
qed

end
