(* ===== verification/Lazy_Instance.thy ===== *)
theory Lazy_Instance
  imports Configuration Conn_Pool
begin

section \<open>Lazy instances and several threads\<close>

text \<open>
  \<open>ConnPool::GetInstance\<close> (src/connection_pool.cpp) and \<open>IAocSingleton<T>::get_instance\<close>
  (include/aocsingleton.hpp) have the same body: test a static pointer, make an object if it is null,
  assign it, read the pointer again and return it. No lock is taken. Here the body is cut at its
  accesses to the pointer, for any number of threads whose steps interleave; memory is sequentially
  consistent. \<open>construct k\<close> is what the \<open>k\<close>-th \<open>new\<close> makes, \<open>None\<close> when its constructor throws;
  objects are named by the order in which they are made.
\<close>

datatype lazy_pc = Outside | Building | Assigning nat | Reading

record 'a lazy =
  the_static :: "nat option"
  made :: "'a list"
  tries :: nat
  callers :: "lazy_pc list"
  returned :: "(nat \<times> nat option) list"

definition lazy_start :: "nat \<Rightarrow> 'a lazy" where
  "lazy_start n =
     \<lparr>the_static = None, made = [], tries = 0, callers = replicate n Outside, returned = []\<rparr>"

text \<open>The next step of thread \<open>i\<close>. A schedule says whose turn it is.\<close>

definition lazy_move :: "(nat \<Rightarrow> 'a option) \<Rightarrow> nat \<Rightarrow> 'a lazy \<Rightarrow> 'a lazy" where
  "lazy_move construct i s =
     (if length (callers s) \<le> i then s
      else let at = \<lambda>pc. s\<lparr>callers := (callers s)[i := pc]\<rparr> in
        case callers s ! i of
          Outside \<Rightarrow> at (if the_static s = None then Building else Reading)
        | Building \<Rightarrow>
            (case construct (tries s) of
               None \<Rightarrow> (at Outside)\<lparr>tries := Suc (tries s)\<rparr>
             | Some x \<Rightarrow>
                 (at (Assigning (length (made s))))\<lparr>tries := Suc (tries s), made := made s @ [x]\<rparr>)
        | Assigning p \<Rightarrow> (at Reading)\<lparr>the_static := Some p\<rparr>
        | Reading \<Rightarrow> (at Outside)\<lparr>returned := returned s @ [(i, the_static s)]\<rparr>)"

definition lazy_run :: "(nat \<Rightarrow> 'a option) \<Rightarrow> nat list \<Rightarrow> 'a lazy \<Rightarrow> 'a lazy" where
  "lazy_run construct sched s = fold (lazy_move construct) sched s"

lemma lazy_run_simps [simp]:
  "lazy_run construct [] s = s"
  "lazy_run construct (i # sched) s = lazy_run construct sched (lazy_move construct i s)"
  "lazy_run construct (sched @ sched') s = lazy_run construct sched' (lazy_run construct sched s)"
  by (simp_all add: lazy_run_def)

text \<open>The two users: a connection pool, and an object whose constructor does not throw.\<close>

definition new_pool ::
  "(nat \<Rightarrow> nat \<Rightarrow> connect_result) \<Rightarrow> bool \<Rightarrow> int \<Rightarrow> string \<Rightarrow> string \<Rightarrow> string \<Rightarrow> nat \<Rightarrow> conn_pool option"
where
  "new_pool drv driver_ok maxS u user pwd k =
     (case ConnPool_ctor (drv k) driver_ok u user pwd maxS of (p, Inr _) \<Rightarrow> Some p | (p, Inl e) \<Rightarrow> None)"

subsection \<open>Invariants of a schedule\<close>

text \<open>What every step keeps, every schedule keeps.\<close>

locale schedule_invariant =
  fixes construct :: "nat \<Rightarrow> 'a option" and I :: "'a lazy \<Rightarrow> bool"
  assumes move: "I s \<Longrightarrow> I (lazy_move construct i s)"
begin

lemma every_schedule: "I s \<Longrightarrow> I (lazy_run construct sched s)"
  by (induction sched arbitrary: s) (auto intro: move)

end

definition assigning :: "lazy_pc \<Rightarrow> bool" where
  "assigning pc \<longleftrightarrow> (\<exists>p. pc = Assigning p)"

lemma assigning_simps [simp]:
  "assigning (Assigning p)" "\<not> assigning Outside" "\<not> assigning Building" "\<not> assigning Reading"
  by (simp_all add: assigning_def)

definition lazy_inv :: "'a lazy \<Rightarrow> bool" where
  "lazy_inv s \<longleftrightarrow>
     length (made s) + count_where (\<lambda>pc. pc = Building) (callers s) \<le> length (callers s) \<and>
     (the_static s = None \<longrightarrow> length (made s) = count_where assigning (callers s)) \<and>
     (\<forall>p. the_static s = Some p \<longrightarrow> p < length (made s)) \<and>
     (\<forall>p. Assigning p \<in> set (callers s) \<longrightarrow> p < length (made s)) \<and>
     (Reading \<in> set (callers s) \<longrightarrow> the_static s \<noteq> None) \<and>
     (\<forall>r \<in> set (returned s). \<exists>p < length (made s). snd r = Some p)"

lemma count_where_disjoint:
  "(\<And>x. x \<in> set xs \<Longrightarrow> \<not> (P x \<and> Q x)) \<Longrightarrow> count_where P xs + count_where Q xs \<le> length xs"
  by (induction xs) fastforce+

text \<open>The effect of a step on the two counts, and on the set of the program counters.\<close>

lemma counts_update:
  assumes "i < length pcs"
  shows "count_where P (pcs[i := pc]) + (if P (pcs ! i) then 1 else 0) =
      count_where P pcs + (if P pc then 1 else 0)"
    and "set (pcs[i := pc]) \<subseteq> insert pc (set pcs)"
  using assms by (rule count_where_update) (rule set_update_subset_insert)

lemma enter_building:
  assumes "i < length pcs" and "pcs ! i = Outside"
  shows "count_where assigning pcs + count_where (\<lambda>pc. pc = Building) (pcs[i := Building]) \<le> length pcs"
proof -
  have "count_where assigning (pcs[i := Building]) + count_where (\<lambda>pc. pc = Building) (pcs[i := Building])
      \<le> length (pcs[i := Building])"
    by (rule count_where_disjoint) auto
  with counts_update(1) [OF assms(1), of assigning Building] assms(2) show ?thesis by simp
qed

lemma lazy_invD:
  assumes "lazy_inv s"
  shows "length (made s) + count_where (\<lambda>pc. pc = Building) (callers s) \<le> length (callers s)"
    and "the_static s = None \<Longrightarrow> length (made s) = count_where assigning (callers s)"
    and "the_static s = Some p \<Longrightarrow> p < length (made s)"
    and "Assigning p \<in> set (callers s) \<Longrightarrow> p < length (made s)"
    and "Reading \<in> set (callers s) \<Longrightarrow> the_static s \<noteq> None"
    and "r \<in> set (returned s) \<Longrightarrow> \<exists>p < length (made s). snd r = Some p"
  using assms by (auto simp: lazy_inv_def)

interpretation lazy: schedule_invariant construct lazy_inv for construct :: "nat \<Rightarrow> 'a option"
proof
  fix s :: "'a lazy" and i
  assume inv: "lazy_inv s"
  note D = lazy_invD [OF inv]
  show "lazy_inv (lazy_move construct i s)"
  proof (cases "i < length (callers s)")
    case False
    with inv show ?thesis by (simp add: lazy_move_def)
  next
    case True
    note count = counts_update(1) [OF True] and sub = counts_update(2) [OF True]
    from True have mem: "callers s ! i \<in> set (callers s)" by simp
    show ?thesis
    proof (cases "callers s ! i")
      case Outside
      with True D count [of "\<lambda>pc. pc = Building" Reading] count [of assigning Reading]
        count [of assigning Building] enter_building [OF True Outside] sub [of Building] sub [of Reading]
      show ?thesis by (fastforce simp: lazy_move_def lazy_inv_def)
    next
      case Building
      with True D count [of "\<lambda>pc. pc = Building" Outside] count [of assigning Outside]
        count [of "\<lambda>pc. pc = Building" "Assigning (length (made s))"]
        count [of assigning "Assigning (length (made s))"]
        sub [of Outside] sub [of "Assigning (length (made s))"]
      show ?thesis by (cases "construct (tries s)") (fastforce simp: lazy_move_def lazy_inv_def less_Suc_eq)+
    next
      case (Assigning p)
      with True D mem count [of "\<lambda>pc. pc = Building" Reading] sub [of Reading]
      show ?thesis by (fastforce simp: lazy_move_def lazy_inv_def)
    next
      case Reading
      with True D mem count [of "\<lambda>pc. pc = Building" Outside] count [of assigning Outside] sub [of Outside]
      show ?thesis by (fastforce simp: lazy_move_def lazy_inv_def)
    qed
  qed
qed

lemma lazy_start_inv: "lazy_inv (lazy_start n)"
proof -
  have "count_where P (replicate n Outside) = 0" if "\<not> P Outside" for P :: "lazy_pc \<Rightarrow> bool"
    using that by (simp add: count_where_eq_0)
  then show ?thesis by (simp add: lazy_start_def lazy_inv_def)
qed

lemma lazy_move_callers [simp]: "length (callers (lazy_move construct i s)) = length (callers s)"
  by (simp add: lazy_move_def Let_def split: lazy_pc.split option.split)

lemma lazy_run_callers [simp]: "length (callers (lazy_run construct sched s)) = length (callers s)"
  by (induction sched arbitrary: s) simp_all

text \<open>The pointer is set, and no thread is between the test and the assignment.\<close>

definition settled :: "'a lazy \<Rightarrow> bool" where
  "settled s \<longleftrightarrow> the_static s \<noteq> None \<and> set (callers s) \<subseteq> {Outside, Reading}"

definition only_returns :: "'a lazy \<Rightarrow> 'a lazy \<Rightarrow> bool" where
  "only_returns s s' \<longleftrightarrow> settled s' \<and> the_static s' = the_static s \<and> made s' = made s \<and>
     (\<exists>rs. returned s' = returned s @ rs \<and> (\<forall>r \<in> set rs. snd r = the_static s))"

interpretation after: schedule_invariant construct "only_returns (s0 :: 'a lazy)"
  for construct :: "nat \<Rightarrow> 'a option" and s0
proof
  fix s :: "'a lazy" and i
  assume s: "only_returns s0 s"
  show "only_returns s0 (lazy_move construct i s)"
  proof (cases "i < length (callers s)")
    case False
    with s show ?thesis by (simp add: lazy_move_def)
  next
    case True
    from s have set: "set (callers s) \<subseteq> {Outside, Reading}" by (simp add: only_returns_def settled_def)
    have pcs: "set ((callers s)[i := pc]) \<subseteq> {Outside, Reading}" if "pc \<in> {Outside, Reading}" for pc
      using set_update_subset_insert [of "callers s" i pc] set that by blast
    from set True have "callers s ! i \<in> {Outside, Reading}" by (auto dest: nth_mem)
    with True s pcs [of Outside] pcs [of Reading] show ?thesis
      by (auto simp: lazy_move_def only_returns_def settled_def)
  qed
qed

subsection \<open>A call that runs alone\<close>

text \<open>The sequential models of the same functions are the schedules in which one thread moves.\<close>

definition call_alone :: "(nat \<Rightarrow> 'a option) \<Rightarrow> nat \<Rightarrow> 'a lazy \<Rightarrow> 'a lazy" where
  "call_alone construct i s = lazy_run construct (if the_static s = None
     then (if construct (tries s) = None then [i, i] else [i, i, i, i]) else [i, i]) s"

lemma call_alone_eq:
  assumes "i < length (callers s)" and "callers s ! i = Outside"
  shows "call_alone construct i s = (case the_static s of
      Some p \<Rightarrow> s\<lparr>returned := returned s @ [(i, Some p)]\<rparr>
    | None \<Rightarrow> (case construct (tries s) of
        None \<Rightarrow> s\<lparr>tries := Suc (tries s)\<rparr>
      | Some x \<Rightarrow> s\<lparr>the_static := Some (length (made s)), made := made s @ [x], tries := Suc (tries s),
          returned := returned s @ [(i, Some (length (made s)))]\<rparr>))"
proof -
  have id: "(callers s)[i := Outside] = callers s" using assms(2) by (metis list_update_id)
  show ?thesis
  proof (cases "the_static s")
    case (Some p)
    with assms id show ?thesis by (simp add: call_alone_def lazy_move_def)
  next
    case None
    with assms id show ?thesis
      by (cases "construct (tries s)") (simp_all add: call_alone_def lazy_move_def)
  qed
qed

definition as_singleton :: "'a lazy \<Rightarrow> 'a singleton" where
  "as_singleton s = \<lparr>the_instance = the_static s,
     objects = (\<lambda>p. if p < length (made s) then Some (made s ! p) else None),
     next_object = length (made s)\<rparr>"

lemma get_instance_alone:
  assumes "i < length (callers s)" and "callers s ! i = Outside" and "construct (tries s) = Some x"
  shows "get_instance x (as_singleton s) =
      (the (snd (last (returned (call_alone construct i s)))), as_singleton (call_alone construct i s))"
  using assms
  by (auto simp: call_alone_eq get_instance_def as_singleton_def Let_def nth_append fun_eq_iff
      less_Suc_eq split: option.split)

definition pool_of :: "conn_pool lazy \<Rightarrow> conn_pool option" where
  "pool_of s = map_option (\<lambda>p. made s ! p) (the_static s)"

lemma GetInstance_alone:
  assumes "i < length (callers s)" and "callers s ! i = Outside"
  shows "let s' = call_alone (new_pool drv driver_ok maxS u user pwd) i s in
    case GetInstance (drv (tries s)) driver_ok maxS u user pwd (pool_of s) of
      (inst, Inr p) \<Rightarrow> inst = pool_of s' \<and>
        (\<exists>q. returned s' = returned s @ [(i, Some q)] \<and> made s' ! q = p)
    | (inst, Inl e) \<Rightarrow> inst = pool_of s' \<and> returned s' = returned s"
proof (cases "the_static s")
  case (Some p)
  with assms show ?thesis by (simp add: call_alone_eq GetInstance_def pool_of_def)
next
  case None
  with assms show ?thesis
    by (auto simp: call_alone_eq GetInstance_def pool_of_def new_pool_def Let_def
        split: option.split prod.split sum.split)
qed

subsection \<open>Property\<close>

text \<open>
  C32: What threads that share a lazy instance can rely on. Whatever the schedule, no caller is given
  a null pointer or an object that was not made, and there are never more objects than threads, so a
  program that calls from one thread has one. Once the pointer is set and no thread is between the
  test and the assignment, every later call returns that object and makes none. Before that two
  threads can both see the null pointer: each gets an object of its own, and the first is lost.
\<close>
theorem singleton_threads:
  "(let s = lazy_run construct sched (lazy_start n) in
      length (made s) \<le> n \<and> (\<forall>r \<in> set (returned s). \<exists>p < length (made s). snd r = Some p) \<and>
      (settled s \<longrightarrow> only_returns s (lazy_run construct sched' s))) \<and>
   (construct 0 = Some x \<and> construct 1 = Some y \<longrightarrow>
     (let s = lazy_run construct [0, 1, 0, 0, 0, 1, 1, 1] (lazy_start 2) in
       made s = [x, y] \<and> returned s = [(0, Some 0), (1, Some 1)] \<and> the_static s = Some 1))"
proof -
  let ?s = "lazy_run construct sched (lazy_start n)"
  have inv: "lazy_inv ?s" by (rule lazy.every_schedule [OF lazy_start_inv])
  have "length (callers ?s) = n" by (simp add: lazy_start_def)
  with lazy_invD(1) [OF inv] have "length (made ?s) \<le> n" by simp
  moreover have "only_returns ?s (lazy_run construct sched' ?s)" if "settled ?s"
    by (rule after.every_schedule) (use that in \<open>simp add: only_returns_def\<close>)
  moreover have "construct 0 = Some x \<Longrightarrow> construct 1 = Some y \<Longrightarrow>
      (let s = lazy_run construct [0, 1, 0, 0, 0, 1, 1, 1] (lazy_start 2) in
       made s = [x, y] \<and> returned s = [(0, Some 0), (1, Some 1)] \<and> the_static s = Some 1)"
    by (simp add: lazy_start_def lazy_move_def numeral_2_eq_2)
  ultimately show ?thesis using lazy_invD(6) [OF inv] by (simp add: Let_def)
qed

text \<open>Two threads that ask for the pool of at most two connections get two pools.\<close>

theorem singleton_threads_witness:
  "(let s = lazy_run (new_pool (\<lambda>k n. Connect_ok) True 2 ''tcp://127.0.0.1:3306'' ''root'' ''root'')
        [0, 1, 0, 0, 0, 1, 1, 1] (lazy_start 2) in
      map (\<lambda>p. connList p) (made s) = [[0], [0]] \<and> returned s = [(0, Some 0), (1, Some 1)]) \<and>
   only_returns (lazy_run (\<lambda>k. Some k) [0, 0, 0, 0] (lazy_start 2))
     (lazy_run (\<lambda>k. Some k) [1, 1, 0] (lazy_run (\<lambda>k. Some k) [0, 0, 0, 0] (lazy_start 2)))"
proof
  let ?new = "new_pool (\<lambda>k n. Connect_ok) True 2 ''tcp://127.0.0.1:3306'' ''root'' ''root''"
  obtain p where p: "?new k = Some p" "connList p = [0]" for k
    by (simp add: new_pool_def pool_simps signed_divide_int_def)
  from singleton_threads [of ?new "[]" 2 "[]" p p] p
  show "let s = lazy_run ?new [0, 1, 0, 0, 0, 1, 1, 1] (lazy_start 2) in
      map (\<lambda>p. connList p) (made s) = [[0], [0]] \<and> returned s = [(0, Some 0), (1, Some 1)]"
    by (simp add: Let_def del: lazy_run_simps)
next
  let ?s = "lazy_run (\<lambda>k. Some k) [0, 0, 0, 0] (lazy_start 2) :: nat lazy"
  have "settled ?s" by (simp add: settled_def lazy_start_def lazy_move_def numeral_2_eq_2)
  with singleton_threads [of "\<lambda>k. Some k" "[0, 0, 0, 0]" 2 "[1, 1, 0]"]
  show "only_returns ?s (lazy_run (\<lambda>k. Some k) [1, 1, 0] ?s)" by (simp add: Let_def del: lazy_run_simps)
qed

end
