(* ===== verification/Http_Parse.thy ===== *)
theory Http_Parse
  imports C_String
begin

section \<open>The HTTP request parser (src/epoll_server.cpp)\<close>

text \<open>
  A connection is the struct \<open>web_connection_t\<close>: its buffer is a block of \<open>malloc\<close>, its text fields
  are arrays of fixed sizes (\<open>method[8]\<close>, \<open>uri[128]\<close>, \<open>version[16]\<close>, \<open>host[128]\<close>,
  \<open>accept[128]\<close>, \<open>conn[20]\<close>), and its two events are separate blocks, of which only the handler
  is used. The parser works in the buffer with \<open>strpbrk\<close> and copies into the arrays with
  \<open>strncpy\<close>, whose length argument is an \<open>int\<close> converted to \<open>size_t\<close>. Handlers return the
  connection and the system calls they make, in order. Requests are shorter than \<open>2^31\<close> bytes, so
  that the \<open>int\<close> indices do not overflow.
\<close>

datatype handler = Web_accept | Read_request | Send_response | Empty_event_handler

text \<open>The two pointers to events: null, set but with a handler never assigned, or with a handler.\<close>

datatype web_event = Null_event | Unset_event | Handler handler

datatype conn_state = ACCEPT | READ | QUERY_LINE | QUERY_HEAD | QUERY_BODY | SEND_DATA

record web_connection =
  conn_fd :: int
  conn_state :: conn_state
  read_event :: web_event
  write_event :: web_event
  querybuf :: "string option"
  query_start_index :: nat
  query_end_index :: int
  query_remain_len :: int
  req_method :: string
  req_uri :: string
  req_version :: string
  req_host :: string
  req_accept :: string
  req_conn :: string

datatype ev_flag = EPOLLIN | EPOLLOUT | EPOLLERR | EPOLLET

datatype syscall =
    Epoll_mod int "ev_flag list"
  | Epoll_del int
  | Send_bytes int string
  | Close_fd int
  | Free_conn

type_synonym handler_result = "(web_connection \<times> syscall list) res"

definition set_handler :: "handler \<Rightarrow> web_event \<Rightarrow> web_event res" where
  "set_handler h e = (case e of Null_event \<Rightarrow> Inl Null_deref | _ \<Rightarrow> Inr (Handler h))"

text \<open>\<open>process_body\<close> drops the body and arms the connection for the response.\<close>

definition process_body :: "web_connection \<Rightarrow> handler_result" where
  "process_body c =
     bind_res (set_handler Send_response (write_event c)) (\<lambda>we.
     bind_res (set_handler Empty_event_handler (read_event c)) (\<lambda>re.
       Inr (c\<lparr>query_start_index := 0, query_end_index := 0, conn_state := SEND_DATA,
              write_event := we, read_event := re\<rparr>,
            [Epoll_mod (conn_fd c) [EPOLLOUT, EPOLLERR]])))"

text \<open>
  One header line of length \<open>len\<close> (up to the LF) at \<open>query_start_index\<close>. The value is copied from
  the offset 6, 8 or 12, past the colon and one blank, for \<open>len\<close> minus as much.
\<close>

definition process_header ::
  "string \<Rightarrow> int \<Rightarrow> web_connection \<Rightarrow> web_connection res" where
  "process_header blk len c =
     (let i = query_start_index c in
      bind_res (strncasecmp_eq blk i ''Host:'') (\<lambda>is_host.
      if is_host then
        bind_res (strncpy (req_host c) blk (i + 6) (size_t_of_int (len - 6)))
          (\<lambda>h. Inr (c\<lparr>req_host := h\<rparr>))
      else bind_res (strncasecmp_eq blk i ''Accept:'') (\<lambda>is_accept.
      if is_accept then
        bind_res (strncpy (req_accept c) blk (i + 8) (size_t_of_int (len - 8)))
          (\<lambda>a. Inr (c\<lparr>req_accept := a\<rparr>))
      else bind_res (strncasecmp_eq blk i ''Connection:'') (\<lambda>is_conn.
      if is_conn then
        bind_res (strncpy (req_conn c) blk (i + 12) (size_t_of_int (len - 12)))
          (\<lambda>k. Inr (c\<lparr>req_conn := k\<rparr>))
      else Inr c))))"

text \<open>
  \<open>process_head\<close>. The result of \<open>strpbrk\<close> is used without a test: a null \<open>end_line\<close> is used in
  pointer arithmetic (\<open>Null_deref\<close>).
\<close>

function process_head :: "string \<Rightarrow> web_connection \<Rightarrow> handler_result" where
  "process_head blk c =
     (let i = query_start_index c in
      case strpbrk blk i [LF] of
        Inl e \<Rightarrow> Inl e
      | Inr None \<Rightarrow> Inl Null_deref
      | Inr (Some end_line) \<Rightarrow>
          let len = end_line - i in
          if len = 1 then process_body (c\<lparr>query_start_index := i + len + 1\<rparr>)
          else
            (case process_header blk (int len) c of
               Inl e \<Rightarrow> Inl e
             | Inr c' \<Rightarrow> process_head blk (c'\<lparr>query_start_index := i + len + 1\<rparr>)))"
  by pat_completeness auto
termination
  by (relation "measure (\<lambda>(blk, c). length blk - query_start_index c)")
    (auto dest!: strpbrk_Some)

declare process_head.simps [simp del]

text \<open>
  \<open>process_request_line\<close>. The end of the line is searched from the beginning of the buffer, so the
  length of the version can be negative, and then huge as a \<open>size_t\<close>. A parse that finds no blank
  or no LF returns and keeps what it has done so far.
\<close>

definition process_version :: "string \<Rightarrow> web_connection \<Rightarrow> handler_result" where
  "process_version blk c =
     (let i = query_start_index c in
      bind_res (strpbrk blk 0 [LF]) (\<lambda>ptr.
      case ptr of
        None \<Rightarrow> Inr (c, [])
      | Some p \<Rightarrow>
          let len = int p - int i in
          bind_res (strncpy (req_version c) blk i (size_t_of_int len)) (\<lambda>v.
          process_head blk
            (c\<lparr>req_version := v, query_start_index := nat (int i + len + 1)\<rparr>))))"

definition process_uri :: "string \<Rightarrow> web_connection \<Rightarrow> handler_result" where
  "process_uri blk c =
     (let i = query_start_index c in
      bind_res (strpbrk blk i [CHR '' '', TAB]) (\<lambda>ptr.
      case ptr of
        None \<Rightarrow> Inr (c, [])
      | Some p \<Rightarrow>
          let len = p - i in
          bind_res (strncpy (req_uri c) blk i len) (\<lambda>u.
          process_version blk (c\<lparr>req_uri := u, query_start_index := i + len + 1\<rparr>))))"

definition process_request_line :: "web_connection \<Rightarrow> handler_result" where
  "process_request_line c =
     (case querybuf c of
        None \<Rightarrow> Inl Null_deref
      | Some blk \<Rightarrow>
          let i = query_start_index c in
          bind_res (strpbrk blk i [CHR '' '', TAB]) (\<lambda>ptr.
          case ptr of
            None \<Rightarrow> Inr (c, [])
          | Some p \<Rightarrow>
              let len = p - i in
              bind_res (strncpy (req_method c) blk i len) (\<lambda>m.
              process_uri blk (c\<lparr>req_method := m, query_start_index := i + len + 1\<rparr>))))"

subsection \<open>What a request says\<close>

text \<open>
  The specification: a request is a method, a URI, a version and header lines, written with blanks
  and CR LF and closed by an empty line. What the parser is to store of it is \<open>request_conn\<close>: each
  part overwrites the front of its field. The CR of a line belongs to the last part of the line.
\<close>

definition crlf :: "string \<Rightarrow> string" where
  "crlf l = l @ [CR, LF]"

definition request_text :: "string \<Rightarrow> string \<Rightarrow> string \<Rightarrow> string list \<Rightarrow> string" where
  "request_text m u v hs = m @ CHR '' '' # u @ CHR '' '' # crlf v @ concat (map crlf hs)"

definition overlay :: "string \<Rightarrow> string \<Rightarrow> string" where
  "overlay s dst = s @ drop (length s) dst"

definition has_prefix :: "string \<Rightarrow> string \<Rightarrow> bool" where
  "has_prefix lit line \<longleftrightarrow>
     length lit \<le> length line \<and> map tolower (take (length lit) line) = map tolower lit"

definition apply_header :: "string \<Rightarrow> web_connection \<Rightarrow> web_connection" where
  "apply_header line c =
     (if has_prefix ''Host:'' line then c\<lparr>req_host := overlay (drop 6 line) (req_host c)\<rparr>
      else if has_prefix ''Accept:'' line
        then c\<lparr>req_accept := overlay (drop 8 line) (req_accept c)\<rparr>
      else if has_prefix ''Connection:'' line
        then c\<lparr>req_conn := overlay (drop 12 line) (req_conn c)\<rparr>
      else c)"

definition header_fits :: "string \<Rightarrow> bool" where
  "header_fits line \<longleftrightarrow>
     (if has_prefix ''Host:'' line then length line \<le> 134
      else if has_prefix ''Accept:'' line then length line \<le> 136
      else if has_prefix ''Connection:'' line then length line \<le> 32
      else True)"

definition request_shape :: "string \<Rightarrow> string \<Rightarrow> string \<Rightarrow> string list \<Rightarrow> bool" where
  "request_shape m u v hs \<longleftrightarrow>
     skips [CHR '' '', TAB, LF] m \<and> skips [CHR '' '', TAB, LF] u \<and> skips [LF] v \<and>
     (\<forall>h \<in> set hs. skips [LF] h \<and> h \<noteq> [])"

definition request_fits :: "string \<Rightarrow> string \<Rightarrow> string \<Rightarrow> string list \<Rightarrow> bool" where
  "request_fits m u v hs \<longleftrightarrow>
     length m \<le> 8 \<and> length u \<le> 128 \<and> length v < 16 \<and> (\<forall>h \<in> set hs. header_fits (h @ [CR]))"

definition fields_ok :: "web_connection \<Rightarrow> bool" where
  "fields_ok c \<longleftrightarrow>
     length (req_method c) = 8 \<and> length (req_uri c) = 128 \<and> length (req_version c) = 16 \<and>
     length (req_host c) = 128 \<and> length (req_accept c) = 128 \<and> length (req_conn c) = 20"

definition request_conn ::
  "string \<Rightarrow> string \<Rightarrow> string \<Rightarrow> string list \<Rightarrow> web_connection \<Rightarrow> web_connection" where
  "request_conn m u v hs c =
     fold (\<lambda>h. apply_header (h @ [CR])) hs
       (c\<lparr>req_method := overlay m (req_method c), req_uri := overlay u (req_uri c),
          req_version := overlay (v @ [CR]) (req_version c)\<rparr>)"

subsection \<open>Headers\<close>

lemma case_prefix_line:
  "skips [LF] line \<Longrightarrow> \<forall>l \<in> set lit. tolower l \<noteq> tolower LF \<Longrightarrow>
    case_prefix (line @ LF # rest) lit = Inr (has_prefix lit line)"
proof (induction lit arbitrary: line)
  case (Cons l lit)
  then show ?case by (cases line) (auto simp: has_prefix_def)
qed (simp add: has_prefix_def)

lemma tolower_below_letters:
  assumes "(of_char x :: nat) < 65"
  shows "tolower l = tolower x \<longleftrightarrow> l = x"
proof -
  have x: "tolower x = x" using assms by (simp add: tolower_def less_eq_char_def)
  have "l = x" if l: "tolower l = x"
  proof (rule ccontr)
    assume "l \<noteq> x"
    with l have b: "CHR ''A'' \<le> l" "l \<le> CHR ''Z''" and e: "char_of (of_char l + 32 :: nat) = x"
      by (auto simp: tolower_def split: if_splits)
    from b have r: "65 \<le> (of_char l :: nat)" "(of_char l :: nat) \<le> 90"
      by (simp_all add: less_eq_char_def)
    then have "of_char (char_of (of_char l + 32 :: nat) :: char) = (of_char l + 32 :: nat)"
      by (simp add: of_char_of)
    with e r(1) assms show False by simp
  qed
  with x show ?thesis by auto
qed

lemma tolower_LF: "tolower l = tolower LF \<longleftrightarrow> l = LF"
  and tolower_CR: "tolower l = tolower CR \<longleftrightarrow> l = CR"
  by (rule tolower_below_letters; simp)+

lemma strncasecmp_line:
  "drop i blk = line @ LF # rest \<Longrightarrow> skips [LF] line \<Longrightarrow> LF \<notin> set lit \<Longrightarrow>
    strncasecmp_eq blk i lit = Inr (has_prefix lit line)"
  unfolding strncasecmp_eq_def by (auto simp: tolower_LF intro!: case_prefix_line)

lemma copy_tail:
  assumes d: "drop i blk = line @ LF # rest" and "skips [LF] line" and "k \<le> length line"
    and small: "length line < 2 ^ 31"
  shows "strncpy dst blk (i + k) (size_t_of_int (int (length line) - int k)) =
    (if length line \<le> length dst + k then Inr (overlay (drop k line) dst) else Inl Out_of_bounds)"
proof -
  have "int (length line) - int k = int (length (drop k line))"
    using assms(3) by (simp add: of_nat_diff)
  moreover have "length (drop k line) < 2 ^ 31"
    using small by (rule le_less_trans [rotated]) simp
  ultimately have n: "size_t_of_int (int (length line) - int k) = length (drop k line)"
    by (metis size_t_of_int_of_nat)
  have "drop (i + k) blk = drop k (drop i blk)" by (simp add: add.commute)
  then have "drop (i + k) blk = drop k line @ LF # rest"
    unfolding d using assms(3) by simp
  moreover from this have "i + k \<le> length blk" by (rule drop_nonempty_le)
  moreover have "NUL \<notin> set (drop k line)"
    using assms(2) by (auto simp: skips_def dest: in_set_dropD)
  ultimately show ?thesis
    using strncpy_ok [of "i + k" blk "drop k line" "LF # rest" dst] assms(3)
    by (auto simp: n overlay_def strncpy_oob)
qed

lemma has_prefix_longer:
  assumes "has_prefix lit (h @ [CR])" and "\<forall>l \<in> set lit. tolower l \<noteq> tolower CR"
  shows "length lit < length (h @ [CR])"
proof (rule ccontr)
  assume "\<not> ?thesis"
  with assms(1) have "map tolower (h @ [CR]) = map tolower lit"
    by (auto simp: has_prefix_def)
  then have "tolower CR \<in> set (map tolower lit)"
    by (metis in_set_conv_decomp list.simps(8) list.simps(9) map_append)
  with assms(2) show False by auto
qed

lemma header_names:
  "\<forall>l \<in> set ''Host:''. tolower l \<noteq> tolower CR"
  "\<forall>l \<in> set ''Accept:''. tolower l \<noteq> tolower CR"
  "\<forall>l \<in> set ''Connection:''. tolower l \<noteq> tolower CR"
  by (simp_all add: tolower_CR)

lemma process_header_line:
  assumes d: "drop (query_start_index c) blk = line @ LF # rest" and sk: "skips [LF] line"
    and line: "line = h @ [CR]" and small: "length line < 2 ^ 31" and ok: "fields_ok c"
  shows "process_header blk (int (length line)) c =
    (if header_fits line then Inr (apply_header line c) else Inl Out_of_bounds)"
proof -
  note cmp = strncasecmp_line [OF d sk]
  have names: "LF \<notin> set ''Host:''" "LF \<notin> set ''Accept:''" "LF \<notin> set ''Connection:''" by auto
  note copy = copy_tail [OF d sk _ small]
  consider (host) "has_prefix ''Host:'' line"
    | (accept) "\<not> has_prefix ''Host:'' line" "has_prefix ''Accept:'' line"
    | (conn) "\<not> has_prefix ''Host:'' line" "\<not> has_prefix ''Accept:'' line"
        "has_prefix ''Connection:'' line"
    | (other) "\<not> has_prefix ''Host:'' line" "\<not> has_prefix ''Accept:'' line"
        "\<not> has_prefix ''Connection:'' line"
    by blast
  then show ?thesis
  proof cases
    case host
    then have "6 \<le> length line" using has_prefix_longer [OF _ header_names(1)] line by fastforce
    with host copy [of 6 "req_host c"] cmp [OF names(1)] ok show ?thesis
      by (simp add: process_header_def apply_header_def header_fits_def fields_ok_def)
  next
    case accept
    then have "8 \<le> length line" using has_prefix_longer [OF _ header_names(2)] line by fastforce
    with accept copy [of 8 "req_accept c"] cmp [OF names(1)] cmp [OF names(2)] ok show ?thesis
      by (simp add: process_header_def apply_header_def header_fits_def fields_ok_def)
  next
    case conn
    then have "12 \<le> length line" using has_prefix_longer [OF _ header_names(3)] line by fastforce
    with conn copy [of 12 "req_conn c"] cmp [OF names(1)] cmp [OF names(2)] cmp [OF names(3)] ok
    show ?thesis
      by (simp add: process_header_def apply_header_def header_fits_def fields_ok_def)
  next
    case other
    with cmp [OF names(1)] cmp [OF names(2)] cmp [OF names(3)] show ?thesis
      by (simp add: process_header_def apply_header_def header_fits_def)
  qed
qed

lemma apply_header_start [simp]:
  "apply_header line (c\<lparr>query_start_index := i\<rparr>) = (apply_header line c)\<lparr>query_start_index := i\<rparr>"
  by (simp add: apply_header_def)

lemma apply_header_index [simp]: "query_start_index (apply_header line c) = query_start_index c"
  by (simp add: apply_header_def)

lemma fold_apply_header_start:
  "fold (\<lambda>h. apply_header (h @ [CR])) hs (c\<lparr>query_start_index := i\<rparr>) =
    (fold (\<lambda>h. apply_header (h @ [CR])) hs c)\<lparr>query_start_index := i\<rparr>"
  by (induction hs arbitrary: c) simp_all

lemma fields_ok_start [simp]: "fields_ok (c\<lparr>query_start_index := i\<rparr>) = fields_ok c"
  by (simp add: fields_ok_def)

lemma length_overlay: "length s \<le> length dst \<Longrightarrow> length (overlay s dst) = length dst"
  by (simp add: overlay_def)

lemma apply_header_fields: "fields_ok c \<Longrightarrow> header_fits line \<Longrightarrow> fields_ok (apply_header line c)"
  by (auto simp: apply_header_def header_fits_def fields_ok_def length_overlay split: if_splits)

lemma fold_apply_header_fields:
  "fields_ok c \<Longrightarrow> \<forall>h \<in> set hs. header_fits (h @ [CR]) \<Longrightarrow>
    fields_ok (fold (\<lambda>h. apply_header (h @ [CR])) hs c)"
  by (induction hs arbitrary: c) (simp_all add: apply_header_fields)

subsection \<open>The loop over the lines\<close>

lemma process_head_line:
  assumes d: "drop (query_start_index c) blk = crlf h @ rest" and "skips [LF] h" and "h \<noteq> []"
    and "length blk < 2 ^ 31" and "fields_ok c"
  shows "process_head blk c =
    (if header_fits (h @ [CR])
     then process_head blk ((apply_header (h @ [CR]) c)
       \<lparr>query_start_index := query_start_index c + length (crlf h)\<rparr>)
     else Inl Out_of_bounds)"
proof -
  let ?i = "query_start_index c" and ?line = "h @ [CR]"
  have line: "drop ?i blk = ?line @ LF # rest" "skips [LF] ?line"
    using d assms(2) by (simp_all add: crlf_def)
  have pbrk: "strpbrk blk ?i [LF] = Inr (Some (?i + length ?line))"
    using strpbrk_found [OF line] by simp
  have "length ?line \<le> length (drop ?i blk)" using line(1) by simp
  also have "\<dots> \<le> length blk" by simp
  also note \<open>length blk < 2 ^ 31\<close>
  finally have "process_header blk (int (length ?line)) c =
      (if header_fits ?line then Inr (apply_header ?line c) else Inl Out_of_bounds)"
    using process_header_line [OF line refl _ \<open>fields_ok c\<close>] by simp
  moreover have "length ?line \<noteq> 1" using \<open>h \<noteq> []\<close> by simp
  ultimately show ?thesis
    using pbrk by (subst process_head.simps) (simp add: Let_def crlf_def)
qed

lemma process_head_lines:
  "drop (query_start_index c) blk = concat (map crlf hs) @ rest \<Longrightarrow>
    \<forall>h \<in> set hs. skips [LF] h \<and> h \<noteq> [] \<Longrightarrow> length blk < 2 ^ 31 \<Longrightarrow> fields_ok c \<Longrightarrow>
    process_head blk c =
      (if \<forall>h \<in> set hs. header_fits (h @ [CR])
       then process_head blk ((fold (\<lambda>h. apply_header (h @ [CR])) hs c)
         \<lparr>query_start_index := query_start_index c + length (concat (map crlf hs))\<rparr>)
       else Inl Out_of_bounds)"
proof (induction hs arbitrary: c)
  case (Cons h hs)
  let ?c = "(apply_header (h @ [CR]) c)
       \<lparr>query_start_index := query_start_index c + length (crlf h)\<rparr>"
  have first: "process_head blk c = (if header_fits (h @ [CR]) then process_head blk ?c
      else Inl Out_of_bounds)"
    by (rule process_head_line) (use Cons.prems in auto)
  show ?case
  proof (cases "header_fits (h @ [CR])")
    case True
    have "drop (query_start_index ?c) blk = concat (map crlf hs) @ rest"
      using drop_split [of "query_start_index c" blk "crlf h"] Cons.prems(1) by simp
    from Cons.IH [OF this] Cons.prems apply_header_fields [OF _ True]
    show ?thesis by (simp add: first True fold_apply_header_start add.assoc)
  qed (simp add: first)
qed simp

lemma process_head_end:
  assumes "drop (query_start_index c) blk = crlf [] @ rest"
  shows "process_head blk c = process_body c"
proof -
  have "strpbrk blk (query_start_index c) [LF] = Inr (Some (query_start_index c + 1))"
    using strpbrk_found [of _ blk "[CR]" LF rest "[LF]"] assms by (simp add: crlf_def)
  then show ?thesis
    by (subst process_head.simps) (simp add: process_body_def)
qed

lemma process_head_no_line:
  assumes "drop (query_start_index c) blk = part @ NUL # rest" and "skips [LF] part"
  shows "process_head blk c = Inl Null_deref"
  using strpbrk_none [OF assms] by (subst process_head.simps) simp

subsection \<open>The request line\<close>

lemma strncpy_part:
  assumes "drop i blk = a @ x # b" and "NUL \<notin> set a"
  shows "strncpy dst blk i (length a) =
    (if length a \<le> length dst then Inr (overlay a dst) else Inl Out_of_bounds)"
  using strncpy_ok [OF assms(1) drop_nonempty_le [OF assms(1)] assms(2)]
  by (simp add: overlay_def strncpy_oob)

lemma skips_no_nul: "skips accept a \<Longrightarrow> NUL \<notin> set a"
  by (auto simp: skips_def)

lemma skips_mono: "skips accept a \<Longrightarrow> set accept' \<subseteq> set accept \<Longrightarrow> skips accept' a"
  by (auto simp: skips_def)

definition line_conn :: "string \<Rightarrow> string \<Rightarrow> string \<Rightarrow> web_connection \<Rightarrow> web_connection" where
  "line_conn m u v c = c\<lparr>req_method := overlay m (req_method c),
     req_uri := overlay u (req_uri c), req_version := overlay (v @ [CR]) (req_version c),
     query_start_index := length m + length u + length v + 4\<rparr>"

lemma process_version_line:
  assumes blk: "blk = front @ crlf v @ rest" and "skips [LF] front" and "skips [LF] v"
    and "length blk < 2 ^ 31" and "query_start_index c = length front"
    and "length (req_version c) = 16"
  shows "process_version blk c =
    (if length v < 16
     then process_head blk (c\<lparr>req_version := overlay (v @ [CR]) (req_version c),
       query_start_index := length front + length v + 2\<rparr>)
     else Inl Out_of_bounds)"
proof -
  have "strpbrk blk 0 [LF] = Inr (Some (0 + length (front @ v @ [CR])))"
    by (rule strpbrk_found [of _ _ _ LF rest]) (use assms in \<open>simp_all add: crlf_def\<close>)
  moreover have "strncpy (req_version c) blk (length front) (length (v @ [CR])) =
      (if length (v @ [CR]) \<le> length (req_version c)
       then Inr (overlay (v @ [CR]) (req_version c)) else Inl Out_of_bounds)"
    by (rule strncpy_part [of _ _ _ LF rest])
      (use assms skips_no_nul in \<open>auto simp: crlf_def\<close>)
  moreover have "length (v @ [CR]) < 2 ^ 31"
    by (rule le_less_trans [OF _ \<open>length blk < 2 ^ 31\<close>]) (simp add: blk crlf_def)
  then have "size_t_of_int (int (length (v @ [CR]))) = length (v @ [CR])"
    by (rule size_t_of_int_of_nat)
  ultimately show ?thesis
    using assms(5,6) by (simp add: process_version_def Let_def nat_add_distrib)
qed

lemma process_uri_line:
  assumes blk: "blk = front @ u @ CHR '' '' # rest" and "skips [CHR '' '', TAB, LF] u"
    and "query_start_index c = length front" and "length (req_uri c) = 128"
  shows "process_uri blk c =
    (if length u \<le> 128
     then process_version blk (c\<lparr>req_uri := overlay u (req_uri c),
       query_start_index := length front + length u + 1\<rparr>)
     else Inl Out_of_bounds)"
proof -
  have d: "drop (length front) blk = u @ CHR '' '' # rest" by (simp add: blk)
  have "strpbrk blk (length front) [CHR '' '', TAB] = Inr (Some (length front + length u))"
    using strpbrk_found [OF d] skips_mono [OF assms(2)] by simp
  with strncpy_part [OF d] skips_no_nul [OF assms(2)] assms(3,4) show ?thesis
    by (simp add: process_uri_def)
qed

lemma process_method_line:
  assumes "querybuf c = Some blk" and blk: "blk = m @ CHR '' '' # rest"
    and "skips [CHR '' '', TAB, LF] m"
    and "query_start_index c = 0" and "length (req_method c) = 8"
  shows "process_request_line c =
    (if length m \<le> 8
     then process_uri blk (c\<lparr>req_method := overlay m (req_method c),
       query_start_index := length m + 1\<rparr>)
     else Inl Out_of_bounds)"
proof -
  have d: "drop 0 blk = m @ CHR '' '' # rest" by (simp add: blk)
  have "strpbrk blk 0 [CHR '' '', TAB] = Inr (Some (length m))"
    using strpbrk_found [OF d] skips_mono [OF assms(3)] by simp
  with strncpy_part [OF d] skips_no_nul [OF assms(3)] assms(1,4,5) show ?thesis
    by (simp add: process_request_line_def)
qed

lemma process_request_line_parts:
  assumes buf: "querybuf c = Some blk" and blk: "blk = m @ CHR '' '' # u @ CHR '' '' # crlf v @ rest"
    and m: "skips [CHR '' '', TAB, LF] m" and u: "skips [CHR '' '', TAB, LF] u"
    and v: "skips [LF] v" and small: "length blk < 2 ^ 31"
    and start: "query_start_index c = 0" and ok: "fields_ok c"
  shows "process_request_line c =
    (if length m \<le> 8 \<and> length u \<le> 128 \<and> length v < 16
     then process_head blk (line_conn m u v c) else Inl Out_of_bounds)"
proof -
  let ?c1 = "c\<lparr>req_method := overlay m (req_method c), query_start_index := length m + 1\<rparr>"
  let ?c2 = "?c1\<lparr>req_uri := overlay u (req_uri c), query_start_index := length m + length u + 2\<rparr>"
  have len: "length (req_method c) = 8" "length (req_uri c) = 128" "length (req_version c) = 16"
    using ok by (simp_all add: fields_ok_def)
  have 1: "process_request_line c =
      (if length m \<le> 8 then process_uri blk ?c1 else Inl Out_of_bounds)"
    by (rule process_method_line [OF buf blk m start len(1)])
  have "blk = (m @ [CHR '' '']) @ u @ CHR '' '' # crlf v @ rest" using blk by simp
  from process_uri_line [OF this u, of ?c1] len
  have 2: "process_uri blk ?c1 =
      (if length u \<le> 128 then process_version blk ?c2 else Inl Out_of_bounds)" by simp
  have "blk = (m @ CHR '' '' # u @ [CHR '' '']) @ crlf v @ rest" using blk by simp
  from process_version_line [OF this _ v small, of ?c2] len
    skips_mono [OF m, of "[LF]"] skips_mono [OF u, of "[LF]"]
  have 3: "process_version blk ?c2 =
      (if length v < 16 then process_head blk (line_conn m u v c) else Inl Out_of_bounds)"
    by (simp add: line_conn_def eval_nat_numeral)
  show ?thesis unfolding 1 2 3 by simp
qed

lemma line_conn_fields:
  "fields_ok c \<Longrightarrow> length m \<le> 8 \<Longrightarrow> length u \<le> 128 \<Longrightarrow> length v < 16 \<Longrightarrow>
    fields_ok (line_conn m u v c)"
  by (simp add: line_conn_def fields_ok_def length_overlay)

text \<open>The parser on a request of the right shape, up to the point after its header lines.\<close>

lemma process_request_headers:
  assumes buf: "querybuf c = Some blk" and blk: "blk = request_text m u v hs @ rest"
    and shape: "request_shape m u v hs" and small: "length blk < 2 ^ 31"
    and start: "query_start_index c = 0" and ok: "fields_ok c"
  shows "process_request_line c =
    (if request_fits m u v hs
     then process_head blk ((request_conn m u v hs c)
       \<lparr>query_start_index := length (request_text m u v hs)\<rparr>)
     else Inl Out_of_bounds)"
proof -
  have b: "blk = m @ CHR '' '' # u @ CHR '' '' # crlf v @ concat (map crlf hs) @ rest"
    using blk by (simp add: request_text_def)
  note line = process_request_line_parts [OF buf b _ _ _ small start ok]
  have "drop (query_start_index (line_conn m u v c)) blk = concat (map crlf hs) @ rest"
    using drop_split [of 0 blk "m @ CHR '' '' # u @ CHR '' '' # crlf v"] b
    by (simp add: line_conn_def crlf_def eval_nat_numeral)
  note head = process_head_lines [OF this _ small]
  have rc: "(fold (\<lambda>h. apply_header (h @ [CR])) hs (line_conn m u v c))
      \<lparr>query_start_index := query_start_index (line_conn m u v c) + length (concat (map crlf hs))\<rparr>
    = (request_conn m u v hs c)\<lparr>query_start_index := length (request_text m u v hs)\<rparr>"
    by (simp add: line_conn_def request_conn_def fold_apply_header_start request_text_def crlf_def
        add.commute add.left_commute)
  show ?thesis
  proof (cases "length m \<le> 8 \<and> length u \<le> 128 \<and> length v < 16")
    case True
    with head line_conn_fields [OF ok] line shape rc show ?thesis
      by (simp add: request_shape_def request_fits_def)
  next
    case False
    with line shape show ?thesis by (auto simp: request_shape_def request_fits_def)
  qed
qed

subsection \<open>Properties\<close>

definition armed :: "web_connection \<Rightarrow> web_connection" where
  "armed c = c\<lparr>query_start_index := 0, query_end_index := 0, conn_state := SEND_DATA,
     write_event := Handler Send_response, read_event := Handler Empty_event_handler\<rparr>"

definition has_events :: "web_connection \<Rightarrow> bool" where
  "has_events c \<longleftrightarrow> read_event c \<noteq> Null_event \<and> write_event c \<noteq> Null_event"

lemma process_body_armed:
  "has_events c \<Longrightarrow>
    process_body c = Inr (armed c, [Epoll_mod (conn_fd c) [EPOLLOUT, EPOLLERR]])"
  by (auto simp: has_events_def process_body_def set_handler_def armed_def
      split: web_event.splits)

lemma fold_apply_header_keeps:
  "read_event (fold (\<lambda>h. apply_header (h @ [CR])) hs c) = read_event c \<and>
   write_event (fold (\<lambda>h. apply_header (h @ [CR])) hs c) = write_event c \<and>
   conn_fd (fold (\<lambda>h. apply_header (h @ [CR])) hs c) = conn_fd c"
  by (induction hs arbitrary: c) (simp_all add: apply_header_def)

lemma request_conn_keeps [simp]:
  "read_event (request_conn m u v hs c) = read_event c"
  "write_event (request_conn m u v hs c) = write_event c"
  "conn_fd (request_conn m u v hs c) = conn_fd c"
  by (simp_all add: request_conn_def fold_apply_header_keeps)

lemma http_parse_eq:
  assumes "querybuf c = Some (request_text m u v hs @ crlf [] @ body)"
    and "request_shape m u v hs" and "request_fits m u v hs"
    and "length (request_text m u v hs @ crlf [] @ body) < 2 ^ 31"
    and "query_start_index c = 0" and "fields_ok c" and "has_events c"
  shows "process_request_line c =
    Inr (armed (request_conn m u v hs c), [Epoll_mod (conn_fd c) [EPOLLOUT, EPOLLERR]])"
proof -
  let ?c = "(request_conn m u v hs c)\<lparr>query_start_index := length (request_text m u v hs)\<rparr>"
  have "process_request_line c =
      process_head (request_text m u v hs @ crlf [] @ body) ?c"
    using process_request_headers [OF assms(1) refl assms(2,4,5,6)] assms(3) by simp
  also have "\<dots> = process_body ?c"
    by (rule process_head_end [of _ _ body]) simp
  finally show ?thesis
    using process_body_armed [of ?c] assms(7) by (simp add: has_events_def armed_def)
qed

text \<open>
  C3: The parser understands requests. When the buffer holds a request (method, URI, version, header
  lines, all ended by CR LF, and an empty line) whose parts fit their fields, then, whatever body or
  garbage follows, \<open>process_request_line\<close> returns with the method, the URI and the version in
  their fields, the values of the \<open>Host:\<close>, \<open>Accept:\<close> and \<open>Connection:\<close> lines (in any case, the
  last one of a name on top) in theirs, and the connection armed for the response. Each value that
  ends a line, the version included, is stored with the CR of its line.
\<close>
theorem http_parse_request:
  assumes "querybuf c = Some (request_text m u v hs @ crlf [] @ body)"
    and "request_shape m u v hs" and "request_fits m u v hs"
    and "length (request_text m u v hs @ crlf [] @ body) < 2 ^ 31"
    and "query_start_index c = 0" and "fields_ok c" and "has_events c"
  shows "process_request_line c =
    Inr (armed (request_conn m u v hs c), [Epoll_mod (conn_fd c) [EPOLLOUT, EPOLLERR]])"
  by (rule http_parse_eq [OF assms])

text \<open>
  C10: Nothing checks the sizes of the fields. On a request of the right shape the parser writes
  outside an array of the connection exactly when a part does not fit: a method of more than 8
  bytes, a URI of more than 128, a version of more than 15, a \<open>Host\<close> or \<open>Accept\<close> value of more
  than 127, a \<open>Connection\<close> value of more than 19 (the CR counts for the last four).
\<close>
theorem http_parse_overflow:
  assumes "querybuf c = Some (request_text m u v hs @ crlf [] @ body)"
    and "request_shape m u v hs"
    and "length (request_text m u v hs @ crlf [] @ body) < 2 ^ 31"
    and "query_start_index c = 0" and "fields_ok c" and "has_events c"
  shows "process_request_line c = Inl Out_of_bounds \<longleftrightarrow> \<not> request_fits m u v hs"
proof -
  let ?c = "(request_conn m u v hs c)\<lparr>query_start_index := length (request_text m u v hs)\<rparr>"
  have "process_head (request_text m u v hs @ crlf [] @ body) ?c = process_body ?c"
    by (rule process_head_end [of _ _ body]) simp
  also have "\<dots> \<noteq> Inl Out_of_bounds"
    using process_body_armed [of ?c] assms(6) by (simp add: has_events_def)
  finally show ?thesis
    using process_request_headers [OF assms(1) refl assms(2,3,4,5)] by simp
qed

text \<open>
  C11: A request that arrives in pieces crashes the server when a piece ends inside the headers: with
  a complete request line in the buffer, any number of complete header lines, then an incomplete
  line and a NUL, \<open>process_head\<close> uses the null result of \<open>strpbrk\<close>.
\<close>
theorem http_missing_blank_line:
  assumes "querybuf c = Some (request_text m u v hs @ part @ NUL # rest)"
    and "request_shape m u v hs" and "request_fits m u v hs" and "skips [LF] part"
    and "length (request_text m u v hs @ part @ NUL # rest) < 2 ^ 31"
    and "query_start_index c = 0" and "fields_ok c"
  shows "process_request_line c = Inl Null_deref"
  using process_request_headers [OF assms(1) refl assms(2,5,6,7)] assms(3,4)
  by (simp add: process_head_no_line [of _ _ part rest])

text \<open>A version whose length is negative is copied as more than 16 bytes.\<close>

lemma size_t_negative_huge:
  assumes "0 < n" and "n < 2 ^ 31"
  shows "16 < size_t_of_int (- int n)"
proof -
  have le: "int n \<le> 2 ^ 31" using assms(2) by (metis less_imp_le of_nat_le_iff of_nat_numeral of_nat_power)
  then have n: "size_t_of_int (- int n) = nat (2 ^ 64 - int n)"
    using assms(1) by (subst size_t_of_int_neg) auto
  have "(16 :: int) < 2 ^ 64 - 2 ^ 31" by simp
  then show ?thesis using le unfolding n by linarith
qed

lemma process_version_behind:
  assumes "strpbrk blk 0 [LF] = Inr (Some p)" and "query_start_index c = p + n"
    and "0 < n" and "n < 2 ^ 31" and "length (req_version c) = 16"
  shows "process_version blk c = Inl Out_of_bounds"
proof -
  have "int p - int (p + n) = - int n" by simp
  then show ?thesis
    using size_t_negative_huge [OF assms(3,4)] assms(5)
    by (simp only: process_version_def Let_def assms(1,2) bind_res_simps option.case)
      (simp add: strncpy_oob)
qed

lemma process_uri_behind:
  assumes at: "drop i blk = (crlf v @ h) @ CHR '' '' # rest" and "query_start_index c = i"
    and v: "skips [CHR '' '', TAB, LF] v" and h: "skips [CHR '' '', TAB] h"
    and "strpbrk blk 0 [LF] = Inr (Some (i + length v + 1))" and "length h + 2 < 2 ^ 31"
    and "fields_ok c"
  shows "process_uri blk c = Inl Out_of_bounds"
proof -
  have blank: "strpbrk blk i [CHR '' '', TAB] = Inr (Some (i + length (crlf v @ h)))"
    by (rule strpbrk_found [OF at]) (use skips_mono [OF v] h in \<open>simp_all add: crlf_def\<close>)
  have copy: "strncpy (req_uri c) blk i (length (crlf v @ h)) =
      (if length (crlf v @ h) \<le> 128 then Inr (overlay (crlf v @ h) (req_uri c))
       else Inl Out_of_bounds)"
    using strncpy_part [OF at, of "req_uri c"] skips_no_nul [OF v] skips_no_nul [OF h] assms(7)
    by (simp add: crlf_def fields_ok_def)
  have "i + length (crlf v @ h) + 1 = (i + length v + 1) + (length h + 2)" by (simp add: crlf_def)
  then have "process_version blk (c\<lparr>req_uri := u, query_start_index := i + length (crlf v @ h) + 1\<rparr>) =
      Inl Out_of_bounds" for u
    using process_version_behind [OF assms(5) _ _ assms(6)] assms(7) by (simp add: fields_ok_def)
  with blank copy assms(2) show ?thesis
    by (simp add: process_uri_def del: length_append)
qed

lemma process_request_line_partial:
  assumes "querybuf c = Some (m @ CHR '' '' # part @ NUL # rest)"
    and m: "skips [CHR '' '', TAB, LF] m" and part: "skips [CHR '' '', TAB] part"
    and "query_start_index c = 0" and "fields_ok c" and "length m \<le> 8"
  shows "process_request_line c =
    Inr (c\<lparr>req_method := overlay m (req_method c), query_start_index := length m + 1\<rparr>, [])"
proof -
  let ?blk = "m @ CHR '' '' # part @ NUL # rest"
  have "drop (length m + 1) ?blk = part @ NUL # rest" by simp
  from strpbrk_none [OF this part] process_method_line [OF assms(1) refl m assms(4)] assms(5,6)
  show ?thesis by (simp add: process_uri_def fields_ok_def)
qed

text \<open>
  C14: A piece that ends inside the URI is worse than useless. The parser returns to wait for more,
  but it has already moved past the method; so when the rest of the request arrives it takes the URI
  for the method and what follows the version up to the next blank for the URI, then finds the end
  of the request line behind it, and \<open>strncpy\<close> with a negative length writes outside
  \<open>version\<close>. Here \<open>h\<close> is the text between the request line and the next blank, such as \<open>Host:\<close>.
\<close>
theorem http_split_request_line:
  assumes "querybuf c = Some (m @ CHR '' '' # part @ NUL # rest)"
    and "skips [CHR '' '', TAB, LF] m" and "skips [CHR '' '', TAB] part"
    and "query_start_index c = 0" and "fields_ok c" and "length m \<le> 8"
    and blk: "blk = m @ CHR '' '' # u @ CHR '' '' # crlf v @ h @ CHR '' '' # rest'"
    and "skips [CHR '' '', TAB, LF] u" and v: "skips [CHR '' '', TAB, LF] v"
    and h: "skips [CHR '' '', TAB] h" and small: "length blk < 2 ^ 31"
  shows "\<exists>c'. process_request_line c = Inr (c', []) \<and>
    process_request_line (c'\<lparr>querybuf := Some blk\<rparr>) = Inl Out_of_bounds"
proof -
  let ?i1 = "length m + 1" and ?i2 = "length m + length u + 2"
  let ?c1 = "c\<lparr>req_method := overlay m (req_method c), query_start_index := ?i1\<rparr>"
  have d1: "drop ?i1 blk = u @ CHR '' '' # crlf v @ h @ CHR '' '' # rest'" by (simp add: blk)
  have d2: "drop ?i2 blk = (crlf v @ h) @ CHR '' '' # rest'"
    using drop_split_Cons [OF d1] by (simp add: add.commute add.left_commute)
  have b1: "strpbrk blk ?i1 [CHR '' '', TAB] = Inr (Some (?i1 + length u))"
    by (rule strpbrk_found [OF d1]) (use skips_mono [OF assms(8)] in simp_all)
  have line: "strpbrk blk 0 [LF] = Inr (Some (?i2 + length v + 1))"
    using strpbrk_found [of 0 blk "m @ CHR '' '' # u @ CHR '' '' # v @ [CR]" LF
        "h @ CHR '' '' # rest'" "[LF]"]
      skips_mono [OF assms(2)] skips_mono [OF assms(8)] skips_mono [OF v] blk
    by (simp add: crlf_def eval_nat_numeral)
  have "length h + 2 < 2 ^ 31"
    using small by (rule le_less_trans [rotated]) (simp add: blk crlf_def)
  note uri = process_uri_behind [OF d2 _ v h line this]
  have "fields_ok (?c1\<lparr>req_method := overlay u (req_method ?c1), query_start_index := ?i2\<rparr>)"
    if "length u \<le> 8"
    using that assms(5,6) by (simp add: fields_ok_def length_overlay)
  with uri have "process_request_line (?c1\<lparr>querybuf := Some blk\<rparr>) = Inl Out_of_bounds"
    using strncpy_part [OF d1, of "req_method ?c1"] skips_no_nul [OF assms(8)] b1 assms(5,6)
    by (simp add: process_request_line_def fields_ok_def length_overlay Let_def)
  with process_request_line_partial [OF assms(1-6)] show ?thesis by auto
qed

subsection \<open>Witnesses\<close>

definition zero_conn :: "string \<Rightarrow> web_connection" where
  "zero_conn buf = \<lparr>conn_fd = 7, conn_state = READ, read_event = Handler Read_request,
     write_event = Unset_event, querybuf = Some buf, query_start_index = 0,
     query_end_index = 0, query_remain_len = 0, req_method = replicate 8 NUL,
     req_uri = replicate 128 NUL, req_version = replicate 16 NUL, req_host = replicate 128 NUL,
     req_accept = replicate 128 NUL, req_conn = replicate 20 NUL\<rparr>"

lemma zero_conn_ok [simp]:
  "fields_ok (zero_conn b)" "has_events (zero_conn b)" "querybuf (zero_conn b) = Some b"
  "query_start_index (zero_conn b) = 0" "conn_fd (zero_conn b) = 7"
  by (simp_all add: zero_conn_def fields_ok_def has_events_def)

definition demo_request :: string where
  "demo_request = request_text ''GET'' ''/'' ''HTTP/1.1'' [''host: a'', ''Connection: close'']"

lemma demo_request_ok:
  "request_shape ''GET'' ''/'' ''HTTP/1.1'' [''host: a'', ''Connection: close'']"
  "request_fits ''GET'' ''/'' ''HTTP/1.1'' [''host: a'', ''Connection: close'']"
  "\<not> request_fits ''PROPPATCH'' ''/'' ''HTTP/1.1'' [''host: a'']"
  "request_shape ''PROPPATCH'' ''/'' ''HTTP/1.1'' [''host: a'']"
  by (simp_all add: request_shape_def request_fits_def header_fits_def has_prefix_def tolower_def
      less_eq_char_def)

theorem http_parse_request_witness:
  "process_request_line (zero_conn (demo_request @ crlf [] @ [NUL])) =
    Inr (armed (request_conn ''GET'' ''/'' ''HTTP/1.1'' [''host: a'', ''Connection: close'']
      (zero_conn (demo_request @ crlf [] @ [NUL]))), [Epoll_mod 7 [EPOLLOUT, EPOLLERR]])"
  using http_parse_request [OF _ demo_request_ok(1,2), of "zero_conn (demo_request @ crlf [] @ [NUL])"
      "[NUL]"]
  by (simp add: demo_request_def request_text_def crlf_def)

theorem http_parse_overflow_witness:
  "process_request_line (zero_conn
    (request_text ''PROPPATCH'' ''/'' ''HTTP/1.1'' [''host: a''] @ crlf [] @ [NUL])) =
    Inl Out_of_bounds"
  by (subst http_parse_overflow [OF _ demo_request_ok(4), of _ "[NUL]"])
    (simp_all add: demo_request_ok request_text_def crlf_def)

theorem http_missing_blank_line_witness:
  "process_request_line (zero_conn (demo_request @ ''Acc'' @ [NUL])) = Inl Null_deref"
  by (rule http_missing_blank_line [OF _ demo_request_ok(1,2), of _ "''Acc''" "[]"])
    (simp_all add: demo_request_def request_text_def crlf_def)

theorem http_split_request_line_witness:
  "\<exists>c'. process_request_line (zero_conn (''GET /in'' @ [NUL])) = Inr (c', []) \<and>
    process_request_line (c'\<lparr>querybuf :=
      Some (request_text ''GET'' ''/index'' ''HTTP/1.1'' [''Host: a''] @ crlf [] @ [NUL])\<rparr>) =
      Inl Out_of_bounds"
  by (rule http_split_request_line [where m = "''GET''" and part = "''/in''" and rest = "[]"
        and u = "''/index''" and v = "''HTTP/1.1''" and h = "''Host:''"
        and rest' = "CHR ''a'' # crlf [] @ crlf [] @ [NUL]"])
    (simp_all add: request_text_def crlf_def)

end
