(* ===== verification/Epoll_Server.thy ===== *)
theory Epoll_Server
  imports Http_Parse "HOL-Library.Word"
begin

unbundle bit_operations_syntax

section \<open>The epoll server (src/epoll_server.cpp, src/epoll_event.cpp)\<close>

text \<open>
  A single thread waits for events and calls the handler of the connection each event points to.
  What the kernel does is a parameter: the bytes that arrive (\<open>arrival\<close>), the results of \<open>send\<close>,
  \<open>accept\<close> and \<open>EPOLL_CTL_ADD\<close>, the contents of fresh memory, and the reports of \<open>epoll_wait\<close>. What the kernel
  promises is in the definitions: \<open>recv\<close> returns at most as many bytes as it is given room for,
  \<open>accept\<close> returns a descriptor that is not in use, \<open>epoll_wait\<close> reports registered descriptors,
  with the events they are registered for or \<open>EPOLLERR\<close>. Debug output is not modelled.
\<close>

subsection \<open>Buffers and reading\<close>

definition QUERY_INIT_LEN :: nat where "QUERY_INIT_LEN = 1024"
definition REMAIN_BUFFER :: int where "REMAIN_BUFFER = 512"

text \<open>
  \<open>initConnection\<close>. The parameters are the outcomes of the four calls of \<open>malloc\<close>, in order: the
  struct with whatever it holds, the two events, the buffer. A failed \<open>malloc\<close> of the struct is
  dereferenced. With no buffer the indices keep what the memory held.
\<close>

definition initConnection ::
  "web_connection option \<Rightarrow> bool \<Rightarrow> bool \<Rightarrow> string option \<Rightarrow> web_connection res" where
  "initConnection mc re we mb =
     (case mc of
        None \<Rightarrow> Inl Null_deref
      | Some g \<Rightarrow>
          let c = g\<lparr>read_event := (if re then Unset_event else Null_event),
                    write_event := (if we then Unset_event else Null_event),
                    conn_state := ACCEPT,
                    querybuf := map_option (malloc_block QUERY_INIT_LEN) mb,
                    req_method := malloc_block 8 (req_method g),
                    req_uri := malloc_block 128 (req_uri g),
                    req_version := malloc_block 16 (req_version g),
                    req_host := malloc_block 128 (req_host g),
                    req_accept := malloc_block 128 (req_accept g),
                    req_conn := malloc_block 20 (req_conn g)\<rparr>
          in case mb of
               None \<Rightarrow> Inr c
             | Some _ \<Rightarrow> Inr (c\<lparr>query_start_index := 0, query_end_index := 0,
                                 query_remain_len := int QUERY_INIT_LEN\<rparr>))"

text \<open>
  \<open>realloc\<close> gives a block with the given extra contents, or null; a size beyond \<open>PTRDIFF_MAX\<close>, which
  is what a negative \<open>int\<close> becomes, always fails.
\<close>

definition PTRDIFF_MAX :: nat where "PTRDIFF_MAX = 2 ^ 63 - 1"

definition realloc :: "nat \<Rightarrow> string \<Rightarrow> string option \<Rightarrow> string option" where
  "realloc n blk mem =
     (if PTRDIFF_MAX < n then None else map_option (realloc_block n blk) mem)"

lemma realloc_some: "n < 2 ^ 31 \<Longrightarrow> realloc n blk (Some g) = Some (realloc_block n blk g)"
proof -
  assume "n < 2 ^ 31"
  also have "(2 :: nat) ^ 31 \<le> PTRDIFF_MAX" by (simp add: PTRDIFF_MAX_def)
  finally show ?thesis by (simp add: realloc_def)
qed

definition try_to_enlarge_buffer :: "string option \<Rightarrow> web_connection \<Rightarrow> web_connection res" where
  "try_to_enlarge_buffer mem c =
     (if query_remain_len c < REMAIN_BUFFER then
        (case querybuf c of
           None \<Rightarrow> Inl Null_deref
         | Some blk \<Rightarrow>
             bind_res (strlen blk) (\<lambda>n.
               let new_size = int_of_size_t (n + QUERY_INIT_LEN) in
               Inr (c\<lparr>querybuf := realloc (size_t_of_int new_size) blk mem,
                      query_remain_len := new_size - query_end_index c\<rparr>)))
      else Inr c)"

datatype arrival = Bytes string | Recv_error | Peer_closed

datatype recv_result = Got string | Recv_zero | Recv_fail

text \<open>
  \<open>recv\<close> with room for \<open>cap\<close> bytes. With no room it returns 0. When nothing is left it fails (the
  socket does not block). What it has no room for stays in the socket.
\<close>

fun recv_from :: "nat \<Rightarrow> arrival list \<Rightarrow> recv_result \<times> arrival list" where
  "recv_from cap [] = (if cap = 0 then Recv_zero else Recv_fail, [])"
| "recv_from cap (Bytes bs # r) =
     (if cap = 0 then (Recv_zero, Bytes bs # r)
      else if bs = [] then recv_from cap r
      else (Got (take cap bs), (if length bs \<le> cap then r else Bytes (drop cap bs) # r)))"
| "recv_from cap (Recv_error # r) =
     (if cap = 0 then (Recv_zero, Recv_error # r) else (Recv_fail, r))"
| "recv_from cap (Peer_closed # r) = (Recv_zero, Peer_closed # r)"

fun arrival_size :: "arrival \<Rightarrow> nat" where
  "arrival_size (Bytes bs) = Suc (length bs)"
| "arrival_size Recv_error = 1"
| "arrival_size Peer_closed = 1"

definition arrivals_size :: "arrival list \<Rightarrow> nat" where
  "arrivals_size as = sum_list (map arrival_size as)"

lemma recv_from_Got:
  "recv_from cap as = (Got bs, r) \<Longrightarrow>
    arrivals_size r < arrivals_size as \<and> bs \<noteq> [] \<and> length bs \<le> cap"
  by (induction as rule: recv_from.induct)
    (fastforce simp: arrivals_size_def split: if_splits)+

text \<open>
  The loop of \<open>read_request\<close>. \<open>mem k\<close> is the outcome of the \<open>k\<close>-th \<open>realloc\<close>. The result says
  whether the peer has closed the connection. Without a buffer \<open>recv\<close> can still report that; in
  every other case it fails on the address, and the parser then reads through the null pointer.
\<close>

function read_loop ::
  "(nat \<Rightarrow> string option) \<Rightarrow> nat \<Rightarrow> arrival list \<Rightarrow> web_connection \<Rightarrow> (bool \<times> web_connection) res"
where
  "read_loop mem k as c =
     (case try_to_enlarge_buffer (mem k) c of
        Inl e \<Rightarrow> Inl e
      | Inr c1 \<Rightarrow>
          (case querybuf c1 of
             None \<Rightarrow>
               (case recv_from (size_t_of_int (query_remain_len c1)) as of
                  (Recv_zero, r) \<Rightarrow> Inr (True, c1)
                | _ \<Rightarrow> Inl Null_deref)
           | Some blk \<Rightarrow>
               (case recv_from (size_t_of_int (query_remain_len c1)) as of
                  (Recv_fail, r) \<Rightarrow> Inr (False, c1)
                | (Recv_zero, r) \<Rightarrow> Inr (True, c1)
                | (Got bs, r) \<Rightarrow>
                    (case write_block blk (nat (query_end_index c1)) bs of
                       Inl e \<Rightarrow> Inl e
                     | Inr blk' \<Rightarrow>
                         read_loop mem (Suc k) r
                           (c1\<lparr>querybuf := Some blk',
                               query_end_index := query_end_index c1 + int (length bs),
                               query_remain_len := query_remain_len c1 - int (length bs)\<rparr>)))))"
  by pat_completeness auto
termination
  by (relation "measure (\<lambda>(mem, k, as, c). arrivals_size as)") (auto dest!: recv_from_Got [OF sym])

declare read_loop.simps [simp del]

definition close_conn :: "web_connection \<Rightarrow> syscall list" where
  "close_conn c = [Close_fd (conn_fd c), Free_conn]"

definition read_request ::
  "(nat \<Rightarrow> string option) \<Rightarrow> arrival list \<Rightarrow> web_connection \<Rightarrow> handler_result" where
  "read_request mem as c =
     bind_res (read_loop mem 0 as c) (\<lambda>(closed, c1).
       if closed then Inr (c1, Epoll_del (conn_fd c1) # close_conn c1)
       else process_request_line c1)"

subsection \<open>The response\<close>

definition EPOLL_HELLO :: string where "EPOLL_HELLO = ''epoll hello!''"

definition http_res_hdr :: "nat \<Rightarrow> string \<Rightarrow> string" where
  "http_res_hdr n ty =
     crlf ''HTTP/1.1 200 OK'' @ crlf ''Server: Xubx's Server <0.1>'' @
     crlf ''Accept-Ranges: bytes'' @ crlf (''Content-Length: '' @ decimal n) @
     crlf ''Connection: Close'' @ crlf (''Content-Type: '' @ ty) @ crlf []"

text \<open>
  \<open>r1\<close> and \<open>r2\<close> are the results of the two calls of \<open>send\<close>: the bytes sent are as many as the call
  says, none when it fails. The header is formatted into an array of 1024 bytes.
\<close>

definition sent_by :: "int \<Rightarrow> string \<Rightarrow> string" where
  "sent_by r bs = take (nat r) bs"

definition send_response :: "int \<Rightarrow> int \<Rightarrow> web_connection \<Rightarrow> handler_result" where
  "send_response r1 r2 c =
     (let hdr = http_res_hdr (length EPOLL_HELLO) ''text/html'' in
      if 1024 \<le> length hdr then Inl Out_of_bounds
      else if r1 < 0 then Inr (c, [Send_bytes (conn_fd c) (sent_by r1 hdr)])
      else Inr (c, [Send_bytes (conn_fd c) (sent_by r1 hdr),
                    Send_bytes (conn_fd c) (sent_by r2 EPOLL_HELLO),
                    Epoll_del (conn_fd c)] @ close_conn c))"

subsection \<open>The server\<close>

text \<open>
  \<open>heap\<close> holds the connections that have been allocated and not freed, by address; \<open>epoll_set\<close> is
  the interest list, descriptor to data pointer and events; \<open>fd_flags\<close> and \<open>status_flags\<close> are what
  \<open>F_GETFD\<close> and \<open>F_GETFL\<close> give for an open descriptor; \<open>ep\<close> is the descriptor of the epoll object;
  \<open>wire\<close> logs what the server has sent.
\<close>

record server =
  heap :: "nat \<Rightarrow> web_connection option"
  next_addr :: nat
  epoll_set :: "int \<Rightarrow> (nat \<times> ev_flag list) option"
  open_fds :: "int set"
  fd_flags :: "int \<Rightarrow> 32 word"
  status_flags :: "int \<Rightarrow> 32 word"
  ep :: int
  wire :: "(int \<times> string) list"

text \<open>
  The flags of \<open>fcntl\<close> on Linux. \<open>F_SETFL\<close> changes \<open>settable_flags\<close> alone: \<open>O_APPEND\<close>, \<open>O_NONBLOCK\<close>,
  \<open>O_ASYNC\<close>, \<open>O_DIRECT\<close> and \<open>O_NOATIME\<close>. A descriptor that is not open gives -1 and no change.
\<close>

definition O_RDWR :: "32 word" where "O_RDWR = 0x2"
definition O_NONBLOCK :: "32 word" where "O_NONBLOCK = 0x800"
definition FD_CLOEXEC :: "32 word" where "FD_CLOEXEC = 0x1"
definition settable_flags :: "32 word" where "settable_flags = 0x46C00"

definition fcntl_getfd :: "int \<Rightarrow> server \<Rightarrow> 32 word" where
  "fcntl_getfd fd s = (if fd \<in> open_fds s then fd_flags s fd else - 1)"

definition fcntl_setfl :: "int \<Rightarrow> 32 word \<Rightarrow> server \<Rightarrow> server" where
  "fcntl_setfl fd x s =
     (if fd \<in> open_fds s
      then s\<lparr>status_flags := (status_flags s)(fd :=
        (status_flags s fd AND NOT settable_flags) OR (x AND settable_flags))\<rparr>
      else s)"

text \<open>\<open>setnonblocking\<close> gives back the old option; its callers drop it.\<close>

definition setnonblocking :: "int \<Rightarrow> server \<Rightarrow> 32 word \<times> server" where
  "setnonblocking fd s =
     (let old_option = fcntl_getfd fd s; new_option = old_option OR O_NONBLOCK
      in (old_option, fcntl_setfl fd new_option s))"

text \<open>
  A new socket: descriptor \<open>n\<close> if the kernel gives one, -1 else. It is open for reading and writing
  and has no other flag.
\<close>

definition new_fd :: "int set \<Rightarrow> int \<Rightarrow> int" where
  "new_fd fds n = (if 0 \<le> n \<and> n \<notin> fds then n else - 1)"

definition add_socket :: "int \<Rightarrow> server \<Rightarrow> server" where
  "add_socket fd s =
     s\<lparr>open_fds := insert fd (open_fds s), fd_flags := (fd_flags s)(fd := 0),
       status_flags := (status_flags s)(fd := O_RDWR)\<rparr>"

text \<open>
  The calls of epoll. Adding fails without an epoll object, for a descriptor that is there, and for
  one that is not open; else \<open>ok\<close> says whether the kernel has room (\<open>ENOSPC\<close>, \<open>ENOMEM\<close>). The code
  drops the result. Changing and removing a registration need no memory and fail only when there
  is none.
\<close>

definition epoll_init_event :: "int \<Rightarrow> server \<Rightarrow> server" where
  "epoll_init_event n s =
     (let e = new_fd (open_fds s) n
      in s\<lparr>ep := e, open_fds := (if e = - 1 then open_fds s else insert e (open_fds s))\<rparr>)"

definition epoll_add_event ::
  "bool \<Rightarrow> nat \<Rightarrow> int \<Rightarrow> ev_flag list \<Rightarrow> server \<Rightarrow> server" where
  "epoll_add_event ok ptr fd flags s =
     (if ok \<and> ep s \<noteq> - 1 \<and> fd \<in> open_fds s \<and> epoll_set s fd = None
      then s\<lparr>epoll_set := (epoll_set s)(fd \<mapsto> (ptr, flags))\<rparr> else s)"

definition epoll_mod_event :: "nat \<Rightarrow> int \<Rightarrow> ev_flag list \<Rightarrow> server \<Rightarrow> server" where
  "epoll_mod_event ptr fd flags s =
     (case epoll_set s fd of
        None \<Rightarrow> s
      | Some _ \<Rightarrow> s\<lparr>epoll_set := (epoll_set s)(fd \<mapsto> (ptr, flags))\<rparr>)"

definition epoll_del_event :: "int \<Rightarrow> server \<Rightarrow> server" where
  "epoll_del_event fd s = s\<lparr>epoll_set := (epoll_set s)(fd := None)\<rparr>"

text \<open>A system call of the handler of the connection at \<open>ptr\<close>. Closing also ends the registration.\<close>

fun exec_call :: "nat \<Rightarrow> syscall \<Rightarrow> server \<Rightarrow> server" where
  "exec_call ptr (Epoll_mod fd flags) s = epoll_mod_event ptr fd flags s"
| "exec_call ptr (Epoll_del fd) s = epoll_del_event fd s"
| "exec_call ptr (Send_bytes fd bs) s = s\<lparr>wire := wire s @ [(fd, bs)]\<rparr>"
| "exec_call ptr (Close_fd fd) s =
     s\<lparr>open_fds := open_fds s - {fd}, epoll_set := (epoll_set s)(fd := None)\<rparr>"
| "exec_call ptr Free_conn s = s\<lparr>heap := (heap s)(ptr := None)\<rparr>"

text \<open>The outcomes of the calls that one handler makes.\<close>

record io =
  io_accept :: int
  io_struct :: "web_connection option"
  io_read_event :: bool
  io_write_event :: bool
  io_buffer :: "string option"
  io_epoll_add :: bool
  io_realloc :: "nat \<Rightarrow> string option"
  io_arrivals :: "arrival list"
  io_send1 :: int
  io_send2 :: int

definition web_accept :: "io \<Rightarrow> server \<Rightarrow> server res" where
  "web_accept io s =
     (let connfd = new_fd (open_fds s) (io_accept io) in
      if connfd = - 1 then Inr s
      else
        let s1 = add_socket connfd s; ptr = next_addr s in
        bind_res (initConnection (io_struct io) (io_read_event io) (io_write_event io)
          (io_buffer io)) (\<lambda>new_conn.
        bind_res (set_handler Read_request (read_event new_conn)) (\<lambda>re.
          let s2 = s1\<lparr>next_addr := Suc ptr,
                heap := (heap s)(ptr \<mapsto> new_conn\<lparr>conn_fd := connfd, conn_state := READ,
                  read_event := re\<rparr>)\<rparr>;
              s3 = epoll_add_event (io_epoll_add io) ptr connfd [EPOLLIN, EPOLLERR, EPOLLET] s2
          in Inr (snd (setnonblocking connfd s3)))))"

definition apply_result :: "nat \<Rightarrow> handler_result \<Rightarrow> server \<Rightarrow> server res" where
  "apply_result ptr r s =
     bind_res r (\<lambda>(c, calls).
       Inr (fold (exec_call ptr) calls (s\<lparr>heap := (heap s)(ptr \<mapsto> c)\<rparr>)))"

fun run_handler :: "handler \<Rightarrow> nat \<Rightarrow> io \<Rightarrow> web_connection \<Rightarrow> server \<Rightarrow> server res" where
  "run_handler Web_accept ptr io c s = web_accept io s"
| "run_handler Read_request ptr io c s =
     apply_result ptr (read_request (io_realloc io) (io_arrivals io) c) s"
| "run_handler Send_response ptr io c s =
     apply_result ptr (send_response (io_send1 io) (io_send2 io) c) s"
| "run_handler Empty_event_handler ptr io c s = Inr s"

text \<open>A call through an event: the event can be null, or its handler never set.\<close>

definition call_handler :: "web_event \<Rightarrow> nat \<Rightarrow> io \<Rightarrow> web_connection \<Rightarrow> server \<Rightarrow> server res" where
  "call_handler ev ptr io c s =
     (case ev of
        Null_event \<Rightarrow> Inl Null_deref
      | Unset_event \<Rightarrow> Inl Dangling
      | Handler h \<Rightarrow> run_handler h ptr io c s)"

definition dispatch :: "nat \<times> ev_flag list \<times> io \<Rightarrow> server \<Rightarrow> server res" where
  "dispatch ev s =
     (case ev of (ptr, events, io) \<Rightarrow>
        (case heap s ptr of
           None \<Rightarrow> Inl Dangling
         | Some c \<Rightarrow>
             if EPOLLIN \<in> set events then call_handler (read_event c) ptr io c s
             else if EPOLLOUT \<in> set events then call_handler (write_event c) ptr io c s
             else Inr s))"

text \<open>
  \<open>epoll_wait\<close> turns reports on descriptors into the data pointers registered for them. The loop of
  \<open>ngx_epoll_process_events\<close> then goes through the batch, whatever the handlers do meanwhile.
\<close>

type_synonym report = "int \<times> ev_flag list \<times> io"

definition report_events :: "ev_flag list \<Rightarrow> ev_flag list \<Rightarrow> ev_flag list" where
  "report_events flags evs = filter (\<lambda>e. e \<in> set flags \<or> e = EPOLLERR) evs"

fun epoll_wait :: "server \<Rightarrow> report list \<Rightarrow> (nat \<times> ev_flag list \<times> io) list" where
  "epoll_wait s [] = []"
| "epoll_wait s ((fd, evs, io) # rs) =
     (case epoll_set s fd of
        None \<Rightarrow> epoll_wait s rs
      | Some (ptr, flags) \<Rightarrow> (ptr, report_events flags evs, io) # epoll_wait s rs)"

fun process_batch :: "(nat \<times> ev_flag list \<times> io) list \<Rightarrow> server \<Rightarrow> server res" where
  "process_batch [] s = Inr s"
| "process_batch (ev # evs) s = bind_res (dispatch ev s) (process_batch evs)"

definition ngx_epoll_process_events :: "report list \<Rightarrow> server \<Rightarrow> server res" where
  "ngx_epoll_process_events rs s = process_batch (epoll_wait s rs) s"

text \<open>
  \<open>main\<close>. It makes the listening socket and a connection for it, registers it with \<open>web_accept\<close>, opens
  a file and forks: the child runs the event loop, every other outcome of \<open>fork\<close> sleeps for ever.
  \<open>boot_io\<close> is what it starts with (the descriptors that are open, with their flags) and the results
  of \<open>socket\<close>, \<open>epoll_create\<close>, \<open>open\<close> and \<open>fork\<close>. The results of \<open>bind\<close> and \<open>listen\<close> are not
  looked at; when they fail, \<open>accept\<close> does.
\<close>

record boot_io =
  b_fds :: "int set"
  b_fd_flags :: "int \<Rightarrow> 32 word"
  b_status :: "int \<Rightarrow> 32 word"
  b_socket :: int
  b_epoll :: int
  b_open :: int
  b_fork :: int

datatype main_outcome = Event_loop server | Sleeps server

definition add_file :: "int \<Rightarrow> server \<Rightarrow> server" where
  "add_file filefd s = (if filefd = - 1 then s else
     s\<lparr>open_fds := insert filefd (open_fds s), fd_flags := (fd_flags s)(filefd := 0),
       status_flags := (status_flags s)(filefd := 0)\<rparr>)"

definition server_main :: "boot_io \<Rightarrow> io \<Rightarrow> main_outcome res" where
  "server_main b io =
     (let s0 = \<lparr>heap = (\<lambda>_. None), next_addr = 0, epoll_set = (\<lambda>_. None), open_fds = b_fds b,
            fd_flags = b_fd_flags b, status_flags = b_status b, ep = - 1, wire = []\<rparr>;
          listenfd = new_fd (b_fds b) (b_socket b);
          s1 = epoll_init_event (b_epoll b)
            (if listenfd = - 1 then s0 else add_socket listenfd s0) in
      bind_res (initConnection (io_struct io) (io_read_event io) (io_write_event io) (io_buffer io))
        (\<lambda>conn. bind_res (set_handler Web_accept (read_event conn)) (\<lambda>re.
           let s2 = epoll_add_event (io_epoll_add io) 0 listenfd [EPOLLIN, EPOLLERR]
                 (s1\<lparr>heap := (\<lambda>_. None)(0 \<mapsto> conn\<lparr>conn_fd := listenfd, read_event := re\<rparr>),
                     next_addr := 1\<rparr>);
               s3 = snd (setnonblocking listenfd s2);
               s4 = add_file (new_fd (open_fds s3) (b_open b)) s3
           in Inr (if b_fork b = 0 then Event_loop s4 else Sleeps s4))))"

text \<open>
  The states the event loop can reach when there are a listening socket and an epoll object.
  \<open>epoll_wait\<close> reports a descriptor once.
\<close>

inductive server_reach :: "server \<Rightarrow> bool" where
  boot: "server_main b io = Inr (Event_loop s) \<Longrightarrow> new_fd (b_fds b) (b_socket b) \<noteq> - 1 \<Longrightarrow>
    ep s \<noteq> - 1 \<Longrightarrow> server_reach s"
| turn: "server_reach s \<Longrightarrow> distinct (map fst rs) \<Longrightarrow>
    ngx_epoll_process_events rs s = Inr s' \<Longrightarrow> server_reach s'"

text \<open>The loop \<open>while (true)\<close> of \<open>ngx_epoll_process_events\<close>, for a sequence of results of \<open>epoll_wait\<close>.\<close>

fun event_loop :: "report list list \<Rightarrow> server \<Rightarrow> server res" where
  "event_loop [] s = Inr s"
| "event_loop (rs # rss) s = bind_res (ngx_epoll_process_events rs s) (event_loop rss)"

subsection \<open>Reading\<close>

lemma enlarge_not_needed:
  "512 \<le> query_remain_len c \<Longrightarrow> try_to_enlarge_buffer mem c = Inr c"
  by (simp add: try_to_enlarge_buffer_def REMAIN_BUFFER_def)

lemma recv_from_chunk:
  "bs \<noteq> [] \<Longrightarrow> length bs \<le> cap \<Longrightarrow> recv_from cap (Bytes bs # r) = (Got bs, r)"
  by (cases bs) auto

lemma read_loop_chunk:
  assumes "querybuf c = Some blk" and "query_end_index c = int e"
    and "query_remain_len c = 1024 - int e" and "length blk = 1024"
    and "e + length bs \<le> 512" and "bs \<noteq> []"
  shows "read_loop mem k (Bytes bs # r) c =
    read_loop mem (Suc k) r (c\<lparr>querybuf := Some (take e blk @ bs @ drop (e + length bs) blk),
      query_end_index := int (e + length bs), query_remain_len := 1024 - int (e + length bs)\<rparr>)"
proof -
  have room: "512 \<le> query_remain_len c" using assms(3,5) by linarith
  have "query_remain_len c = int (1024 - e)" using assms(3,5) by (simp add: of_nat_diff)
  moreover have "1024 - e < 2 ^ 31" by (rule le_less_trans [of _ 1024]) simp_all
  ultimately have cap: "size_t_of_int (query_remain_len c) = 1024 - e"
    by (metis size_t_of_int_of_nat)
  have got: "recv_from (1024 - e) (Bytes bs # r) = (Got bs, r)"
    by (rule recv_from_chunk) (use assms(5,6) in auto)
  have "write_block blk e bs = Inr (take e blk @ bs @ drop (e + length bs) blk)"
    using assms(4,5) by (simp add: write_block_def)
  then show ?thesis
    using assms(1,2,3) got cap enlarge_not_needed [OF room]
    by (subst read_loop.simps) (simp add: diff_diff_eq)
qed

text \<open>The connection with \<open>n\<close> more bytes behind the first \<open>e\<close> of its block of 1024.\<close>

definition filled :: "string \<Rightarrow> nat \<Rightarrow> string \<Rightarrow> web_connection \<Rightarrow> web_connection" where
  "filled blk e bs c = c\<lparr>querybuf := Some (take e blk @ bs @ drop (e + length bs) blk),
     query_end_index := int (e + length bs), query_remain_len := 1024 - int (e + length bs)\<rparr>"

lemma read_loop_chunks:
  "querybuf c = Some blk \<Longrightarrow> query_end_index c = int e \<Longrightarrow>
    query_remain_len c = 1024 - int e \<Longrightarrow> length blk = 1024 \<Longrightarrow>
    e + length (concat chunks) \<le> 512 \<Longrightarrow> [] \<notin> set chunks \<Longrightarrow>
    \<exists>k'. read_loop mem k (map Bytes chunks @ r) c = read_loop mem k' r (filled blk e (concat chunks) c)"
proof (induction chunks arbitrary: c e blk k)
  case Nil
  then have "filled blk e (concat []) c = c" by (simp add: filled_def)
  then show ?case by (intro exI [of _ k]) simp
next
  case (Cons bs chunks)
  let ?blk = "take e blk @ bs @ drop (e + length bs) blk"
  let ?c = "filled blk e bs c"
  have "read_loop mem k (map Bytes (bs # chunks) @ r) c = read_loop mem (Suc k) (map Bytes chunks @ r) ?c"
    using read_loop_chunk [OF Cons.prems(1-4), of bs] Cons.prems(5,6) by (auto simp: filled_def)
  moreover have "length ?blk = 1024" using Cons.prems(4,5) by simp
  moreover have "e + length bs + length (concat chunks) \<le> 512" using Cons.prems(5) by simp
  moreover have "filled ?blk (e + length bs) (concat chunks) ?c = filled blk e (concat (bs # chunks)) c"
    using Cons.prems(4,5) by (simp add: filled_def ac_simps)
  ultimately show ?case
    using Cons.IH [of ?c ?blk "e + length bs" "Suc k"] Cons.prems by (simp add: filled_def)
qed

lemma filled_room:
  assumes "e + length bs \<le> 512"
  shows "try_to_enlarge_buffer mem (filled blk e bs c) = Inr (filled blk e bs c)"
    and "size_t_of_int (query_remain_len (filled blk e bs c)) \<noteq> 0"
proof -
  have room: "512 \<le> query_remain_len (filled blk e bs c)" using assms by (simp add: filled_def)
  then show "try_to_enlarge_buffer mem (filled blk e bs c) = Inr (filled blk e bs c)"
    by (rule enlarge_not_needed)
  from room show "size_t_of_int (query_remain_len (filled blk e bs c)) \<noteq> 0"
    by (subst size_t_of_int_nonneg) (simp_all add: filled_def)
qed

text \<open>The data end because the socket runs dry, or because the client has closed.\<close>

lemma read_loop_ends:
  assumes "e + length bs \<le> 512"
  shows "read_loop mem k [] (filled blk e bs c) = Inr (False, filled blk e bs c)"
    and "read_loop mem k (Peer_closed # r) (filled blk e bs c) = Inr (True, filled blk e bs c)"
  using filled_room [OF assms]
  by (subst read_loop.simps; simp add: filled_def)+

text \<open>
  Growth. In memory that is zero behind the data, \<open>strlen\<close> finds the end of the data as long as one
  byte is left, and the buffer grows to 1024 bytes of room.
\<close>

definition holds_data :: "web_connection \<Rightarrow> string \<Rightarrow> nat \<Rightarrow> bool" where
  "holds_data c sofar room \<longleftrightarrow> querybuf c = Some (sofar @ replicate room NUL) \<and>
     query_end_index c = int (length sofar) \<and> query_remain_len c = int room"

lemma enlarge_zeroed:
  assumes c: "holds_data c sofar room" and room: "0 < room" "room \<le> 1024"
    and "NUL \<notin> set sofar" and small: "length sofar + 1024 < 2 ^ 31"
  obtains room' c' where "try_to_enlarge_buffer (Some []) c = Inr c'" "holds_data c' sofar room'"
    "512 \<le> room'" "room' \<le> 1024"
    "c' = c\<lparr>querybuf := Some (sofar @ replicate room' NUL), query_remain_len := int room'\<rparr>"
proof (cases "room < 512")
  case False
  have "c = c\<lparr>querybuf := Some (sofar @ replicate room NUL), query_remain_len := int room\<rparr>"
    using c by (simp add: holds_data_def)
  with that [of c room] False c room show ?thesis
    by (simp add: enlarge_not_needed holds_data_def)
next
  case True
  let ?n = "length sofar"
  have "strlen (sofar @ replicate room NUL) = Inr ?n"
    using assms(4) room(1) strlen_append [of sofar "replicate (room - 1) NUL"]
    by (cases room) simp_all
  moreover have "realloc_block (?n + 1024) (sofar @ replicate room NUL) [] =
      sofar @ replicate 1024 NUL"
    using room by (simp add: realloc_block_def malloc_block_def replicate_add [symmetric])
  ultimately have "try_to_enlarge_buffer (Some []) c =
      Inr (c\<lparr>querybuf := Some (sofar @ replicate 1024 NUL), query_remain_len := int 1024\<rparr>)"
    using c True int_of_size_t_small [OF small] size_t_of_int_of_nat [OF small] realloc_some [OF small]
    by (simp only: try_to_enlarge_buffer_def REMAIN_BUFFER_def QUERY_INIT_LEN_def Let_def
        option.case bind_res_simps holds_data_def) simp
  with that [of _ 1024] c show ?thesis by (simp add: holds_data_def)
qed

text \<open>The connection that holds \<open>data\<close> followed by \<open>room\<close> zero bytes.\<close>

definition holding :: "string \<Rightarrow> nat \<Rightarrow> web_connection \<Rightarrow> web_connection" where
  "holding data room c = c\<lparr>querybuf := Some (data @ replicate room NUL),
     query_end_index := int (length data), query_remain_len := int room\<rparr>"

lemma holding_holds [simp]: "holds_data (holding data room c) data room"
  by (simp add: holding_def holds_data_def)

lemma holding_twice [simp]: "holding d r (holding data room c) = holding d r c"
  by (simp add: holding_def)

lemma enlarge_holding:
  assumes "holds_data c sofar room" and "0 < room" "room \<le> 1024" and "NUL \<notin> set sofar"
    and "length sofar + 1024 < 2 ^ 31"
  obtains room' where "try_to_enlarge_buffer (Some []) c = Inr (holding sofar room' c)"
    "512 \<le> room'" "room' \<le> 1024" "size_t_of_int (int room') = room'"
proof -
  obtain room' c' where c': "try_to_enlarge_buffer (Some []) c = Inr c'" "512 \<le> room'" "room' \<le> 1024"
    "c' = c\<lparr>querybuf := Some (sofar @ replicate room' NUL), query_remain_len := int room'\<rparr>"
    using enlarge_zeroed [OF assms] by blast
  have "query_end_index c = int (length sofar)" using assms(1) by (simp add: holds_data_def)
  then have "c' = holding sofar room' c" using c'(4) by (simp add: holding_def)
  moreover have "room' < 2 ^ 31" by (rule le_less_trans [OF c'(3)]) simp
  ultimately show thesis using that c' size_t_of_int_of_nat by blast
qed

lemma read_loop_zeroed_chunk:
  assumes "holds_data c sofar room" and "0 < room" "room \<le> 1024" and "NUL \<notin> set sofar"
    and "length sofar + 1024 < 2 ^ 31" and bs: "bs \<noteq> []" "length bs \<le> 511"
  obtains room' where "0 < room'" "room' \<le> 1024"
    "read_loop (\<lambda>_. Some []) k (Bytes bs # r) c =
      read_loop (\<lambda>_. Some []) (Suc k) r (holding (sofar @ bs) room' c)"
proof -
  obtain room1 where room1: "try_to_enlarge_buffer (Some []) c = Inr (holding sofar room1 c)"
    "512 \<le> room1" "room1 \<le> 1024" "size_t_of_int (int room1) = room1"
    using enlarge_holding [OF assms(1-5)] by blast
  have got: "recv_from room1 (Bytes bs # r) = (Got bs, r)"
    by (rule recv_from_chunk) (use bs room1(2) in auto)
  have "write_block (sofar @ replicate room1 NUL) (length sofar) bs =
      Inr ((sofar @ bs) @ replicate (room1 - length bs) NUL)"
    using bs(2) room1(2) by (simp add: write_block_def drop_append)
  then have "read_loop (\<lambda>_. Some []) k (Bytes bs # r) c =
      read_loop (\<lambda>_. Some []) (Suc k) r (holding (sofar @ bs) (room1 - length bs) c)"
    using room1 bs(2) got
    by (subst read_loop.simps) (simp add: holding_def of_nat_diff del: recv_from.simps)
  with that [of "room1 - length bs"] bs(2) room1(2,3) show thesis by simp
qed

lemma read_loop_grows:
  "holds_data c sofar room \<Longrightarrow> 0 < room \<Longrightarrow> room \<le> 1024 \<Longrightarrow> NUL \<notin> set sofar \<Longrightarrow>
    \<forall>bs \<in> set chunks. bs \<noteq> [] \<and> length bs \<le> 511 \<and> NUL \<notin> set bs \<Longrightarrow>
    length sofar + length (concat chunks) + 1024 < 2 ^ 31 \<Longrightarrow>
    \<exists>room'. 512 \<le> room' \<and> room' \<le> 1024 \<and> read_loop (\<lambda>_. Some []) k (map Bytes chunks) c =
      Inr (False, holding (sofar @ concat chunks) room' c)"
proof (induction chunks arbitrary: c sofar room k)
  case Nil
  have small: "length sofar + 1024 < 2 ^ 31" using Nil.prems(6) by simp
  obtain room' where "try_to_enlarge_buffer (Some []) c = Inr (holding sofar room' c)"
    "512 \<le> room'" "room' \<le> 1024" "size_t_of_int (int room') = room'"
    using enlarge_holding [OF Nil.prems(1-4) small] by blast
  then show ?case
    by (intro exI [of _ room'] conjI; (subst read_loop.simps)?) (simp_all add: holding_def)
next
  case (Cons bs chunks)
  have bs: "bs \<noteq> []" "length bs \<le> 511" "NUL \<notin> set bs" using Cons.prems(5) by auto
  have small: "length sofar + 1024 < 2 ^ 31"
    using Cons.prems(6) by (rule le_less_trans [rotated]) simp
  obtain room1 where room1: "0 < room1" "room1 \<le> 1024"
    "read_loop (\<lambda>_. Some []) k (map Bytes (bs # chunks)) c =
      read_loop (\<lambda>_. Some []) (Suc k) (map Bytes chunks) (holding (sofar @ bs) room1 c)"
    using read_loop_zeroed_chunk [OF Cons.prems(1-4) small bs(1,2), of k "map Bytes chunks"] by auto
  have small': "length (sofar @ bs) + length (concat chunks) + 1024 < 2 ^ 31"
    using Cons.prems(6) by (simp add: add.assoc)
  have "NUL \<notin> set (sofar @ bs)" using bs(3) Cons.prems(4) by simp
  from Cons.IH [OF holding_holds room1(1,2) this _ small', where k = "Suc k"] Cons.prems(5) room1(3)
  show ?case by simp
qed

subsection \<open>Properties of reading and answering\<close>

lemma http_read_chunks_eq:
  assumes "querybuf c = Some blk" and "length blk = 1024" and "query_end_index c = 0"
    and "query_remain_len c = 1024" and "length (concat chunks) \<le> 512" and "[] \<notin> set chunks"
  shows "read_request mem (map Bytes chunks) c =
    process_request_line
      (c\<lparr>querybuf := Some (concat chunks @ drop (length (concat chunks)) blk),
         query_end_index := int (length (concat chunks)),
         query_remain_len := 1024 - int (length (concat chunks))\<rparr>)"
proof -
  obtain k where "read_loop mem 0 (map Bytes chunks @ []) c =
      read_loop mem k [] (filled blk 0 (concat chunks) c)"
    using read_loop_chunks [of c blk 0 chunks mem 0 "[]"] assms by auto
  with read_loop_ends(1) [of 0 "concat chunks"] assms(5) show ?thesis
    by (simp add: read_request_def filled_def)
qed

text \<open>How a request is cut into pieces does not matter when it arrives as a whole. If at most 512
  bytes arrive on a fresh connection, in any number of pieces, before the socket runs dry,
  \<open>read_request\<close> has them all in the buffer, in order, and parses once.
\<close>
theorem http_read_chunks:
  assumes "querybuf c = Some blk" and "length blk = 1024" and "query_end_index c = 0"
    and "query_remain_len c = 1024" and "length (concat chunks) \<le> 512" and "[] \<notin> set chunks"
  shows "read_request mem (map Bytes chunks) c =
    process_request_line
      (c\<lparr>querybuf := Some (concat chunks @ drop (length (concat chunks)) blk),
         query_end_index := int (length (concat chunks)),
         query_remain_len := 1024 - int (length (concat chunks))\<rparr>)"
  by (rule http_read_chunks_eq [OF assms])

text \<open>A client that sends 1024 bytes or more without a NUL in one go makes the server read past its
  buffer: the first \<open>recv\<close> fills the block to the last byte, and \<open>strlen\<close> in
  \<open>try_to_enlarge_buffer\<close> finds no end in it. A well-formed request of that size is enough.
\<close>
theorem http_read_full_buffer:
  assumes "querybuf c = Some blk" and "length blk = 1024" and "query_end_index c = 0"
    and "query_remain_len c = 1024" and "1024 \<le> length bs" and "NUL \<notin> set (take 1024 bs)"
  shows "read_request mem (Bytes bs # r) c = Inl Out_of_bounds"
proof -
  let ?c = "c\<lparr>querybuf := Some (take 1024 bs), query_end_index := 1024, query_remain_len := 0\<rparr>"
  let ?r = "if length bs \<le> 1024 then r else Bytes (drop 1024 bs) # r"
  have "size_t_of_int (query_remain_len c) = 1024" using assms(4) by simp
  moreover have "recv_from 1024 (Bytes bs # r) = (Got (take 1024 bs), ?r)" using assms(5) by auto
  moreover have "write_block blk 0 (take 1024 bs) = Inr (take 1024 bs)"
    using assms(2,5) by (simp add: write_block_def)
  moreover have "length (take 1024 bs) = 1024" using assms(5) by simp
  ultimately have "read_loop mem 0 (Bytes bs # r) c = read_loop mem (Suc 0) ?r ?c"
    using assms(1,3,4) enlarge_not_needed [of c]
    by (subst read_loop.simps) simp
  also have "\<dots> = Inl Out_of_bounds"
    using strlen_no_nul [OF assms(6)]
    by (subst read_loop.simps) (simp add: try_to_enlarge_buffer_def REMAIN_BUFFER_def)
  finally show ?thesis by (simp add: read_request_def)
qed

text \<open>
  C12: The buffer grows with the request, up to a boundary. On a fresh connection in zeroed memory, any
  number of pieces of at most 511 bytes without NUL end up in the buffer, in order and followed by
  at least 512 bytes of room, and are parsed once. But a first piece of 1024 bytes without NUL fills
  the block to its last byte, and \<open>strlen\<close> in \<open>try_to_enlarge_buffer\<close> reads past it.
\<close>
theorem http_read_grows:
  assumes "querybuf c = Some (replicate 1024 NUL)" and "query_end_index c = 0"
    and "query_remain_len c = 1024"
  shows "((\<forall>bs \<in> set chunks. bs \<noteq> [] \<and> length bs \<le> 511 \<and> NUL \<notin> set bs) \<and>
      length (concat chunks) + 1024 < 2 ^ 31 \<longrightarrow>
      (\<exists>room. 512 \<le> room \<and> room \<le> 1024 \<and> read_request (\<lambda>_. Some []) (map Bytes chunks) c =
        process_request_line (c\<lparr>querybuf := Some (concat chunks @ replicate room NUL),
          query_end_index := int (length (concat chunks)), query_remain_len := int room\<rparr>))) \<and>
    (1024 \<le> length bs \<and> NUL \<notin> set (take 1024 bs) \<longrightarrow>
      read_request mem (Bytes bs # r) c = Inl Out_of_bounds)"
proof (intro conjI impI)
  assume "(\<forall>bs \<in> set chunks. bs \<noteq> [] \<and> length bs \<le> 511 \<and> NUL \<notin> set bs) \<and>
    length (concat chunks) + 1024 < 2 ^ 31"
  with assms read_loop_grows [of c "[]" 1024 chunks 0] show
    "\<exists>room. 512 \<le> room \<and> room \<le> 1024 \<and> read_request (\<lambda>_. Some []) (map Bytes chunks) c =
        process_request_line (c\<lparr>querybuf := Some (concat chunks @ replicate room NUL),
          query_end_index := int (length (concat chunks)), query_remain_len := int room\<rparr>)"
    by (auto simp: holds_data_def read_request_def holding_def)
next
  assume "1024 \<le> length bs \<and> NUL \<notin> set (take 1024 bs)"
  with http_read_full_buffer [OF assms(1) _ assms(2,3)] show
    "read_request mem (Bytes bs # r) c = Inl Out_of_bounds" by simp
qed





definition fresh_conn :: web_connection where
  "fresh_conn = (zero_conn (replicate 1024 NUL))\<lparr>query_remain_len := 1024\<rparr>"

lemma fresh_conn_ok [simp]:
  "querybuf fresh_conn = Some (replicate 1024 NUL)" "query_end_index fresh_conn = 0"
  "query_remain_len fresh_conn = 1024" "query_start_index fresh_conn = 0"
  "fields_ok fresh_conn" "has_events fresh_conn" "conn_fd fresh_conn = 7"
  by (simp_all add: fresh_conn_def fields_ok_def has_events_def zero_conn_def)

theorem http_read_chunks_witness:
  "read_request (\<lambda>_. None) (map Bytes [''GET / HT'', ''TP/1.1'', [CR, LF, CR], [LF]]) fresh_conn =
    process_request_line (fresh_conn\<lparr>querybuf := Some (''GET / HTTP/1.1'' @ [CR, LF, CR, LF] @
      replicate 1006 NUL), query_end_index := 18, query_remain_len := 1006\<rparr>)"
  using http_read_chunks [of fresh_conn "replicate 1024 NUL"
      "[''GET / HT'', ''TP/1.1'', [CR, LF, CR], [LF]]" "\<lambda>_. None"]
  by simp

theorem http_read_full_buffer_witness:
  "read_request (\<lambda>_. None) [Bytes (replicate 1024 CHR ''x'')] fresh_conn = Inl Out_of_bounds"
  by (rule http_read_full_buffer [of _ "replicate 1024 NUL"]) simp_all

theorem http_read_grows_witness:
  "\<exists>room. 512 \<le> room \<and> read_request (\<lambda>_. Some [])
      [Bytes (replicate 500 CHR ''x''), Bytes (replicate 500 CHR ''y''), Bytes (replicate 500 CHR ''z'')]
      fresh_conn =
    process_request_line (fresh_conn\<lparr>querybuf := Some ((replicate 500 CHR ''x'' @
        replicate 500 CHR ''y'' @ replicate 500 CHR ''z'') @ replicate room NUL),
      query_end_index := 1500, query_remain_len := int room\<rparr>)"
proof -
  let ?chunks = "[replicate 500 CHR ''x'', replicate 500 CHR ''y'', replicate 500 CHR ''z'']"
  have "length (concat ?chunks) = 1500" by simp
  moreover from this have "length (concat ?chunks) + 1024 < 2 ^ 31" by (simp only:) simp
  moreover have "\<forall>bs \<in> set ?chunks. bs \<noteq> [] \<and> length bs \<le> 511 \<and> NUL \<notin> set bs" by simp
  moreover note http_read_grows [of fresh_conn ?chunks "[]" "\<lambda>_. None" "[]", THEN conjunct1, THEN mp]
  ultimately obtain room where "512 \<le> room" and
    "read_request (\<lambda>_. Some []) (map Bytes ?chunks) fresh_conn =
      process_request_line (fresh_conn\<lparr>querybuf := Some (concat ?chunks @ replicate room NUL),
        query_end_index := int 1500, query_remain_len := int room\<rparr>)"
    using fresh_conn_ok(1-3) by metis
  then show ?thesis by (intro exI [of _ room]) simp
qed


end
