(* ===== verification/Handler_Laws.thy ===== *)
theory Handler_Laws
  imports Epoll_Server
begin

section \<open>What the handlers do to a connection\<close>

text \<open>
  The interfaces between the handlers and the arguments about them. A relation between the
  connection before and after that is closed under the writes of the parser
  (\<open>parser_relation\<close>) relates the two ends of every parse up to \<open>process_body\<close>; one that is also
  closed under growing the buffer and receiving (\<open>reader_relation\<close>) relates those of every read of
  bytes of the given kind. The safety of the event loop and the bounds of the buffer are instances.
\<close>

text \<open>
  How a parse ends: with a connection that is kept waiting, in \<open>process_body\<close>, or in a fault other
  than the use of a freed object. A read can also end with the connection closed.
\<close>

definition parse_ends ::
  "(web_connection \<Rightarrow> web_connection \<Rightarrow> bool) \<Rightarrow> web_connection \<Rightarrow> handler_result \<Rightarrow> bool" where
  "parse_ends R c r \<longleftrightarrow> (\<exists>e. r = Inl e \<and> e \<noteq> Dangling) \<or>
     (\<exists>d. R c d \<and> (r = Inr (d, []) \<or> r = process_body d))"

definition read_ends ::
  "(web_connection \<Rightarrow> web_connection \<Rightarrow> bool) \<Rightarrow> web_connection \<Rightarrow> handler_result \<Rightarrow> bool" where
  "read_ends R c r \<longleftrightarrow> parse_ends R c r \<or>
     (\<exists>d. R c d \<and> r = Inr (d, Epoll_del (conn_fd d) # close_conn d))"

lemma parse_ends_fault [simp]: "parse_ends R c (Inl e)" if "e \<noteq> Dangling"
  using that by (simp add: parse_ends_def)

lemma parse_ends_bind:
  "(\<And>e. r = Inl e \<Longrightarrow> e \<noteq> Dangling) \<Longrightarrow> (\<And>x. r = Inr x \<Longrightarrow> parse_ends R c (f x)) \<Longrightarrow>
    parse_ends R c (bind_res r f)"
  by (cases r) auto

text \<open>The primitives of the parser and of the buffers never use a freed object.\<close>

lemma not_Dangling [dest]:
  "strpbrk blk i accept = Inl e \<Longrightarrow> e = Out_of_bounds"
  "strncpy dst blk i n = Inl e \<Longrightarrow> e = Out_of_bounds"
  "strncasecmp_eq blk i lit = Inl e \<Longrightarrow> e = Out_of_bounds"
  "strlen s = Inl e \<Longrightarrow> e = Out_of_bounds"
  "write_block blk i bs = Inl e \<Longrightarrow> e = Out_of_bounds"
  "set_handler h ev = Inl e \<Longrightarrow> e = Null_deref"
proof -
  have "pbrk_scan src i accept = Inl e \<Longrightarrow> e = Out_of_bounds" for src
    by (induction src i accept rule: pbrk_scan.induct) (auto split: if_splits)
  then show "strpbrk blk i accept = Inl e \<Longrightarrow> e = Out_of_bounds"
    by (simp add: strpbrk_def)
  show "strncpy dst blk i n = Inl e \<Longrightarrow> e = Out_of_bounds"
    by (simp add: strncpy_def Let_def split: if_splits)
  have "case_prefix src lit = Inl e \<Longrightarrow> e = Out_of_bounds" for src
    by (induction src lit rule: case_prefix.induct) (auto split: if_splits)
  then show "strncasecmp_eq blk i lit = Inl e \<Longrightarrow> e = Out_of_bounds"
    by (simp add: strncasecmp_eq_def)
  show "strlen s = Inl e \<Longrightarrow> e = Out_of_bounds"
    by (induction s) (auto simp: bind_res_def split: if_splits sum.splits)
  show "write_block blk i bs = Inl e \<Longrightarrow> e = Out_of_bounds"
    by (simp add: write_block_def split: if_splits)
  show "set_handler h ev = Inl e \<Longrightarrow> e = Null_deref"
    by (simp add: set_handler_def split: web_event.splits)
qed

lemma process_header_fault: "process_header blk len c = Inl e \<Longrightarrow> e \<noteq> Dangling"
  by (auto simp: process_header_def Let_def bind_res_def split: sum.splits if_splits)

lemma enlarge_fault: "try_to_enlarge_buffer mem c = Inl e \<Longrightarrow> e \<noteq> Dangling"
  by (auto simp: try_to_enlarge_buffer_def bind_res_def Let_def split: if_splits option.splits sum.splits)

subsection \<open>The parser\<close>

locale parser_relation =
  fixes R :: "web_connection \<Rightarrow> web_connection \<Rightarrow> bool"
  assumes unchanged: "R c c"
    and step: "R c d \<Longrightarrow> R d e \<Longrightarrow> R c e"
    and start_index: "R c (c\<lparr>query_start_index := i\<rparr>)"
    and fields: "length w = length (req_method c) \<Longrightarrow> R c (c\<lparr>req_method := w\<rparr>)"
      "length w = length (req_uri c) \<Longrightarrow> R c (c\<lparr>req_uri := w\<rparr>)"
      "length w = length (req_version c) \<Longrightarrow> R c (c\<lparr>req_version := w\<rparr>)"
      "length w = length (req_host c) \<Longrightarrow> R c (c\<lparr>req_host := w\<rparr>)"
      "length w = length (req_accept c) \<Longrightarrow> R c (c\<lparr>req_accept := w\<rparr>)"
      "length w = length (req_conn c) \<Longrightarrow> R c (c\<lparr>req_conn := w\<rparr>)"
begin

lemma ends_via: "R c d \<Longrightarrow> parse_ends R d r \<Longrightarrow> parse_ends R c r"
  by (auto simp: parse_ends_def intro: step)

lemma ends_waiting: "parse_ends R c (Inr (c, []))"
  using unchanged by (auto simp: parse_ends_def)

lemma ends_body: "R c d \<Longrightarrow> parse_ends R c (process_body d)"
  by (auto simp: parse_ends_def)

lemma field_step:
  "strncpy (req_method c) blk i n = Inr w \<Longrightarrow> R c (c\<lparr>req_method := w, query_start_index := j\<rparr>)"
  "strncpy (req_uri c) blk i n = Inr w \<Longrightarrow> R c (c\<lparr>req_uri := w, query_start_index := j\<rparr>)"
  "strncpy (req_version c) blk i n = Inr w \<Longrightarrow> R c (c\<lparr>req_version := w, query_start_index := j\<rparr>)"
  by (auto intro!: step [OF _ start_index] intro: fields dest: strncpy_length)

lemma header_step: "process_header blk len c = Inr d \<Longrightarrow> R c d"
  by (auto simp: process_header_def Let_def bind_res_Inr_iff
      intro: fields unchanged dest: strncpy_length split: if_splits)

lemma head_ends: "parse_ends R c (process_head blk c)"
proof (induction blk c rule: process_head.induct)
  case (1 blk c)
  let ?i = "query_start_index c"
  consider (fault) e where "strpbrk blk ?i [LF] = Inl e" | (none) "strpbrk blk ?i [LF] = Inr None"
    | (found) end_line where "strpbrk blk ?i [LF] = Inr (Some end_line)"
    by (cases "strpbrk blk ?i [LF]") (auto simp: not_None_eq [symmetric])
  then show ?case
  proof cases
    case (found end_line)
    let ?len = "end_line - ?i"
    show ?thesis
    proof (cases "?len = 1")
      case True
      with found ends_body [OF start_index, of c] show ?thesis
        by (subst process_head.simps) simp
    next
      case False
      show ?thesis
      proof (cases "process_header blk (int ?len) c")
        case (Inl e)
        with False found process_header_fault [OF Inl] show ?thesis
          by (subst process_head.simps) simp
      next
        case (Inr d)
        have "parse_ends R c (process_head blk (d\<lparr>query_start_index := ?i + ?len + 1\<rparr>))"
          by (rule ends_via [OF step [OF header_step [OF Inr] start_index]])
            (use 1 [OF refl found refl refl False Inr] in simp)
        with False found Inr show ?thesis by (subst process_head.simps) (simp add: Let_def)
      qed
    qed
  qed (subst process_head.simps, auto)+
qed

lemma version_ends: "parse_ends R c (process_version blk c)"
  unfolding process_version_def Let_def
  by (auto intro!: parse_ends_bind ends_waiting ends_via [OF _ head_ends] split: option.splits
      intro: field_step)

lemma uri_ends: "parse_ends R c (process_uri blk c)"
  unfolding process_uri_def Let_def
  by (auto intro!: parse_ends_bind ends_waiting ends_via [OF _ version_ends] split: option.splits
      intro: field_step)

lemma request_line_ends: "parse_ends R c (process_request_line c)"
  unfolding process_request_line_def Let_def
  by (auto intro!: parse_ends_bind ends_waiting ends_via [OF _ uri_ends] split: option.splits
      intro: field_step)

end

subsection \<open>Reading\<close>

text \<open>Bytes that \<open>recv\<close> has written behind the data, and the bookkeeping of \<open>read_request\<close>.\<close>

definition received :: "string \<Rightarrow> nat \<Rightarrow> web_connection \<Rightarrow> web_connection" where
  "received blk n c = c\<lparr>querybuf := Some blk, query_end_index := query_end_index c + int n,
     query_remain_len := query_remain_len c - int n\<rparr>"

text \<open>What a client sends, byte by byte; \<open>recv\<close> only passes on what arrived.\<close>

definition arrivals_ok :: "(char \<Rightarrow> bool) \<Rightarrow> arrival list \<Rightarrow> bool" where
  "arrivals_ok P as \<longleftrightarrow> (\<forall>a \<in> set as. case a of Bytes bs \<Rightarrow> \<forall>b \<in> set bs. P b | _ \<Rightarrow> True)"

lemma arrivals_ok_Cons [simp]:
  "arrivals_ok P (Bytes bs # as) \<longleftrightarrow> (\<forall>b \<in> set bs. P b) \<and> arrivals_ok P as"
  "arrivals_ok P (Recv_error # as) \<longleftrightarrow> arrivals_ok P as"
  "arrivals_ok P (Peer_closed # as) \<longleftrightarrow> arrivals_ok P as"
  by (simp_all add: arrivals_ok_def)

lemma arrivals_ok_trivial [simp]: "arrivals_ok (\<lambda>_. True) as"
  by (simp add: arrivals_ok_def split: arrival.splits)

lemma recv_from_ok:
  "recv_from cap as = (rr, r) \<Longrightarrow> arrivals_ok P as \<Longrightarrow>
    arrivals_ok P r \<and> (\<forall>bs. rr = Got bs \<longrightarrow> (\<forall>b \<in> set bs. P b))"
  by (induction cap as rule: recv_from.induct)
    (auto split: if_splits dest!: in_set_takeD in_set_dropD)

text \<open>
  The bytes that arrive satisfy \<open>byte_ok\<close>; the count of free bytes bounds how many a \<open>recv\<close> gives.
\<close>

locale reader_relation = parser_relation R for R :: "web_connection \<Rightarrow> web_connection \<Rightarrow> bool" +
  fixes byte_ok :: "char \<Rightarrow> bool"
  assumes enlarge: "try_to_enlarge_buffer mem c = Inr d \<Longrightarrow> R c d"
    and receive: "querybuf c = Some blk \<Longrightarrow> bs \<noteq> [] \<Longrightarrow>
      length bs \<le> size_t_of_int (query_remain_len c) \<Longrightarrow> \<forall>b \<in> set bs. byte_ok b \<Longrightarrow>
      write_block blk (nat (query_end_index c)) bs = Inr blk' \<Longrightarrow>
      R c (received blk' (length bs) c)"
begin

lemma loop_step:
  "arrivals_ok byte_ok as \<Longrightarrow>
    (case read_loop mem k as c of Inl e \<Rightarrow> e \<noteq> Dangling | Inr (closed, d) \<Rightarrow> R c d)"
proof (induction mem k as c rule: read_loop.induct)
  case (1 mem k as c)
  show ?case
  proof (cases "try_to_enlarge_buffer (mem k) c")
    case (Inl e)
    with enlarge_fault [OF Inl] show ?thesis by (subst read_loop.simps) simp
  next
    case grown: (Inr c1)
    note c1 = enlarge [OF grown]
    obtain rr r where recv: "recv_from (size_t_of_int (query_remain_len c1)) as = (rr, r)"
      by fastforce
    show ?thesis
    proof (cases "querybuf c1")
      case None
      with grown recv c1 show ?thesis
        by (subst read_loop.simps) (cases rr, simp_all)
    next
      case (Some blk)
      show ?thesis
      proof (cases rr)
        case (Got bs)
        show ?thesis
        proof (cases "write_block blk (nat (query_end_index c1)) bs")
          case (Inl e)
          with grown Some recv Got show ?thesis by (subst read_loop.simps) auto
        next
          case (Inr blk')
          have bs: "bs \<noteq> []" "length bs \<le> size_t_of_int (query_remain_len c1)"
            "\<forall>b \<in> set bs. byte_ok b" and r: "arrivals_ok byte_ok r"
            using recv_from_Got [of _ as bs r] recv_from_ok [OF recv "1.prems"] recv Got by simp_all
          note c2 = step [OF c1 receive [OF Some bs Inr]]
          with "1.IH" [OF grown Some recv [symmetric] Got Inr r] grown Some recv Got Inr
          show ?thesis
            by (subst read_loop.simps) (auto simp: received_def split: sum.splits intro: step)
        qed
      qed (use grown Some recv c1 in \<open>subst read_loop.simps, simp\<close>)+
    qed
  qed
qed

lemma request_ends:
  assumes "arrivals_ok byte_ok as"
  shows "read_ends R c (read_request mem as c)"
proof (cases "read_loop mem 0 as c")
  case (Inl e)
  with loop_step [OF assms, where mem = mem and k = 0 and c = c] show ?thesis
    by (simp add: read_request_def read_ends_def)
next
  case (Inr x)
  obtain closed d where x: "x = (closed, d)" by (cases x)
  with Inr loop_step [OF assms, where mem = mem and k = 0 and c = c] have "R c d" by simp
  with Inr x ends_via [OF _ request_line_ends] show ?thesis
    by (cases closed) (auto simp: read_request_def read_ends_def)
qed

end

end
