(* ===== verification/Server_Safety.thy ===== *)
theory Server_Safety
  imports Handler_Laws
begin

section \<open>Safety of the event loop\<close>

text \<open>
  What every handler leaves behind (\<open>handler_outcome\<close>), the invariant of the server between events
  (\<open>server_inv\<close>: every registration of epoll leads to a live connection with that descriptor, no two
  live connections share one, and each registration only allows events for which a handler is set),
  and the consequences for the event loop: no handler runs on a freed connection or through an event
  whose handler was never set. A live connection need not be registered: \<open>EPOLL_CTL_ADD\<close> can fail.
\<close>

subsection \<open>What a handler does\<close>

definition close_calls :: "web_connection \<Rightarrow> syscall list" where
  "close_calls c = [Epoll_del (conn_fd c), Close_fd (conn_fd c), Free_conn]"

fun is_send :: "int \<Rightarrow> syscall \<Rightarrow> bool" where
  "is_send fd (Send_bytes fd' bs) = (fd' = fd)"
| "is_send fd _ = False"

definition same_conn :: "web_connection \<Rightarrow> web_connection \<Rightarrow> bool" where
  "same_conn c c' \<longleftrightarrow>
     conn_fd c' = conn_fd c \<and> read_event c' = read_event c \<and> write_event c' = write_event c"

definition stays :: "web_connection \<Rightarrow> web_connection \<times> syscall list \<Rightarrow> bool" where
  "stays c r \<longleftrightarrow> same_conn c (fst r) \<and> (\<forall>k \<in> set (snd r). is_send (conn_fd c) k)"

definition arms :: "web_connection \<Rightarrow> web_connection \<times> syscall list \<Rightarrow> bool" where
  "arms c r \<longleftrightarrow> conn_fd (fst r) = conn_fd c \<and> read_event (fst r) = Handler Empty_event_handler \<and>
     write_event (fst r) = Handler Send_response \<and>
     snd r = [Epoll_mod (conn_fd c) [EPOLLOUT, EPOLLERR]]"

definition closes :: "web_connection \<Rightarrow> web_connection \<times> syscall list \<Rightarrow> bool" where
  "closes c r \<longleftrightarrow>
     (\<exists>sends. snd r = sends @ close_calls c \<and> (\<forall>k \<in> set sends. is_send (conn_fd c) k))"

definition handler_outcome :: "web_connection \<Rightarrow> handler_result \<Rightarrow> bool" where
  "handler_outcome c r =
     (case r of Inl e \<Rightarrow> e \<noteq> Dangling | Inr x \<Rightarrow> stays c x \<or> arms c x \<or> closes c x)"

lemma handler_outcome_simps [simp]:
  "handler_outcome c (Inl e) \<longleftrightarrow> e \<noteq> Dangling"
  "handler_outcome c (Inr x) \<longleftrightarrow> stays c x \<or> arms c x \<or> closes c x"
  by (simp_all add: handler_outcome_def)

lemma set_handler_Inr [dest]: "set_handler h ev = Inr ev' \<Longrightarrow> ev' = Handler h"
  by (auto simp: set_handler_def split: web_event.splits)

text \<open>Up to \<open>process_body\<close> a handler changes neither the descriptor nor the events.\<close>

interpretation identity: reader_relation same_conn "\<lambda>_. True"
proof
  show "try_to_enlarge_buffer mem c = Inr d \<Longrightarrow> same_conn c d" for mem c d
    by (auto simp: try_to_enlarge_buffer_def same_conn_def bind_res_Inr_iff Let_def
        split: if_splits option.splits)
qed (simp_all add: same_conn_def received_def)

lemma body_outcome:
  assumes "same_conn c d"
  shows "handler_outcome c (process_body d)"
proof (cases "process_body d")
  case (Inl e)
  then have "e = Null_deref" by (auto simp: process_body_def bind_res_def split: sum.splits)
  with Inl show ?thesis by simp
next
  case (Inr x)
  with assms have "arms c x" by (auto simp: process_body_def bind_res_Inr_iff arms_def same_conn_def)
  with Inr show ?thesis by simp
qed

lemma read_request_outcome: "handler_outcome c (read_request mem as c)"
  using identity.request_ends [of as c mem] body_outcome [of c]
  by (auto simp: read_ends_def parse_ends_def stays_def closes_def close_calls_def close_conn_def
      same_conn_def)

lemma http_res_hdr_short: "length (http_res_hdr (length EPOLL_HELLO) ''text/html'') < 1024"
  by (simp add: http_res_hdr_def crlf_def EPOLL_HELLO_def decimal.simps)

lemma send_response_outcome: "handler_outcome c (send_response r1 r2 c)"
proof -
  have "closes c (c, [Send_bytes (conn_fd c) a, Send_bytes (conn_fd c) b, Epoll_del (conn_fd c)] @
      close_conn c)" for a b
    unfolding closes_def close_calls_def close_conn_def
    by (rule exI [of _ "[Send_bytes (conn_fd c) a, Send_bytes (conn_fd c) b]"]) simp
  then show ?thesis
    using http_res_hdr_short by (simp add: send_response_def Let_def stays_def same_conn_def)
qed

subsection \<open>The invariant\<close>

definition role :: "web_connection \<Rightarrow> ev_flag list \<Rightarrow> bool" where
  "role c flags \<longleftrightarrow>
     (flags = [EPOLLIN, EPOLLERR] \<and> read_event c = Handler Web_accept) \<or>
     (flags = [EPOLLIN, EPOLLERR, EPOLLET] \<and> read_event c = Handler Read_request) \<or>
     (flags = [EPOLLOUT, EPOLLERR] \<and> read_event c = Handler Empty_event_handler \<and>
       write_event c = Handler Send_response)"

definition server_inv :: "server \<Rightarrow> bool" where
  "server_inv s \<longleftrightarrow> ep s \<noteq> - 1 \<and>
     (\<forall>ptr c. heap s ptr = Some c \<longrightarrow> ptr < next_addr s \<and> conn_fd c \<in> open_fds s \<and>
       (\<forall>flags. epoll_set s (conn_fd c) = Some (ptr, flags) \<longrightarrow> role c flags)) \<and>
     (\<forall>p q c d. heap s p = Some c \<longrightarrow> heap s q = Some d \<longrightarrow> conn_fd c = conn_fd d \<longrightarrow> p = q) \<and>
     (\<forall>fd ptr flags. epoll_set s fd = Some (ptr, flags) \<longrightarrow>
       (\<exists>c. heap s ptr = Some c \<and> conn_fd c = fd))"

lemma server_invD:
  assumes "server_inv s" and "heap s ptr = Some c"
  shows "ptr < next_addr s" and "conn_fd c \<in> open_fds s"
    and "epoll_set s (conn_fd c) = Some (ptr, flags) \<Longrightarrow> role c flags"
  using assms unfolding server_inv_def by blast+

lemma server_inv_ep: "server_inv s \<Longrightarrow> ep s \<noteq> - 1"
  by (simp add: server_inv_def)

lemma server_invD_epoll:
  "server_inv s \<Longrightarrow> epoll_set s fd = Some (ptr, flags) \<Longrightarrow>
    \<exists>c. heap s ptr = Some c \<and> conn_fd c = fd"
  unfolding server_inv_def by blast

lemma server_inv_fd_unique:
  "server_inv s \<Longrightarrow> heap s p = Some c \<Longrightarrow> heap s q = Some d \<Longrightarrow> p \<noteq> q \<Longrightarrow> conn_fd c \<noteq> conn_fd d"
  unfolding server_inv_def by blast

lemma server_inv_registered:
  "server_inv s \<Longrightarrow> heap s ptr = Some c \<Longrightarrow> epoll_set s fd = Some (ptr, flags) \<Longrightarrow> fd = conn_fd c"
  using server_invD_epoll by fastforce

lemma server_inv_own:
  "server_inv s \<Longrightarrow> heap s ptr = Some c \<Longrightarrow> epoll_set s (conn_fd c) = Some (q, flags) \<Longrightarrow> q = ptr"
  using server_invD_epoll server_inv_fd_unique by metis

text \<open>What is left to show when one connection, its descriptor and its registration change.\<close>

lemma server_invI:
  assumes "ep s \<noteq> - 1"
    and "\<And>ptr c. heap s ptr = Some c \<Longrightarrow> ptr < next_addr s \<and> conn_fd c \<in> open_fds s"
    and "\<And>ptr c flags. heap s ptr = Some c \<Longrightarrow> epoll_set s (conn_fd c) = Some (ptr, flags) \<Longrightarrow>
      role c flags"
    and "\<And>p q c d. heap s p = Some c \<Longrightarrow> heap s q = Some d \<Longrightarrow> conn_fd c = conn_fd d \<Longrightarrow> p = q"
    and "\<And>fd ptr flags. epoll_set s fd = Some (ptr, flags) \<Longrightarrow>
      \<exists>c. heap s ptr = Some c \<and> conn_fd c = fd"
  shows "server_inv s"
  using assms unfolding server_inv_def by blast

text \<open>
  What an event at \<open>ptr\<close> leaves alone: every other connection, its registration, and what was sent
  on its descriptor.
\<close>

definition sent_on :: "int \<Rightarrow> server \<Rightarrow> string list" where
  "sent_on fd s = map snd (filter (\<lambda>(fd', bs). fd' = fd) (wire s))"

lemma sent_on_simps [simp]:
  "sent_on fd (s\<lparr>heap := h\<rparr>) = sent_on fd s" "sent_on fd (s\<lparr>epoll_set := e\<rparr>) = sent_on fd s"
  "sent_on fd (s\<lparr>open_fds := f\<rparr>) = sent_on fd s"
  "sent_on fd (s\<lparr>wire := wire s @ [(fd', bs)]\<rparr>) = sent_on fd s @ (if fd' = fd then [bs] else [])"
  by (simp_all add: sent_on_def)

lemma sent_on_same: "wire s' = wire s \<Longrightarrow> sent_on fd s' = sent_on fd s"
  by (simp add: sent_on_def)

definition keeps_others :: "nat \<Rightarrow> server \<Rightarrow> server \<Rightarrow> bool" where
  "keeps_others ptr s s' \<longleftrightarrow> (\<forall>q c. q \<noteq> ptr \<longrightarrow> heap s q = Some c \<longrightarrow>
     heap s' q = Some c \<and> epoll_set s' (conn_fd c) = epoll_set s (conn_fd c) \<and>
     sent_on (conn_fd c) s' = sent_on (conn_fd c) s)"

lemma exec_sends:
  "\<forall>k \<in> set calls. is_send fd k \<Longrightarrow>
    heap (fold (exec_call ptr) calls s) = heap s \<and>
    epoll_set (fold (exec_call ptr) calls s) = epoll_set s \<and>
    open_fds (fold (exec_call ptr) calls s) = open_fds s \<and>
    next_addr (fold (exec_call ptr) calls s) = next_addr s \<and>
    ep (fold (exec_call ptr) calls s) = ep s \<and>
    (\<forall>fd'. fd' \<noteq> fd \<longrightarrow> sent_on fd' (fold (exec_call ptr) calls s) = sent_on fd' s)"
proof (induction calls arbitrary: s)
  case (Cons k calls)
  then show ?case by (cases k) auto
qed simp

text \<open>Another connection keeps its memory, and has another descriptor.\<close>

lemma other_fd:
  assumes "server_inv s" and "heap s ptr = Some c" and "heap s q = Some d" and "q \<noteq> ptr"
  shows "conn_fd d \<noteq> conn_fd c"
  using server_inv_fd_unique [OF assms(1,3,2,4)] .

lemma apply_stays:
  assumes inv: "server_inv s" and at: "heap s ptr = Some c" and "stays c (c', calls)"
  defines "s' \<equiv> fold (exec_call ptr) calls (s\<lparr>heap := (heap s)(ptr \<mapsto> c')\<rparr>)"
  shows "server_inv s' \<and> keeps_others ptr s s'"
proof -
  have same: "conn_fd c' = conn_fd c" "role c' flags = role c flags" for flags
    using assms(3) by (auto simp: stays_def same_conn_def role_def)
  have s': "heap s' = (heap s)(ptr \<mapsto> c')" "epoll_set s' = epoll_set s"
    "open_fds s' = open_fds s" "next_addr s' = next_addr s" "ep s' = ep s"
    "\<forall>fd. fd \<noteq> conn_fd c \<longrightarrow> sent_on fd s' = sent_on fd s"
    using assms(3) exec_sends [of calls "conn_fd c" ptr] by (auto simp: stays_def s'_def)
  note other = other_fd [OF inv at]
  have "server_inv s'"
  proof (rule server_invI)
    show "ep s' \<noteq> - 1" using s' server_inv_ep [OF inv] by simp
  next
    fix q d assume "heap s' q = Some d"
    then show "q < next_addr s' \<and> conn_fd d \<in> open_fds s'"
      using server_invD(1,2) [OF inv] at s' same by (auto split: if_splits)
  next
    fix q d flags assume "heap s' q = Some d" "epoll_set s' (conn_fd d) = Some (q, flags)"
    then show "role d flags"
      using server_invD(3) [OF inv] at s' same by (auto split: if_splits)
  next
    fix p q a b assume "heap s' p = Some a" "heap s' q = Some b" "conn_fd a = conn_fd b"
    then show "p = q"
      using server_inv_fd_unique [OF inv] at s' same by (metis fun_upd_apply option.inject)
  next
    fix fd q flags assume "epoll_set s' fd = Some (q, flags)"
    then show "\<exists>d. heap s' q = Some d \<and> conn_fd d = fd"
      using server_invD_epoll [OF inv] server_inv_registered [OF inv at] s' same by fastforce
  qed
  moreover have "keeps_others ptr s s'" using s' other by (auto simp: keeps_others_def)
  ultimately show ?thesis by simp
qed

lemma apply_arms:
  assumes inv: "server_inv s" and at: "heap s ptr = Some c" and "arms c (c', calls)"
  defines "s' \<equiv> fold (exec_call ptr) calls (s\<lparr>heap := (heap s)(ptr \<mapsto> c')\<rparr>)"
  shows "server_inv s' \<and> keeps_others ptr s s'"
proof -
  have c': "conn_fd c' = conn_fd c" "role c' [EPOLLOUT, EPOLLERR]"
    using assms(3) by (simp_all add: arms_def role_def)
  have s': "heap s' = (heap s)(ptr \<mapsto> c')" "open_fds s' = open_fds s" "next_addr s' = next_addr s"
    "ep s' = ep s" "wire s' = wire s"
    "epoll_set s' = (if epoll_set s (conn_fd c) = None then epoll_set s
       else (epoll_set s)(conn_fd c \<mapsto> (ptr, [EPOLLOUT, EPOLLERR])))"
    using assms(3) by (auto simp: s'_def arms_def epoll_mod_event_def split: option.splits)
  note other = other_fd [OF inv at]
  have "server_inv s'"
  proof (rule server_invI)
    show "ep s' \<noteq> - 1" using s' server_inv_ep [OF inv] by simp
  next
    fix q d assume "heap s' q = Some d"
    then show "q < next_addr s' \<and> conn_fd d \<in> open_fds s'"
      using server_invD(1,2) [OF inv] at c' s' by (auto split: if_splits)
  next
    fix q d flags assume "heap s' q = Some d" "epoll_set s' (conn_fd d) = Some (q, flags)"
    then show "role d flags"
      using server_invD(3) [OF inv] at c' s' other by (auto split: if_splits)
  next
    fix p q a b assume "heap s' p = Some a" "heap s' q = Some b" "conn_fd a = conn_fd b"
    then show "p = q"
      using server_inv_fd_unique [OF inv] at s' c' by (metis fun_upd_apply option.inject)
  next
    fix fd q flags assume "epoll_set s' fd = Some (q, flags)"
    then show "\<exists>d. heap s' q = Some d \<and> conn_fd d = fd"
      using server_invD_epoll [OF inv, of fd q flags] server_inv_registered [OF inv at, of fd flags] c' s'
      by (auto split: if_splits)
  qed
  moreover have "keeps_others ptr s s'"
    using s' other by (auto simp: keeps_others_def intro: sent_on_same)
  ultimately show ?thesis by simp
qed

lemma apply_closes:
  assumes inv: "server_inv s" and at: "heap s ptr = Some c" and "closes c (c', calls)"
  defines "s' \<equiv> fold (exec_call ptr) calls (s\<lparr>heap := (heap s)(ptr \<mapsto> c')\<rparr>)"
  shows "server_inv s' \<and> keeps_others ptr s s'"
proof -
  obtain sends where calls: "calls = sends @ close_calls c" "\<forall>k \<in> set sends. is_send (conn_fd c) k"
    using assms(3) by (auto simp: closes_def)
  have s': "heap s' = (heap s)(ptr := None)" "open_fds s' = open_fds s - {conn_fd c}"
    "next_addr s' = next_addr s" "ep s' = ep s" "epoll_set s' = (epoll_set s)(conn_fd c := None)"
    "\<forall>fd. fd \<noteq> conn_fd c \<longrightarrow> sent_on fd s' = sent_on fd s"
    using exec_sends [OF calls(2), of ptr "s\<lparr>heap := (heap s)(ptr \<mapsto> c')\<rparr>"]
    by (simp_all add: s'_def calls(1) close_calls_def epoll_del_event_def)
  note other = other_fd [OF inv at]
  have "server_inv s'"
  proof (rule server_invI)
    show "ep s' \<noteq> - 1" using s' server_inv_ep [OF inv] by simp
  next
    fix q d assume "heap s' q = Some d"
    then have d: "heap s q = Some d" "q \<noteq> ptr" using s' by (auto split: if_splits)
    then show "q < next_addr s' \<and> conn_fd d \<in> open_fds s'"
      using server_invD(1,2) [OF inv d(1)] s' other [OF d] by simp
  next
    fix q d flags assume "heap s' q = Some d" "epoll_set s' (conn_fd d) = Some (q, flags)"
    then show "role d flags" using server_invD(3) [OF inv] s' by (auto split: if_splits)
  next
    fix p q a b assume "heap s' p = Some a" "heap s' q = Some b" "conn_fd a = conn_fd b"
    then show "p = q"
      using server_inv_fd_unique [OF inv, of p a q b] s' by (auto split: if_splits)
  next
    fix fd q flags assume "epoll_set s' fd = Some (q, flags)"
    then have reg: "epoll_set s fd = Some (q, flags)" "fd \<noteq> conn_fd c"
      using s' by (auto split: if_splits)
    then have "q \<noteq> ptr" using server_inv_registered [OF inv at] by blast
    then show "\<exists>d. heap s' q = Some d \<and> conn_fd d = fd"
      using server_invD_epoll [OF inv reg(1)] s' by simp
  qed
  moreover have "keeps_others ptr s s'"
    using s' other by (auto simp: keeps_others_def intro: sent_on_same)
  ultimately show ?thesis by simp
qed

definition safe_step :: "nat \<Rightarrow> server \<Rightarrow> server res \<Rightarrow> bool" where
  "safe_step ptr s r =
     (case r of Inl e \<Rightarrow> e \<noteq> Dangling | Inr s' \<Rightarrow> server_inv s' \<and> keeps_others ptr s s')"

lemma safe_step_simps [simp]:
  "safe_step ptr s (Inl e) \<longleftrightarrow> e \<noteq> Dangling"
  "safe_step ptr s (Inr s') \<longleftrightarrow> server_inv s' \<and> keeps_others ptr s s'"
  by (simp_all add: safe_step_def)

lemma keeps_others_refl [simp]: "keeps_others ptr s s"
  by (simp add: keeps_others_def)

lemma apply_result_safe:
  assumes "server_inv s" and "heap s ptr = Some c" and "handler_outcome c r"
  shows "safe_step ptr s (apply_result ptr r s)"
proof (cases r)
  case (Inl e)
  with assms(3) show ?thesis by (simp add: apply_result_def)
next
  case (Inr x)
  obtain c' calls where x: "x = (c', calls)" by (cases x)
  with assms(3) Inr consider "stays c (c', calls)" | "arms c (c', calls)" | "closes c (c', calls)"
    by auto
  then show ?thesis
    using apply_stays [OF assms(1,2)] apply_arms [OF assms(1,2)] apply_closes [OF assms(1,2)]
    by cases (simp_all add: apply_result_def Inr x)
qed

lemma initConnection_cases:
  "initConnection mc re we mb = Inl Null_deref \<or>
    (\<exists>c. initConnection mc re we mb = Inr c)"
  by (cases mc; cases mb) (simp_all add: initConnection_def Let_def)

text \<open>
  \<open>setnonblocking\<close> on a descriptor that is open, and what it does to a socket just made: of the flags
  that can be set only \<open>O_NONBLOCK\<close> is left.
\<close>

lemma setnonblocking_open:
  assumes "fd \<in> open_fds s"
  shows "snd (setnonblocking fd s) = s\<lparr>status_flags := (status_flags s)(fd :=
    (status_flags s fd AND NOT settable_flags) OR ((fd_flags s fd OR O_NONBLOCK) AND settable_flags))\<rparr>"
  using assms by (simp add: setnonblocking_def fcntl_getfd_def fcntl_setfl_def Let_def)

lemma settable_eval:
  "(O_RDWR AND NOT settable_flags) OR (O_NONBLOCK AND settable_flags) = O_RDWR OR O_NONBLOCK"
  by (simp add: O_RDWR_def O_NONBLOCK_def settable_flags_def)

lemma setnonblocking_keeps [simp]:
  "heap (snd (setnonblocking fd s)) = heap s" "epoll_set (snd (setnonblocking fd s)) = epoll_set s"
  "open_fds (snd (setnonblocking fd s)) = open_fds s"
  "next_addr (snd (setnonblocking fd s)) = next_addr s" "ep (snd (setnonblocking fd s)) = ep s"
  "wire (snd (setnonblocking fd s)) = wire s"
  by (simp_all add: setnonblocking_def fcntl_setfl_def Let_def)

text \<open>A new connection, up to the flags of its socket; \<open>ok\<close> says whether epoll took it.\<close>

definition accepted :: "bool \<Rightarrow> int \<Rightarrow> web_connection \<Rightarrow> server \<Rightarrow> server" where
  "accepted ok fd c s = s\<lparr>open_fds := insert fd (open_fds s), fd_flags := (fd_flags s)(fd := 0),
     status_flags := (status_flags s)(fd := O_RDWR OR O_NONBLOCK), next_addr := Suc (next_addr s),
     heap := (heap s)(next_addr s \<mapsto> c),
     epoll_set := (if ok then (epoll_set s)(fd \<mapsto> (next_addr s, [EPOLLIN, EPOLLERR, EPOLLET]))
       else epoll_set s)\<rparr>"

lemma accepted_simps [simp]:
  "open_fds (accepted ok fd c s) = insert fd (open_fds s)"
  "status_flags (accepted ok fd c s) = (status_flags s)(fd := O_RDWR OR O_NONBLOCK)"
  "next_addr (accepted ok fd c s) = Suc (next_addr s)" "ep (accepted ok fd c s) = ep s"
  "wire (accepted ok fd c s) = wire s"
  "heap (accepted ok fd c s) = (heap s)(next_addr s \<mapsto> c)"
  "epoll_set (accepted ok fd c s) =
    (if ok then (epoll_set s)(fd \<mapsto> (next_addr s, [EPOLLIN, EPOLLERR, EPOLLET])) else epoll_set s)"
  by (simp_all add: accepted_def)

lemma web_accept_accepted:
  assumes "new_fd (open_fds s) (io_accept io) = fd" and "fd \<noteq> - 1" and "epoll_set s fd = None"
    and "ep s \<noteq> - 1"
    and "initConnection (io_struct io) (io_read_event io) (io_write_event io) (io_buffer io) = Inr c"
    and "set_handler Read_request (read_event c) = Inr re"
  shows "web_accept io s =
    Inr (accepted (io_epoll_add io) fd (c\<lparr>conn_fd := fd, conn_state := READ, read_event := re\<rparr>) s)"
  using assms settable_eval
  by (simp add: web_accept_def Let_def add_socket_def epoll_add_event_def setnonblocking_open
      accepted_def)

lemma closed_unregistered: "server_inv s \<Longrightarrow> fd \<notin> open_fds s \<Longrightarrow> epoll_set s fd = None"
  using server_invD_epoll server_invD(2) by (cases "epoll_set s fd") fastforce+

lemma next_addr_free: "server_inv s \<Longrightarrow> heap s (next_addr s) = None"
  using server_invD(1) [of s "next_addr s"] by (cases "heap s (next_addr s)") auto

lemma accepted_safe:
  assumes inv: "server_inv s" and new: "fd \<notin> open_fds s" and c: "conn_fd c = fd"
    and role: "role c [EPOLLIN, EPOLLERR, EPOLLET]"
  shows "server_inv (accepted ok fd c s)" and "keeps_others ptr s (accepted ok fd c s)"
proof -
  let ?s = "accepted ok fd c s"
  note none = closed_unregistered [OF inv new] and free = next_addr_free [OF inv]
  have other: "conn_fd d \<noteq> fd" if "heap s q = Some d" for q d
    using server_invD(2) [OF inv that] new by blast
  show "server_inv ?s"
  proof (rule server_invI)
    show "ep ?s \<noteq> - 1" using server_inv_ep [OF inv] by simp
  next
    fix q d assume "heap ?s q = Some d"
    then show "q < next_addr ?s \<and> conn_fd d \<in> open_fds ?s"
      using server_invD(1,2) [OF inv, of q d] c by (auto split: if_splits)
  next
    fix q d flags assume "heap ?s q = Some d" "epoll_set ?s (conn_fd d) = Some (q, flags)"
    then show "role d flags"
      using server_invD(3) [OF inv, of q d] role other none c by (auto split: if_splits)
  next
    fix p q a b assume "heap ?s p = Some a" "heap ?s q = Some b" "conn_fd a = conn_fd b"
    then show "p = q"
      using server_inv_fd_unique [OF inv, of p a q b] other c by (auto split: if_splits)
  next
    fix fd' q flags assume "epoll_set ?s fd' = Some (q, flags)"
    then show "\<exists>d. heap ?s q = Some d \<and> conn_fd d = fd'"
      using server_invD_epoll [OF inv, of fd' q flags] free c by (auto split: if_splits)
  qed
  show "keeps_others ptr s ?s"
    using free other sent_on_same [of ?s s] by (auto simp: keeps_others_def)
qed

text \<open>What \<open>web_accept\<close> can do: nothing, fail for want of memory, or add a connection.\<close>

lemma web_accept_cases:
  assumes inv: "server_inv s"
  obtains (none) "web_accept io s = Inr s" | (fault) "web_accept io s = Inl Null_deref"
  | (new) fd c where "web_accept io s = Inr (accepted (io_epoll_add io) fd c s)" "fd \<notin> open_fds s"
      "conn_fd c = fd" "role c [EPOLLIN, EPOLLERR, EPOLLET]"
proof (cases "new_fd (open_fds s) (io_accept io) = - 1")
  case True
  with none show thesis by (simp add: web_accept_def Let_def)
next
  case False
  let ?fd = "new_fd (open_fds s) (io_accept io)"
  have closed: "?fd \<notin> open_fds s" using False by (auto simp: new_fd_def split: if_splits)
  consider (null) "initConnection (io_struct io) (io_read_event io) (io_write_event io)
      (io_buffer io) = Inl Null_deref"
    | (conn) c where "initConnection (io_struct io) (io_read_event io) (io_write_event io)
      (io_buffer io) = Inr c"
    using initConnection_cases by blast
  then show thesis
  proof cases
    case null
    with False fault show thesis by (simp add: web_accept_def Let_def)
  next
    case (conn c)
    show thesis
    proof (cases "set_handler Read_request (read_event c)")
      case (Inl e)
      with False conn fault show thesis by (auto simp: web_accept_def Let_def)
    next
      case (Inr re)
      let ?c = "c\<lparr>conn_fd := ?fd, conn_state := READ, read_event := re\<rparr>"
      have "role ?c [EPOLLIN, EPOLLERR, EPOLLET]" using Inr by (auto simp: role_def)
      moreover have "web_accept io s = Inr (accepted (io_epoll_add io) ?fd ?c s)"
        by (rule web_accept_accepted [OF refl False closed_unregistered [OF inv closed]
              server_inv_ep [OF inv] conn Inr])
      ultimately show thesis using closed by (intro new) auto
    qed
  qed
qed

lemma web_accept_safe:
  assumes inv: "server_inv s"
  shows "safe_step ptr s (web_accept io s)"
  using inv
proof (cases rule: web_accept_cases [where io = io])
  case (new fd c)
  with accepted_safe [OF inv new(2-4)] show ?thesis by simp
qed (use inv in simp_all)

subsection \<open>The loop\<close>

text \<open>An item of a batch still to be handled: its connection lives, its events are allowed.\<close>

definition pending :: "server \<Rightarrow> nat \<times> ev_flag list \<times> io \<Rightarrow> bool" where
  "pending s ev = (case ev of (ptr, evs, io) \<Rightarrow>
     \<exists>c flags. heap s ptr = Some c \<and> epoll_set s (conn_fd c) = Some (ptr, flags) \<and>
       set evs \<subseteq> insert EPOLLERR (set flags))"

lemma dispatch_safe:
  assumes inv: "server_inv s" and pend: "pending s (ptr, evs, io)"
  shows "safe_step ptr s (dispatch (ptr, evs, io) s)"
proof -
  from pend obtain c flags where c: "heap s ptr = Some c"
    and fl: "epoll_set s (conn_fd c) = Some (ptr, flags)" "set evs \<subseteq> insert EPOLLERR (set flags)"
    by (auto simp: pending_def)
  from server_invD(3) [OF inv c fl(1)] have role: "role c flags" .
  have run: "safe_step ptr s (run_handler h ptr io c s)" for h
    using web_accept_safe [OF inv] inv apply_result_safe [OF inv c read_request_outcome]
      apply_result_safe [OF inv c send_response_outcome]
    by (cases h) simp_all
  have "read_event c = Handler h \<Longrightarrow> safe_step ptr s (call_handler (read_event c) ptr io c s)" for h
    using run [of h] by (simp add: call_handler_def)
  moreover have "EPOLLOUT \<in> set evs \<Longrightarrow> write_event c = Handler Send_response"
    using role fl(2) by (auto simp: role_def)
  ultimately show ?thesis
    using role run [of Send_response] inv c
    by (auto simp: dispatch_def role_def call_handler_def)
qed

lemma pending_keeps:
  "pending s (q, evs, io) \<Longrightarrow> keeps_others ptr s s' \<Longrightarrow> q \<noteq> ptr \<Longrightarrow> pending s' (q, evs, io)"
  by (fastforce simp: pending_def keeps_others_def)

lemma pending_others:
  assumes "\<forall>x \<in> set (ev # evs). pending s x" and "distinct (map fst (ev # evs))"
    and "ev = (ptr, es, io)" and "keeps_others ptr s s'"
  shows "\<forall>x \<in> set evs. pending s' x"
proof
  fix x assume x: "x \<in> set evs"
  obtain q es' io' where q: "x = (q, es', io')" by (cases x)
  have "q \<noteq> ptr" using assms(2,3) x q by force
  with assms(1,4) x q show "pending s' x" using pending_keeps by auto
qed

lemma process_batch_safe:
  "server_inv s \<Longrightarrow> \<forall>ev \<in> set evs. pending s ev \<Longrightarrow> distinct (map fst evs) \<Longrightarrow>
    (case process_batch evs s of Inl e \<Rightarrow> e \<noteq> Dangling | Inr s' \<Rightarrow> server_inv s')"
proof (induction evs arbitrary: s)
  case (Cons ev evs)
  obtain ptr es io where ev: "ev = (ptr, es, io)" by (cases ev)
  have safe: "safe_step ptr s (dispatch ev s)"
    using dispatch_safe Cons.prems(1,2) ev by simp
  show ?case
  proof (cases "dispatch ev s")
    case (Inl e)
    with safe show ?thesis by simp
  next
    case (Inr s')
    with safe have s': "server_inv s'" "keeps_others ptr s s'" by auto
    with Cons.IH [OF s'(1) pending_others [OF Cons.prems(2,3) ev]] Cons.prems(3) Inr
    show ?thesis by simp
  qed
qed simp

lemma epoll_wait_pending:
  "server_inv s \<Longrightarrow> ev \<in> set (epoll_wait s rs) \<Longrightarrow> pending s ev"
proof (induction s rs rule: epoll_wait.induct)
  case (2 s fd evs io rs)
  then show ?case
    using server_invD_epoll [of s fd]
    by (fastforce simp: pending_def report_events_def split: option.splits)
qed simp

lemma epoll_wait_fd:
  "server_inv s \<Longrightarrow> (ptr, evs, io) \<in> set (epoll_wait s rs) \<Longrightarrow>
    \<exists>fd \<in> set (map fst rs). \<exists>flags. epoll_set s fd = Some (ptr, flags)"
proof (induction s rs rule: epoll_wait.induct)
  case (2 s fd evs' io' rs)
  show ?case
  proof (cases "epoll_set s fd")
    case None
    with 2 show ?thesis by auto
  next
    case (Some x)
    with 2 show ?thesis by (cases x) auto
  qed
qed simp

lemma epoll_wait_distinct:
  "server_inv s \<Longrightarrow> distinct (map fst rs) \<Longrightarrow> distinct (map fst (epoll_wait s rs))"
proof (induction s rs rule: epoll_wait.induct)
  case (2 s fd evs io rs)
  show ?case
  proof (cases "epoll_set s fd")
    case (Some x)
    obtain ptr flags where x: "x = (ptr, flags)" by (cases x)
    have "ptr \<noteq> q" if q: "(q, e, i) \<in> set (epoll_wait s rs)" for q e i
    proof
      assume "ptr = q"
      with epoll_wait_fd [OF \<open>server_inv s\<close> q] obtain fd' flags'
        where "fd' \<in> set (map fst rs)" "epoll_set s fd' = Some (ptr, flags')" by blast
      moreover obtain c where "heap s ptr = Some c"
        using server_invD_epoll [OF \<open>server_inv s\<close>, of fd] Some x by blast
      ultimately have "fd' = fd"
        using server_inv_registered [OF \<open>server_inv s\<close>] Some x by metis
      with \<open>fd' \<in> set (map fst rs)\<close> 2(4) show False by simp
    qed
    with 2 Some x show ?thesis by force
  qed (use 2 in simp)
qed simp

lemma events_safe:
  "server_inv s \<Longrightarrow> distinct (map fst rs) \<Longrightarrow>
    (case ngx_epoll_process_events rs s of Inl e \<Rightarrow> e \<noteq> Dangling | Inr s' \<Rightarrow> server_inv s')"
  unfolding ngx_epoll_process_events_def
  by (rule process_batch_safe) (auto intro: epoll_wait_pending epoll_wait_distinct)

lemma server_main_inv:
  assumes main: "server_main b io = Inr (Event_loop s)" and fd: "new_fd (b_fds b) (b_socket b) \<noteq> - 1"
    and ep: "ep s \<noteq> - 1"
  shows "server_inv s"
proof -
  let ?fd = "new_fd (b_fds b) (b_socket b)"
  obtain conn re where re: "set_handler Web_accept (read_event conn) = Inr re"
    and s: "heap s = (\<lambda>_. None)(0 \<mapsto> conn\<lparr>conn_fd := ?fd, read_event := re\<rparr>)" "next_addr s = 1"
      "epoll_set s = (if io_epoll_add io then (\<lambda>_. None)(?fd \<mapsto> (0, [EPOLLIN, EPOLLERR]))
         else (\<lambda>_. None))" "?fd \<in> open_fds s"
    using main fd ep
    by (auto simp: server_main_def bind_res_Inr_iff Let_def epoll_add_event_def add_socket_def
        epoll_init_event_def add_file_def split: if_splits)
  have "re = Handler Web_accept" using re by auto
  then show ?thesis
    using s ep by (auto simp: server_inv_def role_def split: if_splits)
qed

lemma server_reach_inv: "server_reach s \<Longrightarrow> server_inv s"
proof (induction rule: server_reach.induct)
  case (boot b io s)
  then show ?case by (rule server_main_inv)
next
  case (turn s rs s')
  with events_safe [OF turn.IH turn.hyps(2)] show ?case by simp
qed

subsection \<open>Properties\<close>

text \<open>
  C4: The event loop never uses a connection after it was freed, and never calls a handler that was
  not set. From every reachable state, whatever batch of events \<open>epoll_wait\<close> reports and whatever
  the clients send, no handler of the batch runs on a freed connection, although handlers of the
  batch free connections, and the only faults are the ones of the parser and of failed allocations.
\<close>
theorem server_no_dangling:
  assumes "server_reach s" and "distinct (map fst rs)"
  shows "ngx_epoll_process_events rs s \<noteq> Inl Dangling"
  using events_safe [OF server_reach_inv [OF assms(1)] assms(2)] by (auto split: sum.splits)

subsection \<open>Witnesses\<close>

definition demo_io :: io where
  "demo_io = \<lparr>io_accept = 5, io_struct = Some (zero_conn []), io_read_event = True,
     io_write_event = True, io_buffer = Some [], io_epoll_add = True, io_realloc = (\<lambda>_. None),
     io_arrivals = map Bytes [''GET / HT'', ''TP/1.1'' @ [CR, LF, CR, LF]],
     io_send1 = 200, io_send2 = 12\<rparr>"

definition demo_start :: boot_io where
  "demo_start = \<lparr>b_fds = {0, 1, 2}, b_fd_flags = (\<lambda>_. 0), b_status = (\<lambda>_. O_RDWR), b_socket = 3,
     b_epoll = 4, b_open = - 1, b_fork = 0\<rparr>"

lemma demo_boot:
  "\<exists>s. server_main demo_start demo_io = Inr (Event_loop s) \<and> server_reach s \<and>
    epoll_set s 3 = Some (0, [EPOLLIN, EPOLLERR]) \<and> open_fds s = {0, 1, 2, 3, 4} \<and> wire s = [] \<and>
    next_addr s = 1"
proof -
  have "\<exists>s. server_main demo_start demo_io = Inr (Event_loop s) \<and> ep s \<noteq> - 1 \<and>
    epoll_set s 3 = Some (0, [EPOLLIN, EPOLLERR]) \<and> open_fds s = {0, 1, 2, 3, 4} \<and> wire s = [] \<and>
    next_addr s = 1"
    by (simp add: server_main_def demo_io_def demo_start_def initConnection_def set_handler_def
        epoll_add_event_def new_fd_def add_socket_def add_file_def epoll_init_event_def Let_def)
      auto
  moreover have "new_fd (b_fds demo_start) (b_socket demo_start) \<noteq> - 1"
    by (simp add: demo_start_def new_fd_def)
  ultimately show ?thesis using boot by blast
qed

theorem server_no_dangling_witness:
  "\<exists>s. server_reach s \<and> epoll_set s 3 \<noteq> None \<and>
    ngx_epoll_process_events [(3, [EPOLLIN], demo_io), (4, [EPOLLOUT], demo_io)] s \<noteq> Inl Dangling"
  using demo_boot server_no_dangling [of _ "[(3, [EPOLLIN], demo_io), (4, [EPOLLOUT], demo_io)]"]
  by auto

end
