(* ===== verification/Loop_Invariants.thy ===== *)
theory Loop_Invariants
  imports Server_Safety
begin

section \<open>Invariants of the event loop\<close>

text \<open>
  Two interfaces for invariants of the running server. What \<open>main\<close> establishes and the three
  handlers that do anything keep, when the kernel and the clients do what \<open>env\<close> says, holds in every
  state that such a run reaches (\<open>loop_invariant\<close>). For a statement about each connection on its own
  it is enough that the writes of the handlers to a connection keep it (\<open>connection_invariant\<close>).
\<close>

subsection \<open>Runs in an environment\<close>

definition reports_satisfy :: "(io \<Rightarrow> bool) \<Rightarrow> report list \<Rightarrow> bool" where
  "reports_satisfy env rs \<longleftrightarrow> distinct (map fst rs) \<and> (\<forall>(fd, evs, io) \<in> set rs. env io)"

text \<open>
  The server has started, with a listening socket and an epoll object, and any number of turns of the
  loop have returned; every call of the kernel and every client was as \<open>env\<close> says.
\<close>

definition server_run :: "(io \<Rightarrow> bool) \<Rightarrow> server \<Rightarrow> bool" where
  "server_run env s \<longleftrightarrow> (\<exists>b io s0 rss. server_main b io = Inr (Event_loop s0) \<and>
     new_fd (b_fds b) (b_socket b) \<noteq> - 1 \<and> ep s0 \<noteq> - 1 \<and> env io \<and>
     (\<forall>rs \<in> set rss. reports_satisfy env rs) \<and> event_loop rss s0 = Inr s)"

lemma event_loop_append:
  "event_loop (rss @ rss') s = bind_res (event_loop rss s) (event_loop rss')"
  by (induction rss arbitrary: s) (auto simp: bind_res_def split: sum.split)

lemma event_loop_reach:
  "event_loop rss s = Inr s' \<Longrightarrow> \<forall>rs \<in> set rss. reports_satisfy env rs \<Longrightarrow> server_reach s \<Longrightarrow>
    server_reach s'"
proof (induction rss arbitrary: s)
  case (Cons rs rss)
  then obtain s1 where s1: "ngx_epoll_process_events rs s = Inr s1" "event_loop rss s1 = Inr s'"
    by (auto simp: bind_res_Inr_iff)
  have "server_reach s1"
    using server_reach.turn [OF Cons.prems(3) _ s1(1)] Cons.prems(2) by (simp add: reports_satisfy_def)
  with Cons.IH s1(2) Cons.prems(2) show ?case by simp
qed simp

lemma server_run_reach: "server_run env s \<Longrightarrow> server_reach s"
  unfolding server_run_def using event_loop_reach server_reach.boot by blast

lemma server_reach_run: "server_reach s \<longleftrightarrow> server_run (\<lambda>_. True) s"
proof
  show "server_reach s \<Longrightarrow> server_run (\<lambda>_. True) s"
  proof (induction rule: server_reach.induct)
    case (boot b io s)
    then show ?case unfolding server_run_def by (metis empty_iff event_loop.simps(1) list.set(1))
  next
    case (turn s rs s')
    from turn.IH obtain b io s0 rss where run: "server_main b io = Inr (Event_loop s0)"
      "new_fd (b_fds b) (b_socket b) \<noteq> - 1" "ep s0 \<noteq> - 1"
      "\<forall>rs \<in> set rss. reports_satisfy (\<lambda>_. True) rs" "event_loop rss s0 = Inr s"
      unfolding server_run_def by blast
    have "event_loop (rss @ [rs]) s0 = Inr s'"
      using run(5) turn.hyps(3) by (simp add: event_loop_append)
    moreover have "\<forall>r \<in> set (rss @ [rs]). reports_satisfy (\<lambda>_. True) r"
      using run(4) turn.hyps(2) by (auto simp: reports_satisfy_def)
    ultimately show ?case unfolding server_run_def using run(1-3) by blast
  qed
qed (rule server_run_reach)

lemma epoll_wait_io: "(ptr, es, io) \<in> set (epoll_wait s rs) \<Longrightarrow> io \<in> (\<lambda>(fd, evs, io). io) ` set rs"
proof (induction s rs rule: epoll_wait.induct)
  case (2 s fd evs io' rs)
  show ?case
  proof (cases "epoll_set s fd")
    case (Some x)
    with 2 show ?thesis by (cases x) auto
  qed (use 2 in auto)
qed simp

subsection \<open>Invariants of the state\<close>

locale loop_invariant =
  fixes env :: "io \<Rightarrow> bool" and I :: "server \<Rightarrow> bool"
  assumes boot: "server_main b io = Inr (Event_loop s) \<Longrightarrow> new_fd (b_fds b) (b_socket b) \<noteq> - 1 \<Longrightarrow>
      ep s \<noteq> - 1 \<Longrightarrow> env io \<Longrightarrow> I s"
    and accept: "web_accept io s = Inr s' \<Longrightarrow> env io \<Longrightarrow> I s \<Longrightarrow> I s'"
    and read: "heap s ptr = Some c \<Longrightarrow>
      apply_result ptr (read_request (io_realloc io) (io_arrivals io) c) s = Inr s' \<Longrightarrow>
      env io \<Longrightarrow> I s \<Longrightarrow> I s'"
    and send: "heap s ptr = Some c \<Longrightarrow>
      apply_result ptr (send_response (io_send1 io) (io_send2 io) c) s = Inr s' \<Longrightarrow>
      env io \<Longrightarrow> I s \<Longrightarrow> I s'"
begin

lemma handler_keeps:
  "run_handler h ptr io c s = Inr s' \<Longrightarrow> heap s ptr = Some c \<Longrightarrow> env io \<Longrightarrow> I s \<Longrightarrow> I s'"
  by (cases h) (auto intro: accept read send)

lemma dispatch_keeps: "dispatch (ptr, evs, io) s = Inr s' \<Longrightarrow> env io \<Longrightarrow> I s \<Longrightarrow> I s'"
  by (auto simp: dispatch_def call_handler_def intro: handler_keeps
      split: option.splits if_splits web_event.splits)

lemma batch_keeps:
  "process_batch evs s = Inr s' \<Longrightarrow> \<forall>(ptr, es, io) \<in> set evs. env io \<Longrightarrow> I s \<Longrightarrow> I s'"
  by (induction evs arbitrary: s) (auto simp: bind_res_Inr_iff dest: dispatch_keeps)

lemma turn_keeps:
  assumes "ngx_epoll_process_events rs s = Inr s'" and "reports_satisfy env rs" and "I s"
  shows "I s'"
proof (rule batch_keeps)
  show "process_batch (epoll_wait s rs) s = Inr s'"
    using assms(1) by (simp add: ngx_epoll_process_events_def)
  show "\<forall>(ptr, es, io) \<in> set (epoll_wait s rs). env io"
    using assms(2) by (auto simp: reports_satisfy_def dest!: epoll_wait_io)
qed (rule assms(3))

lemma loop_keeps:
  "event_loop rss s = Inr s' \<Longrightarrow> \<forall>rs \<in> set rss. reports_satisfy env rs \<Longrightarrow> I s \<Longrightarrow> I s'"
  by (induction rss arbitrary: s) (auto simp: bind_res_Inr_iff dest: turn_keeps)

lemma run_keeps: "server_run env s \<Longrightarrow> I s"
  unfolding server_run_def
  using loop_keeps loop_invariant.boot [OF loop_invariant_axioms] by blast

end

subsection \<open>One connection at a time\<close>

definition for_all_connections :: "(web_connection \<Rightarrow> bool) \<Rightarrow> server \<Rightarrow> bool" where
  "for_all_connections P s \<longleftrightarrow> (\<forall>ptr c. heap s ptr = Some c \<longrightarrow> P c)"

lemma for_all_connectionsD: "for_all_connections P s \<Longrightarrow> heap s ptr = Some c \<Longrightarrow> P c"
  by (simp add: for_all_connections_def)

text \<open>System calls take connections away and change none.\<close>

lemma exec_call_heap: "heap (exec_call ptr k s) q = Some c \<Longrightarrow> heap s q = Some c"
  by (cases k)
    (auto simp: epoll_add_event_def epoll_mod_event_def epoll_del_event_def
      split: option.splits if_splits)

lemma exec_calls_heap:
  "heap (fold (exec_call ptr) calls s) q = Some c \<Longrightarrow> heap s q = Some c"
  by (induction calls arbitrary: s) (auto dest: exec_call_heap)

lemma apply_result_for_all:
  assumes "apply_result ptr r s = Inr s'" and "for_all_connections P s"
    and "\<And>c' calls. r = Inr (c', calls) \<Longrightarrow> P c'"
  shows "for_all_connections P s'"
proof -
  obtain c' calls where r: "r = Inr (c', calls)"
    and s': "s' = fold (exec_call ptr) calls (s\<lparr>heap := (heap s)(ptr \<mapsto> c')\<rparr>)"
    using assms(1) by (auto simp: apply_result_def bind_res_Inr_iff)
  with assms(2) assms(3) [OF r] show ?thesis
    unfolding s' for_all_connections_def by (auto dest!: exec_calls_heap split: if_splits)
qed

locale connection_invariant = reader_relation "\<lambda>c d. P c \<longrightarrow> P d" byte_ok
  for P :: "web_connection \<Rightarrow> bool" and byte_ok +
  assumes new: "initConnection mc mr mw mb = Inr c \<Longrightarrow> P c"
    and attached: "P c \<Longrightarrow> P (c\<lparr>conn_fd := fd, conn_state := st, read_event := re\<rparr>)"
    and armed: "P c \<Longrightarrow> P (c\<lparr>query_start_index := 0, query_end_index := 0, conn_state := st,
      write_event := we, read_event := re\<rparr>)"
begin

lemma body_keeps: "process_body c = Inr (d, calls) \<Longrightarrow> P c \<Longrightarrow> P d"
  by (auto simp: process_body_def bind_res_Inr_iff intro: armed)

lemma read_keeps:
  "read_request mem as c = Inr (d, calls) \<Longrightarrow> arrivals_ok byte_ok as \<Longrightarrow> P c \<Longrightarrow> P d"
  using request_ends [of as c mem] by (auto simp: read_ends_def parse_ends_def dest: body_keeps [OF sym])

lemma send_keeps: "send_response r1 r2 c = Inr (d, calls) \<Longrightarrow> P c \<Longrightarrow> P d"
  by (auto simp: send_response_def Let_def split: if_splits)

end

sublocale connection_invariant \<subseteq> every_connection: loop_invariant
  "\<lambda>io. arrivals_ok byte_ok (io_arrivals io)" "for_all_connections P"
proof
  fix b io s assume main: "server_main b io = Inr (Event_loop s)"
  have "P (c\<lparr>conn_fd := fd, read_event := re\<rparr>)" if "P c" for c fd re
    using attached [OF that, where fd = fd and st = "conn_state c" and re = re] by simp
  with main show "for_all_connections P s"
    by (auto simp: server_main_def bind_res_Inr_iff for_all_connections_def epoll_add_event_def
        add_socket_def add_file_def epoll_init_event_def Let_def dest!: new split: if_splits)
next
  fix io s s' assume "web_accept io s = Inr s'" and "for_all_connections P s"
  then show "for_all_connections P s'"
    unfolding web_accept_def Let_def
    by (auto simp: bind_res_Inr_iff for_all_connections_def epoll_add_event_def
        dest!: new intro: attached split: if_splits option.splits)
next
  fix s ptr c io s'
  assume "heap s ptr = Some c" "apply_result ptr (read_request (io_realloc io) (io_arrivals io) c) s = Inr s'"
    "arrivals_ok byte_ok (io_arrivals io)" "for_all_connections P s"
  then show "for_all_connections P s'"
    by (auto elim!: apply_result_for_all intro: read_keeps for_all_connectionsD)
next
  fix s ptr c io s'
  assume "heap s ptr = Some c"
    "apply_result ptr (send_response (io_send1 io) (io_send2 io) c) s = Inr s'"
    "for_all_connections P s"
  then show "for_all_connections P s'"
    by (auto elim!: apply_result_for_all intro: send_keeps for_all_connectionsD)
qed

end
