(* ===== verification/Server_Isolation.thy ===== *)
theory Server_Isolation
  imports Server_Safety
begin

section \<open>Isolation of the connections\<close>

text \<open>
  One thread serves all connections, but a turn of the loop touches only the connections that it
  reports: for any other one its memory, its registration and what was sent on it stay the same.
  \<open>meanwhile fd\<close> are any number of turns that do not report \<open>fd\<close>, whatever they do for other clients.
\<close>

definition untouched :: "nat \<Rightarrow> web_connection \<Rightarrow> server \<Rightarrow> server \<Rightarrow> bool" where
  "untouched ptr c s s' \<longleftrightarrow> heap s' ptr = Some c \<and>
     epoll_set s' (conn_fd c) = epoll_set s (conn_fd c) \<and> sent_on (conn_fd c) s' = sent_on (conn_fd c) s"

lemma process_batch_others:
  "server_inv s \<Longrightarrow> \<forall>ev \<in> set evs. pending s ev \<Longrightarrow> distinct (map fst evs) \<Longrightarrow>
    ptr \<notin> set (map fst evs) \<Longrightarrow> process_batch evs s = Inr s' \<Longrightarrow>
    heap s ptr = Some c \<Longrightarrow> untouched ptr c s s'"
proof (induction evs arbitrary: s)
  case (Cons ev evs)
  obtain q es io where ev: "ev = (q, es, io)" by (cases ev)
  from Cons.prems(5) obtain s1 where s1: "dispatch ev s = Inr s1" "process_batch evs s1 = Inr s'"
    by (auto simp: bind_res_Inr_iff)
  have safe: "server_inv s1" "keeps_others q s s1"
    using dispatch_safe [OF Cons.prems(1), of q es io] Cons.prems(2) s1(1) ev by simp_all
  note pend = pending_others [OF Cons.prems(2,3) ev safe(2)]
  have "q \<noteq> ptr" using Cons.prems(4) ev by auto
  then have here: "untouched ptr c s s1"
    using safe(2) Cons.prems(6) by (auto simp: keeps_others_def untouched_def)
  then have "untouched ptr c s1 s'"
    using Cons.IH [OF safe(1) pend _ _ s1(2)] Cons.prems(3,4) by (auto simp: untouched_def)
  with here show ?case by (auto simp: untouched_def)
qed (simp add: untouched_def)

lemma turn_unreported:
  assumes inv: "server_inv s" and "heap s ptr = Some c" and dist: "distinct (map fst rs)"
    and "ptr \<notin> set (map fst (epoll_wait s rs))" and turn: "ngx_epoll_process_events rs s = Inr s'"
  shows "untouched ptr c s s'" and "server_inv s'"
proof -
  from assms(2,4) turn show "untouched ptr c s s'"
    by (intro process_batch_others [OF inv _ epoll_wait_distinct [OF inv dist]])
      (auto simp: ngx_epoll_process_events_def intro: epoll_wait_pending [OF inv])
  show "server_inv s'" using events_safe [OF inv dist] turn by simp
qed

lemma turn_others:
  assumes inv: "server_inv s" and c: "heap s ptr = Some c" and dist: "distinct (map fst rs)"
    and fd: "conn_fd c \<notin> set (map fst rs)" and turn: "ngx_epoll_process_events rs s = Inr s'"
  shows "untouched ptr c s s'" and "server_inv s'"
proof -
  have "ptr \<notin> set (map fst (epoll_wait s rs))"
  proof
    assume "ptr \<in> set (map fst (epoll_wait s rs))"
    then obtain evs io where "(ptr, evs, io) \<in> set (epoll_wait s rs)" by auto
    from epoll_wait_fd [OF inv this] obtain fd' flags
      where "fd' \<in> set (map fst rs)" "epoll_set s fd' = Some (ptr, flags)" by blast
    with fd server_inv_registered [OF inv c] show False by metis
  qed
  from turn_unreported [OF inv c dist this turn] show "untouched ptr c s s'" "server_inv s'" .
qed

text \<open>A connection that is not registered is never reported, so nothing ever happens to it.\<close>

lemma unregistered_unreported:
  assumes "server_inv s" and "heap s ptr = Some c" and "epoll_set s (conn_fd c) = None"
  shows "ptr \<notin> set (map fst (epoll_wait s rs))"
proof
  assume "ptr \<in> set (map fst (epoll_wait s rs))"
  then obtain evs io where "(ptr, evs, io) \<in> set (epoll_wait s rs)" by auto
  from epoll_wait_pending [OF assms(1) this] assms(2,3) show False by (simp add: pending_def)
qed

lemma unregistered_stays:
  "event_loop rss s = Inr s' \<Longrightarrow> \<forall>rs \<in> set rss. distinct (map fst rs) \<Longrightarrow> server_inv s \<Longrightarrow>
    heap s ptr = Some c \<Longrightarrow> epoll_set s (conn_fd c) = None \<Longrightarrow>
    heap s' ptr = Some c \<and> epoll_set s' (conn_fd c) = None \<and> conn_fd c \<in> open_fds s'"
proof (induction rss arbitrary: s)
  case Nil
  then show ?case using server_invD(2) by auto
next
  case (Cons rs rss)
  then obtain s1 where s1: "ngx_epoll_process_events rs s = Inr s1" "event_loop rss s1 = Inr s'"
    by (auto simp: bind_res_Inr_iff)
  note c = Cons.prems(4,5)
  have "untouched ptr c s s1" "server_inv s1"
    using turn_unreported [OF Cons.prems(3) c(1) _ unregistered_unreported [OF Cons.prems(3) c] s1(1)]
      Cons.prems(2) by simp_all
  with Cons.IH [OF s1(2)] Cons.prems(2) c(2) show ?case by (simp add: untouched_def)
qed

inductive meanwhile :: "int \<Rightarrow> server \<Rightarrow> server \<Rightarrow> bool" for fd s where
  none: "meanwhile fd s s"
| other: "meanwhile fd s s1 \<Longrightarrow> distinct (map fst rs) \<Longrightarrow> fd \<notin> set (map fst rs) \<Longrightarrow>
    ngx_epoll_process_events rs s1 = Inr s2 \<Longrightarrow> meanwhile fd s s2"

lemma meanwhile_untouched:
  "meanwhile (conn_fd c) s s' \<Longrightarrow> server_inv s \<Longrightarrow> heap s ptr = Some c \<Longrightarrow>
    untouched ptr c s s' \<and> server_inv s'"
proof (induction rule: meanwhile.induct)
  case (other s1 rs s2)
  then have s1: "untouched ptr c s s1" "server_inv s1" "heap s1 ptr = Some c"
    by (auto simp: untouched_def)
  from turn_others [OF s1(2,3) other.hyps(2,3,4)] s1(1) show ?case by (auto simp: untouched_def)
qed (simp add: untouched_def)

end
