(* ===== verification/Server_Registration.thy ===== *)
theory Server_Registration
  imports Loop_Invariants Server_Isolation
begin

section \<open>Connections and registrations\<close>

text \<open>
  Which connections the event loop can still reach. \<open>epoll_add_event\<close> drops the result of
  \<open>EPOLL_CTL_ADD\<close>, so a connection that epoll does not take is allocated and open, but no event will
  ever lead to it.
\<close>

definition all_registered :: "server \<Rightarrow> bool" where
  "all_registered s \<longleftrightarrow> server_inv s \<and>
     (\<forall>ptr c. heap s ptr = Some c \<longrightarrow> (\<exists>flags. epoll_set s (conn_fd c) = Some (ptr, flags)))"

lemma all_registeredI:
  assumes "server_inv s"
    and "\<And>ptr c. heap s ptr = Some c \<Longrightarrow> \<exists>flags. epoll_set s (conn_fd c) = Some (ptr, flags)"
  shows "all_registered s"
  using assms unfolding all_registered_def by blast

text \<open>A handler of a registered connection keeps it registered, or removes it altogether.\<close>

lemma apply_result_registered:
  assumes all: "all_registered s" and at: "heap s ptr = Some c" and out: "handler_outcome c r"
    and res: "apply_result ptr r s = Inr s'"
  shows "all_registered s'"
proof -
  have inv: "server_inv s" using all by (simp add: all_registered_def)
  have safe: "server_inv s'" "keeps_others ptr s s'"
    using apply_result_safe [OF inv at out] res by simp_all
  obtain c' calls where r: "r = Inr (c', calls)"
    and s': "s' = fold (exec_call ptr) calls (s\<lparr>heap := (heap s)(ptr \<mapsto> c')\<rparr>)"
    using res by (auto simp: apply_result_def bind_res_Inr_iff)
  from all at obtain fl where fl: "epoll_set s (conn_fd c) = Some (ptr, fl)"
    by (auto simp: all_registered_def)
  consider "stays c (c', calls)" | "arms c (c', calls)" | "closes c (c', calls)" using out r by auto
  then have here: "\<exists>flags. epoll_set s' (conn_fd d) = Some (ptr, flags)" if "heap s' ptr = Some d" for d
  proof cases
    case 1
    with that fl exec_sends [of calls "conn_fd c" ptr "s\<lparr>heap := (heap s)(ptr \<mapsto> c')\<rparr>"] show ?thesis
      by (auto simp: s' stays_def same_conn_def)
  next
    case 2
    with that fl show ?thesis by (auto simp: s' arms_def epoll_mod_event_def)
  next
    case 3
    with that show ?thesis by (auto simp: s' closes_def close_calls_def epoll_del_event_def)
  qed
  have "\<exists>flags. epoll_set s' (conn_fd d) = Some (q, flags)" if q: "heap s' q = Some d" "q \<noteq> ptr" for q d
  proof -
    have "heap s q = Some d" using q s' by (auto dest!: exec_calls_heap)
    with all safe(2) q(2) show ?thesis by (auto simp: all_registered_def keeps_others_def)
  qed
  with here safe(1) show ?thesis by (intro all_registeredI) blast+
qed

lemma web_accept_registered:
  assumes res: "web_accept io s = Inr s'" and ok: "io_epoll_add io" and all: "all_registered s"
  shows "all_registered s'"
proof -
  have inv: "server_inv s" using all by (simp add: all_registered_def)
  then show ?thesis
  proof (cases rule: web_accept_cases [where io = io])
    case (new fd c)
    with res ok have s': "s' = accepted True fd c s" by simp
    have "conn_fd d \<noteq> fd" if "heap s q = Some d" for q d
      using server_invD(2) [OF inv that] new(2) by blast
    with new(3) all have "\<exists>flags. epoll_set s' (conn_fd d) = Some (q, flags)" if "heap s' q = Some d" for q d
      using that by (auto simp: s' all_registered_def split: if_splits)
    with accepted_safe(1) [OF inv new(2-4)] show ?thesis unfolding s' by (intro all_registeredI)
  qed (use res all in auto)
qed

lemma server_main_registered:
  assumes "server_main b io = Inr (Event_loop s)" and "new_fd (b_fds b) (b_socket b) \<noteq> - 1"
    and "ep s \<noteq> - 1" and "io_epoll_add io"
  shows "all_registered s"
proof (rule all_registeredI)
  show "server_inv s" using assms(1-3) by (rule server_main_inv)
  show "heap s ptr = Some c \<Longrightarrow> \<exists>flags. epoll_set s (conn_fd c) = Some (ptr, flags)" for ptr c
    using assms
    by (auto simp: server_main_def bind_res_Inr_iff Let_def epoll_add_event_def add_socket_def
        epoll_init_event_def add_file_def split: if_splits)
qed

interpretation registered: loop_invariant io_epoll_add all_registered
  by unfold_locales (auto intro: server_main_registered web_accept_registered
      apply_result_registered read_request_outcome send_response_outcome)

subsection \<open>Property\<close>

text \<open>
  C5: Registrations and connections. In every reachable state each registration leads to an allocated
  connection with that descriptor, open; each allocated connection has an open descriptor that no
  other connection has, registered for nobody else. As long as \<open>EPOLL_CTL_ADD\<close> has never failed every
  connection is registered, so the server can still reach, and close, all that it holds. But
  \<open>EPOLL_CTL_ADD\<close> can fail, and its result is dropped: a connection that is not registered stays
  allocated, open and unregistered through every further run of the loop, a leak of memory and of a
  descriptor, and its client waits for ever.
\<close>
theorem server_connections_registered:
  assumes "server_reach s"
  shows "(epoll_set s fd = Some (ptr, flags) \<longrightarrow>
      fd \<in> open_fds s \<and> (\<exists>c. heap s ptr = Some c \<and> conn_fd c = fd)) \<and>
    (heap s ptr = Some c \<longrightarrow> conn_fd c \<in> open_fds s \<and>
      (\<forall>q fl. epoll_set s (conn_fd c) = Some (q, fl) \<longrightarrow> q = ptr) \<and>
      (\<forall>q d. heap s q = Some d \<and> conn_fd d = conn_fd c \<longrightarrow> q = ptr)) \<and>
    (server_run io_epoll_add s \<and> heap s ptr = Some c \<longrightarrow>
      (\<exists>fl. epoll_set s (conn_fd c) = Some (ptr, fl))) \<and>
    (heap s ptr = Some c \<and> epoll_set s (conn_fd c) = None \<and>
      (\<forall>rs \<in> set rss. distinct (map fst rs)) \<and> event_loop rss s = Inr s' \<longrightarrow>
      heap s' ptr = Some c \<and> epoll_set s' (conn_fd c) = None \<and> conn_fd c \<in> open_fds s')"
proof -
  note inv = server_reach_inv [OF assms]
  have "epoll_set s fd = Some (ptr, flags) \<longrightarrow>
      fd \<in> open_fds s \<and> (\<exists>c. heap s ptr = Some c \<and> conn_fd c = fd)"
    using server_invD_epoll [OF inv] server_invD(2) [OF inv] by blast
  moreover have "heap s ptr = Some c \<longrightarrow> conn_fd c \<in> open_fds s \<and>
      (\<forall>q fl. epoll_set s (conn_fd c) = Some (q, fl) \<longrightarrow> q = ptr) \<and>
      (\<forall>q d. heap s q = Some d \<and> conn_fd d = conn_fd c \<longrightarrow> q = ptr)"
    using server_invD(2) [OF inv] server_inv_own [OF inv] server_inv_fd_unique [OF inv] by blast
  moreover have "server_run io_epoll_add s \<and> heap s ptr = Some c \<longrightarrow>
      (\<exists>fl. epoll_set s (conn_fd c) = Some (ptr, fl))"
    using registered.run_keeps by (auto simp: all_registered_def)
  ultimately show ?thesis using unregistered_stays [OF _ _ inv] by blast
qed

theorem server_connections_registered_witness:
  "\<exists>s c. server_reach s \<and> heap s 1 = Some c \<and> conn_fd c = 5 \<and> epoll_set s 5 = None \<and>
    (\<exists>d. heap s 0 = Some d \<and> conn_fd d = 3) \<and>
    (\<forall>s'. event_loop [[(3, [EPOLLIN], demo_io\<lparr>io_accept := 6\<rparr>)]] s = Inr s' \<longrightarrow>
      heap s' 1 = Some c \<and> 5 \<in> open_fds s')"
proof -
  let ?io = "demo_io\<lparr>io_epoll_add := False\<rparr>"
  obtain s where s: "server_reach s" "epoll_set s 3 = Some (0, [EPOLLIN, EPOLLERR])"
    "open_fds s = {0, 1, 2, 3, 4}" "next_addr s = 1" using demo_boot by blast
  note inv = server_reach_inv [OF s(1)]
  obtain lc where lc: "heap s 0 = Some lc" "conn_fd lc = 3" using server_invD_epoll [OF inv s(2)] by blast
  have "read_event lc = Handler Web_accept" using server_invD(3) [OF inv lc(1)] lc(2) s(2) by (simp add: role_def)
  moreover obtain c0 where c0: "initConnection (io_struct ?io) (io_read_event ?io)
      (io_write_event ?io) (io_buffer ?io) = Inr c0" "read_event c0 = Unset_event"
    by (simp add: demo_io_def initConnection_def Let_def)
  moreover have none: "epoll_set s 5 = None" using closed_unregistered [OF inv, of 5] s(3) by simp
  moreover define c where "c = c0\<lparr>conn_fd := 5, conn_state := READ, read_event := Handler Read_request\<rparr>"
  moreover have "web_accept ?io s = Inr (accepted (io_epoll_add ?io) 5 c s)"
    unfolding c_def by (rule web_accept_accepted [OF _ _ none server_inv_ep [OF inv] c0(1)])
      (use s(3) c0(2) in \<open>simp_all add: demo_io_def new_fd_def set_handler_def\<close>)
  moreover from calculation have c: "conn_fd c = 5" by simp
  ultimately have turn: "ngx_epoll_process_events [(3, [EPOLLIN], ?io)] s = Inr (accepted False 5 c s)"
    using lc s(2)
    by (simp add: ngx_epoll_process_events_def dispatch_def call_handler_def report_events_def)
  have reach: "server_reach (accepted False 5 c s)" using server_reach.turn [OF s(1) _ turn] by simp
  have heap: "heap (accepted False 5 c s) 1 = Some c" "heap (accepted False 5 c s) 0 = Some lc"
    "epoll_set (accepted False 5 c s) (conn_fd c) = None"
    using s(4) lc(1) none c by simp_all
  let ?rss = "[[(3, [EPOLLIN], demo_io\<lparr>io_accept := 6\<rparr>)]]"
  have "\<forall>rs \<in> set ?rss. distinct (map fst rs)" by simp
  with heap server_connections_registered [OF reach, where ptr = 1 and c = c and rss = ?rss]
  have "heap s' 1 = Some c \<and> 5 \<in> open_fds s'"
    if "event_loop ?rss (accepted False 5 c s) = Inr s'" for s'
    using that c by metis
  with reach heap c lc(2) show ?thesis by metis
qed

end
