(* ===== verification/Server_Buffers.thy ===== *)
theory Server_Buffers
  imports Loop_Invariants
begin

section \<open>The buffers of the connections\<close>

text \<open>
  The bookkeeping of the input buffer. The new size of a buffer is counted from \<open>strlen\<close>, so the
  counts are right as long as the data hold no NUL; a client that sends one can make the server
  write outside the block (\<open>http_nul_overflow\<close>). For clients that send no NUL, the data and the free
  bytes that \<open>recv\<close> is told of lie inside the block in every state.
\<close>

definition nul_free :: "io \<Rightarrow> bool" where
  "nul_free io \<longleftrightarrow> arrivals_ok (\<lambda>b. b \<noteq> NUL) (io_arrivals io)"

definition buffer_ok :: "web_connection \<Rightarrow> bool" where
  "buffer_ok c = (case querybuf c of None \<Rightarrow> True | Some blk \<Rightarrow>
     length blk < 2 ^ 31 \<and> 0 \<le> query_end_index c \<and> 0 \<le> query_remain_len c \<and>
     query_end_index c + query_remain_len c \<le> int (length blk) \<and>
     NUL \<notin> set (take (nat (query_end_index c)) blk))"

text \<open>The same over natural numbers.\<close>

definition buffer_counts :: "string \<Rightarrow> nat \<Rightarrow> nat \<Rightarrow> web_connection \<Rightarrow> bool" where
  "buffer_counts blk e room c \<longleftrightarrow> querybuf c = Some blk \<and> query_end_index c = int e \<and>
     query_remain_len c = int room \<and> e + room \<le> length blk \<and> length blk < 2 ^ 31 \<and>
     NUL \<notin> set (take e blk)"

lemma buffer_ok_None: "querybuf c = None \<Longrightarrow> buffer_ok c"
  by (simp add: buffer_ok_def)

lemma buffer_counts_ok: "buffer_counts blk e room c \<Longrightarrow> buffer_ok c"
  by (auto simp: buffer_counts_def buffer_ok_def)

lemma buffer_okE:
  assumes "buffer_ok c" and "querybuf c = Some blk"
  obtains e room where "buffer_counts blk e room c"
proof
  show "buffer_counts blk (nat (query_end_index c)) (nat (query_remain_len c)) c"
    using assms by (auto simp: buffer_counts_def buffer_ok_def nat_add_distrib [symmetric])
qed

lemma buffer_counts_cap:
  assumes "buffer_counts blk e room c"
  shows "size_t_of_int (query_remain_len c) = room"
proof -
  have "room < 2 ^ 31" using assms by (auto simp: buffer_counts_def)
  then show ?thesis using assms size_t_of_int_of_nat by (simp add: buffer_counts_def)
qed

text \<open>A size that \<open>realloc\<close> can give is the size that was computed before it became an \<open>int\<close>.\<close>

lemma int_of_size_t_wrapped:
  assumes "m < 2 ^ 30"
  shows "int_of_size_t (2 ^ 31 + m) = int m - 2 ^ 31"
proof -
  have m: "int m < 2 ^ 30" using assms by (metis of_nat_less_iff of_nat_numeral of_nat_power)
  have "(int (2 ^ 31 + m) + 2 ^ 31) mod 2 ^ 32 = (int m + 2 ^ 32) mod 2 ^ 32" by simp
  also have "\<dots> = int m mod 2 ^ 32" by (rule mod_add_self2)
  also have "\<dots> = int m" using m by (intro mod_pos_pos_trivial) simp_all
  finally show ?thesis by (simp only: int_of_size_t_def)
qed

lemma realloc_wrapped:
  assumes "m < 2 ^ 30"
  shows "realloc (size_t_of_int (int_of_size_t (2 ^ 31 + m))) blk mem = None"
proof -
  have m: "int m < 2 ^ 30" using assms by (metis of_nat_less_iff of_nat_numeral of_nat_power)
  have "size_t_of_int (int m - 2 ^ 31) = nat (2 ^ 64 + (int m - 2 ^ 31))"
    using m by (intro size_t_of_int_neg) simp_all
  then have "PTRDIFF_MAX < size_t_of_int (int_of_size_t (2 ^ 31 + m))"
    unfolding int_of_size_t_wrapped [OF assms] by (simp add: PTRDIFF_MAX_def)
  then show ?thesis by (simp add: realloc_def)
qed

lemma realloc_size:
  assumes "realloc (size_t_of_int (int_of_size_t n)) blk mem = Some blk'" and "n < 2 ^ 31 + 2 ^ 30"
  shows "n < 2 ^ 31"
proof (rule ccontr)
  assume "\<not> n < 2 ^ 31"
  then obtain m where m: "n = 2 ^ 31 + m" by (metis le_add_diff_inverse not_less)
  with assms(2) have "m < 2 ^ 30" by (simp only: add_less_cancel_left)
  with realloc_wrapped assms(1) m show False by simp
qed

lemma enlarge_buffer_ok:
  assumes res: "try_to_enlarge_buffer mem c = Inr d" and ok: "buffer_ok c"
  shows "buffer_ok d"
proof (cases "query_remain_len c < REMAIN_BUFFER")
  case True
  with res obtain blk n where blk: "querybuf c = Some blk" "strlen blk = Inr n"
    and d: "d = c\<lparr>querybuf := realloc (size_t_of_int (int_of_size_t (n + 1024))) blk mem,
      query_remain_len := int_of_size_t (n + 1024) - query_end_index c\<rparr>"
    by (auto simp: try_to_enlarge_buffer_def bind_res_Inr_iff Let_def QUERY_INIT_LEN_def
        split: option.splits)
  obtain e room where c: "buffer_counts blk e room c" using buffer_okE [OF ok blk(1)] .
  show ?thesis
  proof (cases "realloc (size_t_of_int (int_of_size_t (n + 1024))) blk mem")
    case None
    with d show ?thesis by (intro buffer_ok_None) simp
  next
    case (Some blk')
    have n: "n < length blk" "e \<le> n"
      using strlen_Inr [OF blk(2)] strlen_behind [of "take e blk" "drop e blk" n] blk(2) c
      by (auto simp: buffer_counts_def)
    have "n < 2 ^ 31" using n(1) c by (auto simp: buffer_counts_def)
    then have "n + 1024 < 2 ^ 31 + 1024" by (simp only: add_less_cancel_right)
    also have "(2 :: nat) ^ 31 + 1024 \<le> 2 ^ 31 + 2 ^ 30" by simp
    finally have small: "n + 1024 < 2 ^ 31" by (rule realloc_size [OF Some])
    obtain g where "mem = Some g" using Some by (auto simp: realloc_def split: if_splits)
    with Some small have blk': "blk' = realloc_block (n + 1024) blk g"
      by (simp only: int_of_size_t_small size_t_of_int_of_nat realloc_some option.inject)
    have front: "take e blk' = take e blk"
      using n by (simp add: blk' realloc_block_def min_def)
    have "d = c\<lparr>querybuf := Some blk', query_remain_len := int (n + 1024) - query_end_index c\<rparr>"
      using d Some int_of_size_t_small [OF small] by (simp only:)
    then have "buffer_counts blk' e (n + 1024 - e) d"
      using c n(2) small front by (simp add: buffer_counts_def of_nat_diff) (simp add: blk')
    then show ?thesis by (rule buffer_counts_ok)
  qed
next
  case False
  with res ok show ?thesis by (simp add: try_to_enlarge_buffer_def)
qed

text \<open>What \<open>recv\<close> gives fits, and is written.\<close>

lemma received_fits:
  assumes "buffer_ok c" and "querybuf c = Some blk"
    and "length bs \<le> size_t_of_int (query_remain_len c)"
  shows "\<exists>blk'. write_block blk (nat (query_end_index c)) bs = Inr blk'"
proof -
  obtain e room where c: "buffer_counts blk e room c" using buffer_okE [OF assms(1,2)] .
  with assms(3) show ?thesis
    by (auto simp: buffer_counts_cap [OF c] buffer_counts_def write_block_def)
qed

lemma receive_buffer_ok:
  assumes ok: "buffer_ok c" and blk: "querybuf c = Some blk"
    and bs: "length bs \<le> size_t_of_int (query_remain_len c)" "\<forall>b \<in> set bs. b \<noteq> NUL"
    and wr: "write_block blk (nat (query_end_index c)) bs = Inr blk'"
  shows "buffer_ok (received blk' (length bs) c)"
proof -
  obtain e room where c: "buffer_counts blk e room c" using buffer_okE [OF ok blk] .
  have fits: "length bs \<le> room" "e + room \<le> length blk" "query_end_index c = int e"
    using bs(1) c by (simp_all add: buffer_counts_cap [OF c] buffer_counts_def)
  then have blk': "blk' = take e blk @ bs @ drop (e + length bs) blk"
    using wr by (auto simp: write_block_def split: if_splits)
  have front: "take (e + length bs) blk' = take e blk @ bs" using fits by (simp add: blk')
  have "NUL \<notin> set (take (e + length bs) blk')"
    unfolding front using c bs(2) by (auto simp: buffer_counts_def)
  then have "buffer_counts blk' (e + length bs) (room - length bs) (received blk' (length bs) c)"
    using c fits by (simp add: buffer_counts_def received_def of_nat_diff) (simp add: blk')
  then show ?thesis by (rule buffer_counts_ok)
qed

interpretation buffer: connection_invariant buffer_ok "\<lambda>b. b \<noteq> NUL"
proof
  show "try_to_enlarge_buffer mem c = Inr d \<Longrightarrow> buffer_ok c \<longrightarrow> buffer_ok d" for mem c d
    by (simp add: enlarge_buffer_ok)
  show "querybuf c = Some blk \<Longrightarrow> bs \<noteq> [] \<Longrightarrow> length bs \<le> size_t_of_int (query_remain_len c) \<Longrightarrow>
      \<forall>b \<in> set bs. b \<noteq> NUL \<Longrightarrow> write_block blk (nat (query_end_index c)) bs = Inr blk' \<Longrightarrow>
      buffer_ok c \<longrightarrow> buffer_ok (received blk' (length bs) c)" for c blk bs blk'
    by (simp add: receive_buffer_ok)
  have "(1024 :: nat) < 2 ^ 31" by simp
  then show "initConnection mc mr mw mb = Inr c \<Longrightarrow> buffer_ok c" for mc mr mw mb c
    by (auto simp: initConnection_def buffer_ok_def Let_def QUERY_INIT_LEN_def split: option.splits)
qed (auto simp: buffer_ok_def split: option.splits)

subsection \<open>Property\<close>

text \<open>
  C8: With clients that send no NUL the server never receives more than it has room for. In every
  state such a run reaches, the data of each connection and the free bytes counted behind it lie
  inside its block, which stays below 2 GB. In a read, growing the buffer keeps this, even when a
  size overflows \<open>int\<close> (\<open>realloc\<close> then fails); whatever \<open>recv\<close> delivers into the count of free bytes
  is written inside the block, and the counts are right again.
\<close>
theorem server_buffer_bounds:
  assumes "server_run nul_free s" and "heap s ptr = Some c"
  shows "buffer_ok c \<and>
    (buffer_ok d \<and> try_to_enlarge_buffer mem d = Inr d1 \<longrightarrow> buffer_ok d1 \<and>
      (querybuf d1 = Some blk1 \<and> arrivals_ok (\<lambda>b. b \<noteq> NUL) as \<and>
        recv_from (size_t_of_int (query_remain_len d1)) as = (Got bs, r) \<longrightarrow>
        (\<exists>blk2. write_block blk1 (nat (query_end_index d1)) bs = Inr blk2 \<and>
          buffer_ok (received blk2 (length bs) d1))))"
proof -
  have "server_run (\<lambda>io. arrivals_ok (\<lambda>b. b \<noteq> NUL) (io_arrivals io)) s"
    using assms(1) unfolding nul_free_def [abs_def] .
  then have "buffer_ok c"
    using for_all_connectionsD [OF buffer.every_connection.run_keeps assms(2)] by blast
  moreover have "\<exists>blk2. write_block blk1 (nat (query_end_index d1)) bs = Inr blk2 \<and>
      buffer_ok (received blk2 (length bs) d1)"
    if "buffer_ok d1" "querybuf d1 = Some blk1" "arrivals_ok (\<lambda>b. b \<noteq> NUL) as"
      "recv_from (size_t_of_int (query_remain_len d1)) as = (Got bs, r)"
  proof -
    note ok = that(1) and blk = that(2)
    have bs: "length bs \<le> size_t_of_int (query_remain_len d1)" "\<forall>b \<in> set bs. b \<noteq> NUL"
      using recv_from_Got [OF that(4)] recv_from_ok [OF that(4,3)] by simp_all
    from received_fits [OF ok blk bs(1)] receive_buffer_ok [OF ok blk bs] show ?thesis by blast
  qed
  ultimately show ?thesis using enlarge_buffer_ok by blast
qed

lemma demo_buffer:
  "\<exists>s c. server_run nul_free s \<and> heap s 0 = Some c \<and> querybuf c = Some (replicate 1024 NUL) \<and>
    query_end_index c = 0 \<and> query_remain_len c = 1024"
proof -
  have "\<exists>s c. server_main demo_start demo_io = Inr (Event_loop s) \<and> ep s \<noteq> - 1 \<and> heap s 0 = Some c \<and>
    querybuf c = Some (replicate 1024 NUL) \<and> query_end_index c = 0 \<and> query_remain_len c = 1024"
    by (simp add: server_main_def demo_io_def demo_start_def initConnection_def set_handler_def
        epoll_add_event_def new_fd_def add_socket_def add_file_def epoll_init_event_def Let_def
        malloc_block_def QUERY_INIT_LEN_def)
  moreover have "new_fd (b_fds demo_start) (b_socket demo_start) \<noteq> - 1"
    by (simp add: demo_start_def new_fd_def)
  moreover have "nul_free demo_io" by (simp add: nul_free_def demo_io_def arrivals_ok_def)
  ultimately show ?thesis
    unfolding server_run_def by (metis empty_iff event_loop.simps(1) list.set(1))
qed

theorem server_buffer_bounds_witness:
  "\<exists>s c c1 blk1. server_run nul_free s \<and> heap s 0 = Some c \<and> try_to_enlarge_buffer None c = Inr c1 \<and>
    write_block (replicate 1024 NUL) (nat (query_end_index c1)) ''GET /'' = Inr blk1 \<and>
    buffer_ok (received blk1 (length ''GET /'') c1)"
proof -
  obtain s c where s: "server_run nul_free s" "heap s 0 = Some c"
    "querybuf c = Some (replicate 1024 NUL)" "query_end_index c = 0" "query_remain_len c = 1024"
    using demo_buffer by blast
  have "try_to_enlarge_buffer None c = Inr c" by (rule enlarge_not_needed) (simp add: s(5))
  moreover have "recv_from (size_t_of_int (query_remain_len c)) [Bytes ''GET /''] = (Got ''GET /'', [])"
    by (simp add: s(5))
  moreover have "arrivals_ok (\<lambda>b. b \<noteq> NUL) [Bytes ''GET /'']" by (simp add: arrivals_ok_def)
  moreover note server_buffer_bounds [OF s(1,2), of c None c "replicate 1024 NUL" "[Bytes ''GET /'']"
      "''GET /''" "[]"]
  ultimately have "\<exists>blk2. write_block (replicate 1024 NUL) (nat (query_end_index c)) ''GET /'' = Inr blk2 \<and>
      buffer_ok (received blk2 (length ''GET /'') c)"
    using s(3) by (simp del: recv_from.simps)
  with s(1,2) \<open>try_to_enlarge_buffer None c = Inr c\<close> show ?thesis by metis
qed

end
