(* ===== verification/Server_Serving.thy ===== *)
theory Server_Serving
  imports Server_Isolation
begin

section \<open>The server answers\<close>

text \<open>
  Three turns of the loop, composed: the listener accepts (\<open>accept_turn\<close>), the request is read and
  parsed (\<open>read_turn\<close>), the response is sent and the connection closed (\<open>send_turn\<close>), with turns for
  other clients in between.
\<close>

subsection \<open>Serving a request\<close>

lemma process_single: "process_batch [ev] s = dispatch ev s"
  by (cases "dispatch ev s") simp_all

lemma one_event:
  assumes "server_inv s" and "heap s ptr = Some c"
    and "epoll_set s (conn_fd c) = Some (ptr, flags)"
  shows "ngx_epoll_process_events [(conn_fd c, evs, io)] s =
    (if EPOLLIN \<in> set evs \<and> EPOLLIN \<in> set flags then call_handler (read_event c) ptr io c s
     else if EPOLLOUT \<in> set evs \<and> EPOLLOUT \<in> set flags then call_handler (write_event c) ptr io c s
     else Inr s)"
proof -
  have "set (report_events flags evs) = {e \<in> set evs. e \<in> set flags \<or> e = EPOLLERR}"
    by (auto simp: report_events_def)
  then show ?thesis
    using assms
    by (simp add: ngx_epoll_process_events_def process_single dispatch_def
        del: process_batch.simps)
qed

definition fresh :: "web_connection \<Rightarrow> bool" where
  "fresh c \<longleftrightarrow> (\<exists>blk. querybuf c = Some blk \<and> length blk = 1024) \<and> query_start_index c = 0 \<and>
     query_end_index c = 0 \<and> query_remain_len c = 1024 \<and> fields_ok c \<and> has_events c"

definition io_gives_memory :: "io \<Rightarrow> bool" where
  "io_gives_memory io \<longleftrightarrow> io_struct io \<noteq> None \<and> io_read_event io \<and> io_write_event io \<and>
     io_buffer io \<noteq> None"

lemma initConnection_fresh:
  assumes "io_gives_memory io"
  shows "\<exists>c. initConnection (io_struct io) (io_read_event io) (io_write_event io)
      (io_buffer io) = Inr c \<and> fresh c \<and> read_event c = Unset_event \<and>
      (io_buffer io = Some [] \<longrightarrow> querybuf c = Some (replicate 1024 NUL))"
  using assms
  by (auto simp: io_gives_memory_def initConnection_def Let_def fresh_def fields_ok_def
      has_events_def QUERY_INIT_LEN_def malloc_block_def)

lemma accept_turn:
  assumes inv: "server_inv s" and l: "epoll_set s lfd = Some (p, [EPOLLIN, EPOLLERR])"
    and fd: "0 \<le> io_accept io" "io_accept io \<notin> open_fds s" and mem: "io_gives_memory io"
    and ok: "io_epoll_add io"
  shows "\<exists>s1 c. ngx_epoll_process_events [(lfd, [EPOLLIN], io)] s = Inr s1 \<and>
    heap s1 (next_addr s) = Some c \<and> conn_fd c = io_accept io \<and> fresh c \<and>
    epoll_set s1 (conn_fd c) = Some (next_addr s, [EPOLLIN, EPOLLERR, EPOLLET]) \<and>
    read_event c = Handler Read_request \<and> wire s1 = wire s \<and> server_inv s1 \<and>
    (io_buffer io = Some [] \<longrightarrow> querybuf c = Some (replicate 1024 NUL))"
proof -
  let ?fd = "io_accept io"
  obtain lc where lc: "heap s p = Some lc" "conn_fd lc = lfd"
    using server_invD_epoll [OF inv l] by blast
  with server_invD(3) [OF inv lc(1), of "[EPOLLIN, EPOLLERR]"] l have handler: "read_event lc = Handler Web_accept"
    by (auto simp: role_def)
  have none: "epoll_set s ?fd = None"
    using fd(2) by (rule closed_unregistered [OF inv])
  obtain c where c: "initConnection (io_struct io) (io_read_event io) (io_write_event io)
      (io_buffer io) = Inr c" "fresh c" "read_event c = Unset_event"
      "io_buffer io = Some [] \<longrightarrow> querybuf c = Some (replicate 1024 NUL)"
    using initConnection_fresh [OF mem] by blast
  let ?c = "c\<lparr>conn_fd := ?fd, conn_state := READ, read_event := Handler Read_request\<rparr>"
  let ?s = "accepted True ?fd ?c s"
  have "new_fd (open_fds s) ?fd = ?fd" using fd by (simp add: new_fd_def)
  then have "web_accept io s = Inr (accepted (io_epoll_add io) ?fd ?c s)"
    by (rule web_accept_accepted) (use fd c none server_inv_ep [OF inv] in \<open>auto simp: set_handler_def\<close>)
  then have acc: "web_accept io s = Inr ?s" using ok by simp
  have turn: "ngx_epoll_process_events [(lfd, [EPOLLIN], io)] s = Inr ?s"
    using one_event [OF inv lc(1), of "[EPOLLIN, EPOLLERR]" "[EPOLLIN]" io] lc(2) l handler acc
    by (simp add: call_handler_def)
  moreover have "server_inv ?s"
    using events_safe [OF inv, of "[(lfd, [EPOLLIN], io)]"] turn by simp
  moreover have "fresh ?c" using c(2) by (simp add: fresh_def fields_ok_def has_events_def)
  ultimately show ?thesis using c(4) by (intro exI [of _ ?s] exI [of _ ?c]) simp
qed

text \<open>
  Pieces that \<open>read_request\<close> reads whole: at most 512 bytes, or pieces of at most 511 bytes without
  NUL, of any number, when the memory that \<open>malloc\<close> (\<open>zeroed\<close>) and \<open>realloc\<close> give is zeroed.
\<close>

definition arrives_whole :: "bool \<Rightarrow> io \<Rightarrow> string list \<Rightarrow> bool" where
  "arrives_whole zeroed io chunks \<longleftrightarrow> io_arrivals io = map Bytes chunks \<and> [] \<notin> set chunks \<and>
     (length (concat chunks) \<le> 512 \<or>
      zeroed \<and> io_realloc io = (\<lambda>_. Some []) \<and>
        (\<forall>bs \<in> set chunks. length bs \<le> 511 \<and> NUL \<notin> set bs) \<and>
        length (concat chunks) + 1024 < 2 ^ 31)"

lemma read_whole:
  assumes c: "fresh c" and whole: "arrives_whole zeroed io chunks"
    and zero: "zeroed \<longrightarrow> querybuf c = Some (replicate 1024 NUL)"
  shows "\<exists>tail left. length (concat chunks @ tail) < 2 ^ 31 \<and>
    read_request (io_realloc io) (io_arrivals io) c =
      process_request_line (c\<lparr>querybuf := Some (concat chunks @ tail),
        query_end_index := int (length (concat chunks)), query_remain_len := left\<rparr>)"
proof (cases "length (concat chunks) \<le> 512")
  case True
  obtain blk where blk: "querybuf c = Some blk" "length blk = 1024" using c by (auto simp: fresh_def)
  let ?tail = "drop (length (concat chunks)) blk"
  have "length (concat chunks @ ?tail) = 1024" using True blk(2) by simp
  then have "length (concat chunks @ ?tail) < 2 ^ 31" by (simp only:) simp
  moreover have "read_request (io_realloc io) (io_arrivals io) c =
      process_request_line (c\<lparr>querybuf := Some (concat chunks @ ?tail),
        query_end_index := int (length (concat chunks)),
        query_remain_len := 1024 - int (length (concat chunks))\<rparr>)"
    using http_read_chunks_eq [OF blk _ _ True] c whole by (simp add: fresh_def arrives_whole_def)
  ultimately show ?thesis by blast
next
  case False
  with whole have io: "io_arrivals io = map Bytes chunks" "io_realloc io = (\<lambda>_. Some [])"
    and z: "zeroed" and pieces: "\<forall>bs \<in> set chunks. bs \<noteq> [] \<and> length bs \<le> 511 \<and> NUL \<notin> set bs"
    and small: "length (concat chunks) + 1024 < 2 ^ 31"
    by (auto simp: arrives_whole_def)
  have "holds_data c [] 1024" using c z zero by (simp add: holds_data_def fresh_def)
  then obtain room where room: "room \<le> 1024" and
    read: "read_loop (\<lambda>_. Some []) 0 (map Bytes chunks) c =
      Inr (False, holding ([] @ concat chunks) room c)"
    using read_loop_grows [of c "[]" 1024 chunks 0] pieces small by auto
  have "length (concat chunks @ replicate room NUL) \<le> length (concat chunks) + 1024"
    using room by simp
  then have "length (concat chunks @ replicate room NUL) < 2 ^ 31" using small by (rule le_less_trans)
  with read io show ?thesis
    by (intro exI [of _ "replicate room NUL"] exI [of _ "int room"])
      (simp add: read_request_def holding_def)
qed

lemma read_request_armed:
  assumes c: "fresh c" and io: "arrives_whole zeroed io chunks" "zeroed \<longrightarrow> querybuf c = Some (replicate 1024 NUL)"
    and req: "concat chunks = request_text m u v hs @ crlf [] @ body"
    and shape: "request_shape m u v hs" and fits: "request_fits m u v hs"
  shows "\<exists>c1. read_request (io_realloc io) (io_arrivals io) c =
      Inr (armed c1, [Epoll_mod (conn_fd c) [EPOLLOUT, EPOLLERR]]) \<and> conn_fd c1 = conn_fd c"
proof -
  obtain tail left where small: "length (concat chunks @ tail) < 2 ^ 31" and
    read: "read_request (io_realloc io) (io_arrivals io) c =
      process_request_line (c\<lparr>querybuf := Some (concat chunks @ tail),
        query_end_index := int (length (concat chunks)), query_remain_len := left\<rparr>)"
    using read_whole [OF c io] by blast
  let ?c = "c\<lparr>querybuf := Some (concat chunks @ tail),
    query_end_index := int (length (concat chunks)), query_remain_len := left\<rparr>"
  have parts: "concat chunks @ tail = request_text m u v hs @ crlf [] @ (body @ tail)"
    by (simp add: req)
  have "read_request (io_realloc io) (io_arrivals io) c =
      Inr (armed (request_conn m u v hs ?c), [Epoll_mod (conn_fd c) [EPOLLOUT, EPOLLERR]])"
    unfolding read
    using http_parse_eq [of ?c m u v hs "body @ tail", OF _ shape fits] small c
    unfolding parts by (simp add: fresh_def fields_ok_def has_events_def)
  then show ?thesis by (intro exI [of _ "request_conn m u v hs ?c"]) simp
qed

lemma read_turn:
  assumes inv: "server_inv s" and c: "heap s ptr = Some c" "fresh c"
    and reg: "epoll_set s (conn_fd c) = Some (ptr, [EPOLLIN, EPOLLERR, EPOLLET])"
    and handler: "read_event c = Handler Read_request"
    and io: "arrives_whole zeroed io chunks" "zeroed \<longrightarrow> querybuf c = Some (replicate 1024 NUL)"
    and req: "concat chunks = request_text m u v hs @ crlf [] @ body"
    and shape: "request_shape m u v hs" and fits: "request_fits m u v hs"
  shows "\<exists>s1 c1. ngx_epoll_process_events [(conn_fd c, [EPOLLIN], io)] s = Inr s1 \<and>
    heap s1 ptr = Some c1 \<and> conn_fd c1 = conn_fd c \<and> write_event c1 = Handler Send_response \<and>
    epoll_set s1 (conn_fd c) = Some (ptr, [EPOLLOUT, EPOLLERR]) \<and> wire s1 = wire s \<and>
    server_inv s1"
proof -
  obtain c1 where rr: "read_request (io_realloc io) (io_arrivals io) c =
      Inr (armed c1, [Epoll_mod (conn_fd c) [EPOLLOUT, EPOLLERR]])" and c1: "conn_fd c1 = conn_fd c"
    using read_request_armed [OF c(2) io req shape fits] by blast
  let ?s = "s\<lparr>heap := (heap s)(ptr \<mapsto> armed c1),
    epoll_set := (epoll_set s)(conn_fd c \<mapsto> (ptr, [EPOLLOUT, EPOLLERR]))\<rparr>"
  have turn: "ngx_epoll_process_events [(conn_fd c, [EPOLLIN], io)] s = Inr ?s"
    using one_event [OF inv c(1) reg, of "[EPOLLIN]" io] handler rr reg
    by (simp add: call_handler_def apply_result_def epoll_mod_event_def)
  moreover have "server_inv ?s"
    using events_safe [OF inv, of "[(conn_fd c, [EPOLLIN], io)]"] turn by simp
  ultimately show ?thesis
    using c1 by (intro exI [of _ ?s] exI [of _ "armed c1"]) (simp add: armed_def)
qed

definition response_header :: string where
  "response_header = http_res_hdr (length EPOLL_HELLO) ''text/html''"

lemma send_turn:
  assumes inv: "server_inv s" and c: "heap s ptr = Some c"
    and reg: "epoll_set s (conn_fd c) = Some (ptr, [EPOLLOUT, EPOLLERR])"
    and handler: "write_event c = Handler Send_response" and "0 \<le> io_send1 io"
  shows "ngx_epoll_process_events [(conn_fd c, [EPOLLOUT], io)] s =
    Inr (s\<lparr>heap := (heap s)(ptr := None), epoll_set := (epoll_set s)(conn_fd c := None),
           open_fds := open_fds s - {conn_fd c},
           wire := wire s @ [(conn_fd c, take (nat (io_send1 io)) response_header),
                             (conn_fd c, take (nat (io_send2 io)) EPOLL_HELLO)]\<rparr>)"
  using one_event [OF inv c reg, of "[EPOLLOUT]" io] handler assms(5) http_res_hdr_short
  by (simp add: call_handler_def apply_result_def send_response_def Let_def close_conn_def
      epoll_del_event_def sent_by_def response_header_def)

text \<open>The last two turns, with any number of turns for other clients before each.\<close>

definition served :: "nat \<Rightarrow> int \<Rightarrow> server \<Rightarrow> web_connection \<Rightarrow> server \<Rightarrow> bool" where
  "served ptr fd s c s2 \<longleftrightarrow> server_inv s2 \<and> heap s2 ptr = Some c \<and> conn_fd c = fd \<and>
     write_event c = Handler Send_response \<and> epoll_set s2 fd = Some (ptr, [EPOLLOUT, EPOLLERR]) \<and>
     sent_on fd s2 = sent_on fd s"

lemma read_later:
  assumes while: "meanwhile (conn_fd c) s t" and inv: "server_inv s" and c: "heap s ptr = Some c" "fresh c"
    and reg: "epoll_set s (conn_fd c) = Some (ptr, [EPOLLIN, EPOLLERR, EPOLLET])"
    and handler: "read_event c = Handler Read_request"
    and io: "arrives_whole zeroed io chunks" "zeroed \<longrightarrow> querybuf c = Some (replicate 1024 NUL)"
    and req: "concat chunks = request_text m u v hs @ crlf [] @ body"
    and shape: "request_shape m u v hs" and fits: "request_fits m u v hs"
  shows "\<exists>s2 c2. ngx_epoll_process_events [(conn_fd c, [EPOLLIN], io)] t = Inr s2 \<and>
    served ptr (conn_fd c) s c2 s2"
proof -
  have t: "heap t ptr = Some c" "sent_on (conn_fd c) t = sent_on (conn_fd c) s" "server_inv t"
    "epoll_set t (conn_fd c) = Some (ptr, [EPOLLIN, EPOLLERR, EPOLLET])"
    using meanwhile_untouched [OF while inv c(1)] reg by (auto simp: untouched_def)
  from read_turn [OF t(3,1) c(2) t(4) handler io req shape fits] obtain s2 c2
    where s2: "ngx_epoll_process_events [(conn_fd c, [EPOLLIN], io)] t = Inr s2"
      "heap s2 ptr = Some c2" "conn_fd c2 = conn_fd c" "write_event c2 = Handler Send_response"
      "epoll_set s2 (conn_fd c) = Some (ptr, [EPOLLOUT, EPOLLERR])" "wire s2 = wire t" "server_inv s2"
    by blast
  with t(2) sent_on_same [OF s2(6)] show ?thesis
    by (intro exI [of _ s2] exI [of _ c2]) (simp add: served_def)
qed

lemma send_later:
  assumes "meanwhile fd s2 t" and "served ptr fd s c s2" and "0 \<le> io_send1 io"
  shows "\<exists>s3. ngx_epoll_process_events [(fd, [EPOLLOUT], io)] t = Inr s3 \<and>
    sent_on fd s3 = sent_on fd s @
      [take (nat (io_send1 io)) response_header, take (nat (io_send2 io)) EPOLL_HELLO] \<and>
    heap s3 ptr = None \<and> epoll_set s3 fd = None \<and> fd \<notin> open_fds s3"
proof -
  note c = assms(2) [unfolded served_def]
  have t: "heap t ptr = Some c" "sent_on (conn_fd c) t = sent_on (conn_fd c) s" "server_inv t"
    "epoll_set t (conn_fd c) = Some (ptr, [EPOLLOUT, EPOLLERR])"
    using meanwhile_untouched [of c s2 t ptr] assms(1) c by (auto simp: untouched_def)
  have "write_event c = Handler Send_response" "fd = conn_fd c" using c by auto
  with send_turn [OF t(3,1,4) _ assms(3)] t(2) show ?thesis by (simp add: sent_on_def)
qed

text \<open>How a connection ends: the server without it, and what a failed send leaves.\<close>

definition without_connection :: "nat \<Rightarrow> web_connection \<Rightarrow> server \<Rightarrow> server" where
  "without_connection ptr c s = s\<lparr>heap := (heap s)(ptr := None),
     epoll_set := (epoll_set s)(conn_fd c := None), open_fds := open_fds s - {conn_fd c}\<rparr>"

lemma read_request_closed:
  assumes buf: "querybuf c = Some blk" "length blk = 1024" "query_end_index c = int e"
      "query_remain_len c = 1024 - int e"
    and small: "e + length (concat chunks) \<le> 512" "[] \<notin> set chunks"
  shows "read_request mem (map Bytes chunks @ [Peer_closed]) c =
    Inr (filled blk e (concat chunks) c, close_calls c)"
proof -
  obtain k where "read_loop mem 0 (map Bytes chunks @ [Peer_closed]) c =
      read_loop mem k [Peer_closed] (filled blk e (concat chunks) c)"
    using read_loop_chunks [OF buf(1,3,4,2) small] by metis
  with read_loop_ends(2) [OF small(1)] show ?thesis
    by (simp add: read_request_def close_conn_def close_calls_def filled_def)
qed

lemma closing_turn:
  assumes inv: "server_inv s" and c: "heap s ptr = Some c"
    and reg: "epoll_set s (conn_fd c) = Some (ptr, [EPOLLIN, EPOLLERR, EPOLLET])"
    and buf: "querybuf c = Some blk" "length blk = 1024" "query_end_index c = int e"
      "query_remain_len c = 1024 - int e"
    and small: "e + length (concat chunks) \<le> 512" "[] \<notin> set chunks"
    and io: "io_arrivals io = map Bytes chunks @ [Peer_closed]"
  shows "ngx_epoll_process_events [(conn_fd c, [EPOLLIN], io)] s = Inr (without_connection ptr c s)"
proof -
  have "read_event c = Handler Read_request"
    using server_invD(3) [OF inv c reg] by (auto simp: role_def)
  then show ?thesis
    using one_event [OF inv c reg, of "[EPOLLIN]" io] read_request_closed [OF buf small] io
    by (simp add: call_handler_def apply_result_def close_calls_def epoll_del_event_def
        without_connection_def)
qed

lemma send_error_turn:
  assumes inv: "server_inv s" and c: "heap s ptr = Some c"
    and reg: "epoll_set s (conn_fd c) = Some (ptr, [EPOLLOUT, EPOLLERR])" and "io_send1 io < 0"
  shows "ngx_epoll_process_events [(conn_fd c, [EPOLLOUT, EPOLLERR], io)] s =
    Inr (s\<lparr>wire := wire s @ [(conn_fd c, [])]\<rparr>)"
proof -
  have "write_event c = Handler Send_response"
    using server_invD(3) [OF inv c reg] by (auto simp: role_def)
  then show ?thesis
    using one_event [OF inv c reg, of "[EPOLLOUT, EPOLLERR]" io] c assms(4) http_res_hdr_short
    by (simp add: call_handler_def apply_result_def send_response_def Let_def sent_by_def fun_upd_idem)
qed

subsection \<open>Properties\<close>

text \<open>
  C1: The server serves, whatever it does for others meanwhile. In every reachable state with a
  listener, a client that connects and sends a well-formed request, in any number of pieces that
  arrive together, gets the header and the greeting and nothing else, as many bytes of each as the
  two calls of \<open>send\<close> accept, and the connection is then closed, deregistered and freed. Before the
  request is read and before the answer is sent, any number of turns may accept, read, answer and
  close other connections. The request is of at most 512 bytes, or, when fresh memory is zeroed, of
  any length below 2 GB in pieces of at most 511 bytes without NUL. The descriptor that \<open>accept\<close> gives
  must be new, memory must last, and epoll must take the connection (\<open>io_epoll_add\<close>): the server
  would not notice if it did not.
\<close>
theorem server_serves_request:
  assumes reach: "server_reach s" and "epoll_set s lfd = Some (p, [EPOLLIN, EPOLLERR])"
    and "0 \<le> io_accept io1" and "io_accept io1 \<notin> open_fds s" and "io_gives_memory io1"
    and "io_epoll_add io1"
    and "arrives_whole (io_buffer io1 = Some []) io2 chunks"
    and "concat chunks = request_text m u v hs @ crlf [] @ body"
    and "request_shape m u v hs" and "request_fits m u v hs" and "0 \<le> io_send1 io3"
  shows "\<exists>s1. ngx_epoll_process_events [(lfd, [EPOLLIN], io1)] s = Inr s1 \<and>
    (\<forall>t1. meanwhile (io_accept io1) s1 t1 \<longrightarrow>
      (\<exists>s2. ngx_epoll_process_events [(io_accept io1, [EPOLLIN], io2)] t1 = Inr s2 \<and>
        (\<forall>t2. meanwhile (io_accept io1) s2 t2 \<longrightarrow>
          (\<exists>s3. ngx_epoll_process_events [(io_accept io1, [EPOLLOUT], io3)] t2 = Inr s3 \<and>
            sent_on (io_accept io1) s3 = sent_on (io_accept io1) s @
              [take (nat (io_send1 io3)) response_header, take (nat (io_send2 io3)) EPOLL_HELLO] \<and>
            heap s3 (next_addr s) = None \<and> epoll_set s3 (io_accept io1) = None \<and>
            io_accept io1 \<notin> open_fds s3))))"
proof -
  let ?ptr = "next_addr s"
  obtain s1 c where 1: "ngx_epoll_process_events [(lfd, [EPOLLIN], io1)] s = Inr s1"
    and c: "heap s1 ?ptr = Some c" "fresh c" "read_event c = Handler Read_request"
      "epoll_set s1 (conn_fd c) = Some (?ptr, [EPOLLIN, EPOLLERR, EPOLLET])"
    and fd: "io_accept io1 = conn_fd c" and w1: "wire s1 = wire s" and inv1: "server_inv s1"
    and zero: "io_buffer io1 = Some [] \<longrightarrow> querybuf c = Some (replicate 1024 NUL)"
    using accept_turn [OF server_reach_inv [OF reach] assms(2-6)] by metis
  have read: "\<exists>s2 c1. ngx_epoll_process_events [(conn_fd c, [EPOLLIN], io2)] t1 = Inr s2 \<and>
      served ?ptr (conn_fd c) s c1 s2" if "meanwhile (conn_fd c) s1 t1" for t1
    using read_later [OF that inv1 c(1,2,4,3) assms(7) zero assms(8-10)] sent_on_same [OF w1]
    by (simp add: served_def)
  show ?thesis using 1 read send_later [OF _ _ assms(11)] unfolding fd by metis
qed

text \<open>
  C9: How connections end. A client that closes has its connection closed, deregistered and freed at
  the next read; but one that has sent a request and then closes its sending side is not answered:
  what it sent (at most 512 bytes here, pieces of a line sent earlier included) is dropped with the
  connection, complete or not. A failed \<open>send\<close> leaves the connection allocated and registered, so
  every further turn does the same. An event that reports nothing but an error changes nothing:
  no handler looks at \<open>EPOLLERR\<close>.
\<close>
theorem server_connection_end:
  assumes reach: "server_reach s" and c: "heap s ptr = Some c"
  shows "(epoll_set s (conn_fd c) = Some (ptr, [EPOLLIN, EPOLLERR, EPOLLET]) \<and>
      querybuf c = Some blk \<and> length blk = 1024 \<and> query_end_index c = int e \<and>
      query_remain_len c = 1024 - int e \<and> e + length (concat chunks) \<le> 512 \<and> [] \<notin> set chunks \<and>
      io_arrivals io = map Bytes chunks @ [Peer_closed] \<longrightarrow>
      ngx_epoll_process_events [(conn_fd c, [EPOLLIN], io)] s = Inr (without_connection ptr c s)) \<and>
    (epoll_set s (conn_fd c) = Some (ptr, [EPOLLOUT, EPOLLERR]) \<and> io_send1 io < 0 \<longrightarrow>
      ngx_epoll_process_events [(conn_fd c, [EPOLLOUT, EPOLLERR], io)] s =
        Inr (s\<lparr>wire := wire s @ [(conn_fd c, [])]\<rparr>)) \<and>
    ngx_epoll_process_events [(conn_fd c, [EPOLLERR], io)] s = Inr s"
proof (intro conjI impI, goal_cases)
  case 1
  then show ?case using closing_turn [OF server_reach_inv [OF reach] c] by blast
next
  case 2
  then show ?case using send_error_turn [OF server_reach_inv [OF reach] c] by blast
next
  case 3
  show ?case
  proof (cases "epoll_set s (conn_fd c)")
    case None
    then show ?thesis by (simp add: ngx_epoll_process_events_def)
  next
    case (Some x)
    then have "epoll_set s (conn_fd c) = Some (ptr, snd x)"
      using server_inv_own [OF server_reach_inv [OF reach] c, of "fst x" "snd x"] by (cases x) simp
    from one_event [OF server_reach_inv [OF reach] c this, of "[EPOLLERR]" io] show ?thesis by simp
  qed
qed

subsection \<open>Witnesses\<close>

lemma demo_served:
  assumes "server_reach s" and "epoll_set s 3 = Some (0, [EPOLLIN, EPOLLERR])"
    and "open_fds s = {0, 1, 2, 3, 4}"
  shows "\<exists>s1 c. ngx_epoll_process_events [(3, [EPOLLIN], demo_io)] s = Inr s1 \<and>
    server_reach s1 \<and> (\<exists>s2. ngx_epoll_process_events [(5, [EPOLLIN], demo_io)] s1 = Inr s2 \<and>
      server_reach s2 \<and> heap s2 (next_addr s) = Some c \<and> conn_fd c = 5 \<and>
      epoll_set s2 5 = Some (next_addr s, [EPOLLOUT, EPOLLERR]))"
proof -
  have inv: "server_inv s" by (rule server_reach_inv [OF assms(1)])
  obtain s1 c where 1: "ngx_epoll_process_events [(3, [EPOLLIN], demo_io)] s = Inr s1"
    and c: "heap s1 (next_addr s) = Some c" "fresh c" "read_event c = Handler Read_request"
      "epoll_set s1 (conn_fd c) = Some (next_addr s, [EPOLLIN, EPOLLERR, EPOLLET])"
    and fd: "conn_fd c = 5" and inv1: "server_inv s1"
    using accept_turn [OF inv assms(2), of demo_io] assms(3)
    by (auto simp: demo_io_def io_gives_memory_def)
  obtain s2 c1 where 2: "ngx_epoll_process_events [(conn_fd c, [EPOLLIN], demo_io)] s1 = Inr s2"
    and c1: "heap s2 (next_addr s) = Some c1" "conn_fd c1 = conn_fd c"
      "epoll_set s2 (conn_fd c) = Some (next_addr s, [EPOLLOUT, EPOLLERR])"
    using read_turn [OF inv1 c(1,2,4,3), of False demo_io "[''GET / HT'', ''TP/1.1'' @ [CR, LF, CR, LF]]"
        "''GET''" "''/''" "''HTTP/1.1''" "[]" "[]"]
    by (auto simp: demo_io_def request_text_def crlf_def request_shape_def request_fits_def
        arrives_whole_def)
  have "server_reach s1" using turn [OF assms(1) _ 1] by simp
  moreover from this have "server_reach s2" using turn [OF _ _ 2] by simp
  ultimately show ?thesis using 1 2 c1 fd by auto
qed

theorem server_serves_request_witness:
  "\<exists>s s1 s2 s3. server_main demo_start demo_io = Inr (Event_loop s) \<and>
    ngx_epoll_process_events [(3, [EPOLLIN], demo_io)] s = Inr s1 \<and>
    ngx_epoll_process_events [(5, [EPOLLIN], demo_io)] s1 = Inr s2 \<and>
    ngx_epoll_process_events [(5, [EPOLLOUT], demo_io)] s2 = Inr s3 \<and>
    sent_on 5 s3 = [take 200 response_header, take 12 EPOLL_HELLO]"
proof -
  obtain s where s: "server_main demo_start demo_io = Inr (Event_loop s)" "server_reach s"
    "epoll_set s 3 = Some (0, [EPOLLIN, EPOLLERR])" "open_fds s = {0, 1, 2, 3, 4}" "wire s = []"
    using demo_boot by blast
  have io: "io_accept demo_io = 5" "io_gives_memory demo_io" "io_send1 demo_io = 200"
    "io_send2 demo_io = 12" "sent_on 5 s = []"
    "arrives_whole (io_buffer demo_io = Some []) demo_io [''GET / HT'', ''TP/1.1'' @ [CR, LF, CR, LF]]"
    "io_epoll_add demo_io"
    using s(5) by (simp_all add: demo_io_def io_gives_memory_def arrives_whole_def sent_on_def)
  have req: "concat [''GET / HT'', ''TP/1.1'' @ [CR, LF, CR, LF]] =
      request_text ''GET'' ''/'' ''HTTP/1.1'' [] @ crlf [] @ []"
    "request_shape ''GET'' ''/'' ''HTTP/1.1'' []" "request_fits ''GET'' ''/'' ''HTTP/1.1'' []"
    by (simp_all add: request_text_def crlf_def request_shape_def request_fits_def)
  from server_serves_request [OF s(2,3) _ _ io(2,7,6) req, of demo_io] io s(4)
  obtain s1 where 1: "ngx_epoll_process_events [(3, [EPOLLIN], demo_io)] s = Inr s1"
    and later: "meanwhile 5 s1 t1 \<Longrightarrow>
      \<exists>s2. ngx_epoll_process_events [(5, [EPOLLIN], demo_io)] t1 = Inr s2 \<and> (\<forall>t2. meanwhile 5 s2 t2 \<longrightarrow>
        (\<exists>s3. ngx_epoll_process_events [(5, [EPOLLOUT], demo_io)] t2 = Inr s3 \<and>
          sent_on 5 s3 = [take 200 response_header, take 12 EPOLL_HELLO]))" for t1
    by (simp only:) fastforce
  from later [OF meanwhile.none] s(1) 1 meanwhile.none show ?thesis by metis
qed

theorem server_connection_end_witness:
  "\<exists>s ptr c. server_reach s \<and> heap s ptr = Some c \<and>
    ngx_epoll_process_events [(5, [EPOLLIN], demo_io\<lparr>io_arrivals := [Bytes ''GET'', Peer_closed]\<rparr>)] s =
      Inr (without_connection ptr c s)"
proof -
  obtain s where s: "server_reach s" "epoll_set s 3 = Some (0, [EPOLLIN, EPOLLERR])"
    "open_fds s = {0, 1, 2, 3, 4}" using demo_boot by blast
  obtain s1 c where 1: "ngx_epoll_process_events [(3, [EPOLLIN], demo_io)] s = Inr s1"
    and c: "heap s1 (next_addr s) = Some c" "fresh c"
      "epoll_set s1 (conn_fd c) = Some (next_addr s, [EPOLLIN, EPOLLERR, EPOLLET])"
    and fd: "conn_fd c = 5"
    using accept_turn [OF server_reach_inv [OF s(1)] s(2), of demo_io] s(3)
    by (auto simp: demo_io_def io_gives_memory_def)
  have reach: "server_reach s1" using turn [OF s(1) _ 1] by simp
  obtain blk where blk: "querybuf c = Some blk" "length blk = 1024" using c(2) by (auto simp: fresh_def)
  have "ngx_epoll_process_events [(conn_fd c, [EPOLLIN],
      demo_io\<lparr>io_arrivals := [Bytes ''GET'', Peer_closed]\<rparr>)] s1 =
      Inr (without_connection (next_addr s) c s1)"
    by (rule server_connection_end [OF reach c(1), THEN conjunct1, rule_format,
          of blk 0 "[''GET'']"]) (use blk c in \<open>simp add: fresh_def\<close>)
  with reach c(1) fd show ?thesis by metis
qed

end
