(* ===== verification/Server_Start.thy ===== *)
theory Server_Start
  imports Server_Serving Loop_Invariants
begin

section \<open>Starting the server (src/epoll_server.cpp: main, setnonblocking)\<close>

text \<open>
  What the flags of the server's sockets are while it runs, what \<open>setnonblocking\<close> does to other
  descriptors, and what the server does when a call of \<open>main\<close> fails that \<open>main\<close> does not look at.
\<close>

subsection \<open>The flags of the sockets\<close>

definition sockets_inv :: "server \<Rightarrow> bool" where
  "sockets_inv s \<longleftrightarrow> server_inv s \<and>
     (\<forall>ptr c. heap s ptr = Some c \<longrightarrow> status_flags s (conn_fd c) = O_RDWR OR O_NONBLOCK)"

lemma exec_calls_status: "status_flags (fold (exec_call ptr) calls s) = status_flags s"
proof (induction calls arbitrary: s)
  case (Cons k calls)
  then show ?case
    by (cases k) (auto simp: epoll_mod_event_def epoll_del_event_def split: option.splits)
qed simp

lemma apply_result_sockets:
  assumes out: "handler_outcome c r" and res: "apply_result ptr r s = Inr s'"
    and at: "heap s ptr = Some c" and inv: "sockets_inv s"
  shows "sockets_inv s'"
proof -
  obtain c' calls where r: "r = Inr (c', calls)"
    and s': "s' = fold (exec_call ptr) calls (s\<lparr>heap := (heap s)(ptr \<mapsto> c')\<rparr>)"
    using res by (auto simp: apply_result_def bind_res_Inr_iff)
  have "server_inv s'"
    using apply_result_safe [OF _ at out] res inv by (auto simp: sockets_inv_def)
  moreover have "status_flags s' = status_flags s" unfolding s' exec_calls_status by simp
  moreover have "conn_fd c' = conn_fd c" if "heap s' ptr = Some d" for d
    using out that unfolding r s'
    by (auto simp: stays_def same_conn_def arms_def closes_def close_calls_def)
  moreover have "heap s' q = Some d \<Longrightarrow> d = c' \<and> q = ptr \<or> q \<noteq> ptr \<and> heap s q = Some d" for q d
    unfolding s' by (auto dest!: exec_calls_heap split: if_splits)
  ultimately show ?thesis using inv at unfolding sockets_inv_def by metis
qed

lemma web_accept_sockets:
  assumes res: "web_accept io s = Inr s'" and all: "sockets_inv s"
  shows "sockets_inv s'"
proof -
  have inv: "server_inv s" using all by (simp add: sockets_inv_def)
  then show ?thesis
  proof (cases rule: web_accept_cases [where io = io])
    case (new fd c)
    with res accepted_safe(1) [OF inv new(2-4)] all show ?thesis
      by (auto simp: sockets_inv_def split: if_splits)
  qed (use res all in auto)
qed

lemma server_main_sockets:
  assumes main: "server_main b io = Inr (Event_loop s)" and fd: "new_fd (b_fds b) (b_socket b) \<noteq> - 1"
    and ep: "ep s \<noteq> - 1"
  shows "sockets_inv s"
proof -
  let ?fd = "new_fd (b_fds b) (b_socket b)"
  let ?fds = "insert (new_fd (insert ?fd (b_fds b)) (b_epoll b)) (insert ?fd (b_fds b))"
  have "new_fd ?fds (b_open b) = - 1 \<or> new_fd ?fds (b_open b) \<noteq> ?fd"
    by (auto simp: new_fd_def)
  with main fd ep settable_eval
  have "\<forall>ptr c. heap s ptr = Some c \<longrightarrow> status_flags s (conn_fd c) = O_RDWR OR O_NONBLOCK"
    by (auto simp: server_main_def bind_res_Inr_iff Let_def epoll_add_event_def add_socket_def
        add_file_def epoll_init_event_def setnonblocking_open split: if_splits)
  with server_main_inv [OF assms] show ?thesis by (simp add: sockets_inv_def)
qed

interpretation sockets: loop_invariant "\<lambda>_. True" sockets_inv
  by unfold_locales (auto intro: server_main_sockets web_accept_sockets
      apply_result_sockets read_request_outcome send_response_outcome)

lemma epoll_wait_empty: "epoll_set s = (\<lambda>_. None) \<Longrightarrow> epoll_wait s rs = []"
  by (induction s rs rule: epoll_wait.induct) simp_all

text \<open>The open descriptors when \<open>main\<close> calls \<open>epoll_create\<close>.\<close>

definition fds_with_listener :: "boot_io \<Rightarrow> int set" where
  "fds_with_listener b =
     (let fd = new_fd (b_fds b) (b_socket b) in if fd = - 1 then b_fds b else insert fd (b_fds b))"

subsection \<open>Properties\<close>

text \<open>
  C7: No call of the server blocks. In every reachable state the socket of every connection, the
  listening one included, is open for reading and writing, non-blocking, and has no other flag; so
  \<open>accept\<close>, \<open>recv\<close> and \<open>send\<close> return at once, and one slow client cannot stop the loop.
\<close>
theorem server_sockets_nonblocking:
  assumes "server_reach s" and "heap s ptr = Some c"
  shows "conn_fd c \<in> open_fds s \<and> status_flags s (conn_fd c) = O_RDWR OR O_NONBLOCK"
  using server_invD(2) [OF server_reach_inv [OF assms(1)] assms(2)] assms(2)
    sockets.run_keeps [OF assms(1) [unfolded server_reach_run]] by (auto simp: sockets_inv_def)

text \<open>
  \<open>setnonblocking\<close> reads the wrong flags. It asks for the descriptor flags (\<open>F_GETFD\<close>, of which there
  is only \<open>FD_CLOEXEC\<close>) and sets the status flags (\<open>F_SETFL\<close>): the descriptor becomes non-blocking and
  keeps its access mode, but loses every other status flag, \<open>O_APPEND\<close> and \<open>O_DIRECT\<close> among them.
  Its result is no status that could be restored.
\<close>
theorem setnonblocking_drops_flags:
  assumes "fd \<in> open_fds s" and "fd_flags s fd \<in> {0, FD_CLOEXEC}"
  shows "setnonblocking fd s = (fd_flags s fd, s\<lparr>status_flags := (status_flags s)(fd :=
    (status_flags s fd AND NOT settable_flags) OR O_NONBLOCK)\<rparr>)"
proof -
  have "(fd_flags s fd OR O_NONBLOCK) AND settable_flags = O_NONBLOCK"
    using assms(2) by (auto simp: FD_CLOEXEC_def O_NONBLOCK_def settable_flags_def)
  with assms(1) show ?thesis
    by (simp add: setnonblocking_def fcntl_getfd_def fcntl_setfl_def Let_def)
qed

text \<open>\<open>main\<close> does not look at the results of \<open>socket\<close>, \<open>epoll_create\<close> and \<open>fork\<close>. Without a listening
  socket or an epoll object it still enters the event loop (or the loop of the parent): nothing is
  registered, so no batch of events ever changes the state. When \<open>fork\<close> fails, \<open>main\<close> sleeps for ever
  like the parent, with no child that serves.
\<close>
theorem server_main_unchecked:
  assumes "io_gives_memory io"
  shows "(new_fd (b_fds b) (b_socket b) = - 1 \<and> - 1 \<notin> b_fds b \<or> new_fd (fds_with_listener b) (b_epoll b) = - 1 \<longrightarrow>
      (\<exists>s. server_main b io = Inr (if b_fork b = 0 then Event_loop s else Sleeps s) \<and>
        (\<forall>rs. ngx_epoll_process_events rs s = Inr s))) \<and>
    (b_fork b = - 1 \<longrightarrow> (\<exists>s. server_main b io = Inr (Sleeps s)))"
proof -
  obtain c where c: "initConnection (io_struct io) (io_read_event io) (io_write_event io)
      (io_buffer io) = Inr c" "read_event c = Unset_event"
    using initConnection_fresh [OF assms] by blast
  have "\<exists>s. server_main b io = Inr (if b_fork b = 0 then Event_loop s else Sleeps s) \<and>
      epoll_set s = (\<lambda>_. None)"
    if "new_fd (b_fds b) (b_socket b) = - 1 \<and> - 1 \<notin> b_fds b \<or> new_fd (fds_with_listener b) (b_epoll b) = - 1"
    using c that
    by (auto simp: server_main_def Let_def set_handler_def epoll_add_event_def add_file_def
        epoll_init_event_def add_socket_def fds_with_listener_def)
  moreover have "epoll_set s = (\<lambda>_. None) \<Longrightarrow> ngx_epoll_process_events rs s = Inr s" for s rs
    by (simp add: ngx_epoll_process_events_def epoll_wait_empty)
  moreover have "b_fork b = - 1 \<longrightarrow> (\<exists>s. server_main b io = Inr (Sleeps s))"
    using c by (simp add: server_main_def Let_def set_handler_def)
  ultimately show ?thesis by metis
qed

subsection \<open>Witnesses\<close>

theorem server_sockets_nonblocking_witness:
  "\<exists>s. server_reach s \<and> status_flags s 3 = 0x802"
proof -
  obtain s where s: "server_reach s" "epoll_set s 3 = Some (0, [EPOLLIN, EPOLLERR])"
    using demo_boot by blast
  obtain c where c: "heap s 0 = Some c" "conn_fd c = 3"
    using server_invD_epoll [OF server_reach_inv [OF s(1)] s(2)] by blast
  have "status_flags s 3 = 0x802"
    using server_sockets_nonblocking [OF s(1) c(1)] c(2) by (simp add: O_RDWR_def O_NONBLOCK_def)
  with s(1) show ?thesis by blast
qed

theorem setnonblocking_drops_flags_witness:
  "\<exists>s. status_flags s 4 = 0x402 \<and> status_flags (snd (setnonblocking 4 s)) 4 = 0x802"
proof -
  obtain s where "server_reach s" using demo_boot by blast
  define t where "t = s\<lparr>open_fds := {4}, fd_flags := (\<lambda>_. FD_CLOEXEC), status_flags := (\<lambda>_. 0x402)\<rparr>"
  have "status_flags t 4 = 0x402 \<and> status_flags (snd (setnonblocking 4 t)) 4 = 0x802"
    using setnonblocking_drops_flags [of 4 t]
    by (simp add: t_def settable_flags_def O_NONBLOCK_def)
  then show ?thesis by blast
qed

theorem server_main_unchecked_witness:
  "\<exists>s. server_main (demo_start\<lparr>b_socket := - 1\<rparr>) demo_io = Inr (Event_loop s) \<and>
    ngx_epoll_process_events [(3, [EPOLLIN], demo_io)] s = Inr s"
  using server_main_unchecked [of demo_io "demo_start\<lparr>b_socket := - 1\<rparr>"]
  by (auto simp: demo_io_def demo_start_def io_gives_memory_def new_fd_def)

end
