(* ===== verification/Server_Phases.thy ===== *)
theory Server_Phases
  imports Server_Serving
begin

section \<open>The lives of the connections\<close>

text \<open>
  The abstract server: for every connection that was ever made, in the order of their addresses, which
  no two share, the phase of its life. The listener accepts; a connection waits for its request,
  then for its answer to be sent, and is closed; one that epoll did not take is lost. One event is
  one step of the connection that it is reported for, and of no other.
\<close>

datatype life = Accepting | Receiving | Answering | Closed | Lost

definition phase_of :: "ev_flag list \<Rightarrow> life" where
  "phase_of flags = (if EPOLLOUT \<in> set flags then Answering
     else if EPOLLET \<in> set flags then Receiving else Accepting)"

definition life_of :: "server \<Rightarrow> nat \<Rightarrow> life" where
  "life_of s p = (case heap s p of
       None \<Rightarrow> Closed
     | Some c \<Rightarrow> (case epoll_set s (conn_fd c) of
           None \<Rightarrow> Lost
         | Some (q, flags) \<Rightarrow> phase_of flags))"

definition lives :: "server \<Rightarrow> life list" where
  "lives s = map (life_of s) [0..<next_addr s]"

text \<open>What an event at \<open>p\<close> may do. The outcome of \<open>EPOLL_CTL_ADD\<close> and of \<open>send\<close> is in \<open>io\<close>.\<close>

inductive life_step :: "nat \<times> ev_flag list \<times> io \<Rightarrow> life list \<Rightarrow> life list \<Rightarrow> bool" where
  accepts: "p < length L \<Longrightarrow> L ! p = Accepting \<Longrightarrow> EPOLLIN \<in> set evs \<Longrightarrow>
    life_step (p, evs, io) L (L @ [if io_epoll_add io then Receiving else Lost])"
| refuses: "p < length L \<Longrightarrow> L ! p = Accepting \<Longrightarrow> EPOLLIN \<in> set evs \<Longrightarrow>
    life_step (p, evs, io) L L"
| incomplete: "p < length L \<Longrightarrow> L ! p = Receiving \<Longrightarrow> EPOLLIN \<in> set evs \<Longrightarrow>
    life_step (p, evs, io) L L"
| parsed: "p < length L \<Longrightarrow> L ! p = Receiving \<Longrightarrow> EPOLLIN \<in> set evs \<Longrightarrow>
    life_step (p, evs, io) L (L[p := Answering])"
| hangs_up: "p < length L \<Longrightarrow> L ! p = Receiving \<Longrightarrow> EPOLLIN \<in> set evs \<Longrightarrow>
    life_step (p, evs, io) L (L[p := Closed])"
| answers: "p < length L \<Longrightarrow> L ! p = Answering \<Longrightarrow> EPOLLOUT \<in> set evs \<Longrightarrow>
    0 \<le> io_send1 io \<Longrightarrow> life_step (p, evs, io) L (L[p := Closed])"
| send_fails: "p < length L \<Longrightarrow> L ! p = Answering \<Longrightarrow> EPOLLOUT \<in> set evs \<Longrightarrow>
    io_send1 io < 0 \<Longrightarrow> life_step (p, evs, io) L L"
| no_event: "p < length L \<Longrightarrow>
    L ! p \<in> {Accepting, Receiving} \<and> EPOLLIN \<notin> set evs \<or> L ! p = Answering \<and> EPOLLOUT \<notin> set evs \<Longrightarrow>
    life_step (p, evs, io) L L"

inductive life_run :: "(nat \<times> ev_flag list \<times> io) list \<Rightarrow> life list \<Rightarrow> life list \<Rightarrow> bool" where
  none: "life_run [] L L"
| event: "life_step ev L L1 \<Longrightarrow> life_run evs L1 L2 \<Longrightarrow> life_run (ev # evs) L L2"

inductive_cases life_stepE: "life_step (p, evs, io) L L'"
inductive_cases life_runE: "life_run (ev # evs) L L'"
inductive_simps life_run_Nil [simp]: "life_run [] L L'"

subsection \<open>What the abstract steps allow\<close>

text \<open>The moves of one life; a life that ended or was lost stays so, and there is no way back.\<close>

definition life_move :: "life \<Rightarrow> life \<Rightarrow> bool" where
  "life_move x y \<longleftrightarrow> y = x \<or> x = Receiving \<and> y \<in> {Answering, Closed} \<or> x = Answering \<and> y = Closed"

definition forward :: "nat set \<Rightarrow> life list \<Rightarrow> life list \<Rightarrow> bool" where
  "forward P L L' \<longleftrightarrow> length L \<le> length L' \<and>
     (\<forall>q < length L. if q \<in> P then life_move (L ! q) (L' ! q) else L' ! q = L ! q) \<and>
     (\<forall>q. length L \<le> q \<and> q < length L' \<longrightarrow> L' ! q \<in> {Receiving, Lost})"

lemma life_step_forward: "life_step (p, evs, io) L L' \<Longrightarrow> p < length L \<and> forward {p} L L'"
  by (erule life_stepE)
    (auto simp: forward_def life_move_def nth_append nth_list_update less_Suc_eq)

lemma forward_trans:
  assumes "forward P L L1" and "forward Q L1 L2" and "P \<inter> Q = {}" and "\<forall>q \<in> Q. q < length L"
  shows "forward (P \<union> Q) L L2"
  unfolding forward_def
proof (intro conjI allI impI)
  show "length L \<le> length L2" using assms(1,2) by (simp add: forward_def)
next
  fix q assume q: "q < length L"
  have one: "if q \<in> P then life_move (L ! q) (L1 ! q) else L1 ! q = L ! q"
    using assms(1) q by (simp add: forward_def)
  have "q < length L1" using assms(1) q by (simp add: forward_def)
  then have two: "if q \<in> Q then life_move (L1 ! q) (L2 ! q) else L2 ! q = L1 ! q"
    using assms(2) by (simp add: forward_def)
  have "\<not> (q \<in> P \<and> q \<in> Q)" using assms(3) by blast
  with one two show "if q \<in> P \<union> Q then life_move (L ! q) (L2 ! q) else L2 ! q = L ! q"
    by (auto split: if_splits)
next
  fix q assume q: "length L \<le> q \<and> q < length L2"
  then have "q \<notin> Q" using assms(4) by auto
  with q assms(1,2) show "L2 ! q \<in> {Receiving, Lost}"
    by (cases "q < length L1") (auto simp: forward_def)
qed

lemma life_run_forward:
  "life_run evs L L' \<Longrightarrow> distinct (map fst evs) \<Longrightarrow> \<forall>p \<in> set (map fst evs). p < length L \<Longrightarrow>
    forward (set (map fst evs)) L L'"
proof (induction rule: life_run.induct)
  case (event ev L L1 evs L2)
  obtain p es io where ev: "ev = (p, es, io)" by (cases ev)
  have one: "forward {p} L L1" using life_step_forward event.hyps(1) ev by blast
  then have le: "length L \<le> length L1" by (simp add: forward_def)
  have "\<forall>q \<in> set (map fst evs). q < length L1"
    using event.prems(2) less_le_trans [OF _ le] by simp
  then have "forward (set (map fst evs)) L1 L2" using event.IH event.prems(1) by simp
  with forward_trans [OF one this] event.prems ev show ?case by auto
qed (auto simp: forward_def)

subsection \<open>Simulation\<close>

lemma phase_of_simps [simp]:
  "phase_of [EPOLLIN, EPOLLERR] = Accepting" "phase_of [EPOLLIN, EPOLLERR, EPOLLET] = Receiving"
  "phase_of [EPOLLOUT, EPOLLERR] = Answering"
  by (simp_all add: phase_of_def)

lemma length_lives [simp]: "length (lives s) = next_addr s"
  by (simp add: lives_def)

lemma lives_nth [simp]: "p < next_addr s \<Longrightarrow> lives s ! p = life_of s p"
  by (simp add: lives_def)

lemma life_of_Some [simp]:
  "heap s p = Some c \<Longrightarrow> epoll_set s (conn_fd c) = Some (q, flags) \<Longrightarrow> life_of s p = phase_of flags"
  by (simp add: life_of_def)

text \<open>An event at \<open>p\<close> changes the life of \<open>p\<close> alone.\<close>

lemma life_of_other:
  assumes "keeps_others p s s'" and "heap s' q = None \<longleftrightarrow> heap s q = None" and "q \<noteq> p"
  shows "life_of s' q = life_of s q"
  using assms by (cases "heap s q") (auto simp: life_of_def keeps_others_def)

lemma lives_update:
  assumes "keeps_others p s s'" and "next_addr s' = next_addr s" and "p < next_addr s"
    and "\<And>q. q \<noteq> p \<Longrightarrow> heap s' q = None \<longleftrightarrow> heap s q = None"
  shows "lives s' = (lives s)[p := life_of s' p]"
proof (rule nth_equalityI)
  fix q assume "q < length (lives s')"
  then have "q < next_addr s" using assms(2) by simp
  then show "lives s' ! q = (lives s)[p := life_of s' p] ! q"
    using life_of_other [OF assms(1,4), of q] assms(2) by (cases "q = p") auto
qed (simp add: assms(2))

lemma apply_result_frame:
  assumes at: "heap s ptr = Some c" and out: "handler_outcome c (Inr (c', calls))"
    and s': "s' = fold (exec_call ptr) calls (s\<lparr>heap := (heap s)(ptr \<mapsto> c')\<rparr>)"
  shows "next_addr s' = next_addr s" and "q \<noteq> ptr \<Longrightarrow> heap s' q = heap s q"
proof -
  consider "stays c (c', calls)" | "arms c (c', calls)"
    | sends where "calls = sends @ close_calls c" "\<forall>k \<in> set sends. is_send (conn_fd c) k"
    using out by (auto simp: closes_def)
  then have "next_addr s' = next_addr s \<and> (q \<noteq> ptr \<longrightarrow> heap s' q = heap s q)"
  proof cases
    case 1
    with exec_sends [of calls "conn_fd c" ptr "s\<lparr>heap := (heap s)(ptr \<mapsto> c')\<rparr>"] show ?thesis
      by (simp add: s' stays_def)
  next
    case 2
    then show ?thesis by (auto simp: s' arms_def epoll_mod_event_def split: option.splits)
  next
    case 3
    with exec_sends [OF 3(2), of ptr "s\<lparr>heap := (heap s)(ptr \<mapsto> c')\<rparr>"] show ?thesis
      by (simp add: s' close_calls_def epoll_del_event_def)
  qed
  then show "next_addr s' = next_addr s" "q \<noteq> ptr \<Longrightarrow> heap s' q = heap s q" by blast+
qed

text \<open>What a handler of a connection does to its life, by the way it ends.\<close>

lemma outcome_life:
  assumes at: "heap s ptr = Some c" and reg: "epoll_set s (conn_fd c) = Some (ptr, flags)"
    and s': "s' = fold (exec_call ptr) calls (s\<lparr>heap := (heap s)(ptr \<mapsto> c')\<rparr>)"
  shows "stays c (c', calls) \<Longrightarrow> life_of s' ptr = phase_of flags"
    and "arms c (c', calls) \<Longrightarrow> life_of s' ptr = Answering"
    and "closes c (c', calls) \<Longrightarrow> life_of s' ptr = Closed"
proof -
  assume "stays c (c', calls)"
  then show "life_of s' ptr = phase_of flags"
    using reg exec_sends [of calls "conn_fd c" ptr "s\<lparr>heap := (heap s)(ptr \<mapsto> c')\<rparr>"]
    by (auto simp: stays_def same_conn_def s' life_of_def)
next
  assume "arms c (c', calls)"
  with reg show "life_of s' ptr = Answering"
    by (auto simp: arms_def s' epoll_mod_event_def life_of_def)
next
  assume "closes c (c', calls)"
  then show "life_of s' ptr = Closed"
    by (auto simp: s' closes_def close_calls_def life_of_def)
qed

lemma apply_lives:
  assumes inv: "server_inv s" and at: "heap s ptr = Some c"
    and reg: "epoll_set s (conn_fd c) = Some (ptr, flags)"
    and out: "handler_outcome c r" and res: "apply_result ptr r s = Inr s'"
  obtains x where "r = Inr x" "lives s' = (lives s)[ptr := life_of s' ptr]"
    "stays c x \<and> lives s' = lives s \<or> arms c x \<and> lives s' = (lives s)[ptr := Answering] \<or>
      closes c x \<and> lives s' = (lives s)[ptr := Closed]"
proof -
  obtain c' calls where r: "r = Inr (c', calls)"
    and s': "s' = fold (exec_call ptr) calls (s\<lparr>heap := (heap s)(ptr \<mapsto> c')\<rparr>)"
    using res by (auto simp: apply_result_def bind_res_Inr_iff)
  note frame = apply_result_frame [OF at out [unfolded r] s']
  have keeps: "keeps_others ptr s s'" using apply_result_safe [OF inv at out] res by simp
  have p: "ptr < next_addr s" using server_invD(1) [OF inv at] .
  have upd: "lives s' = (lives s)[ptr := life_of s' ptr]"
    using lives_update [OF keeps frame(1) p] frame(2) by simp
  moreover have "(lives s)[ptr := phase_of flags] = lives s"
    using at reg p by (intro list_update_same_conv [THEN iffD2]) auto
  ultimately show thesis
    using that [OF r upd] outcome_life [OF at reg s'] out r by auto
qed

lemma accept_lives:
  assumes inv: "server_inv s" and res: "web_accept io s = Inr s'"
  shows "lives s' = lives s \<or> lives s' = lives s @ [if io_epoll_add io then Receiving else Lost]"
  using inv
proof (cases rule: web_accept_cases [where io = io])
  case (new fd c)
  with res have s': "s' = accepted (io_epoll_add io) fd c s" by simp
  have none: "epoll_set s fd = None" by (rule closed_unregistered [OF inv new(2)])
  have other: "life_of s' q = life_of s q" if "q < next_addr s" for q
  proof -
    have "conn_fd d \<noteq> fd" if "heap s q = Some d" for d
      using server_invD(2) [OF inv that] new(2) by blast
    then show ?thesis using that by (cases "heap s q") (auto simp: s' life_of_def)
  qed
  have "life_of s' (next_addr s) = (if io_epoll_add io then Receiving else Lost)"
    using none new(3) by (simp add: s' life_of_def)
  with other show ?thesis by (simp add: s' lives_def)
qed (use res in auto)

lemma read_never_answers: "send_response r1 r2 c = Inr x \<Longrightarrow> \<not> arms c x"
  by (auto simp: send_response_def Let_def arms_def split: if_splits)

lemma send_outcome:
  assumes "send_response r1 r2 c = Inr x"
  shows "if r1 < 0 then stays c x \<and> \<not> closes c x else closes c x \<and> \<not> stays c x"
proof -
  have "stays c x" if "r1 < 0"
    using assms that http_res_hdr_short
    by (auto simp: send_response_def Let_def stays_def same_conn_def)
  moreover have "\<not> closes c x" if "r1 < 0"
  proof
    assume "closes c x"
    then have "Free_conn \<in> set (snd x)" by (auto simp: closes_def close_calls_def)
    with assms that http_res_hdr_short show False by (auto simp: send_response_def Let_def)
  qed
  moreover have "Free_conn \<in> set (snd x)" if "\<not> r1 < 0"
    using assms that http_res_hdr_short by (auto simp: send_response_def Let_def close_conn_def)
  then have "\<not> stays c x" if "\<not> r1 < 0"
    using that by (auto simp: stays_def intro!: bexI [of _ Free_conn])
  moreover have "closes c x" if "\<not> r1 < 0"
    using send_response_outcome [of c r1 r2] assms read_never_answers [OF assms] that
      \<open>\<And>b. \<not> r1 < 0 \<Longrightarrow> \<not> stays c x\<close> by simp
  ultimately show ?thesis by simp
qed

lemma dispatch_lives:
  assumes inv: "server_inv s" and pend: "pending s (ptr, evs, io)"
    and res: "dispatch (ptr, evs, io) s = Inr s'"
  shows "life_step (ptr, evs, io) (lives s) (lives s')"
proof -
  from pend obtain c flags where c: "heap s ptr = Some c"
    and fl: "epoll_set s (conn_fd c) = Some (ptr, flags)" "set evs \<subseteq> insert EPOLLERR (set flags)"
    by (auto simp: pending_def)
  have p: "ptr < length (lives s)" and ph: "lives s ! ptr = phase_of flags"
    using server_invD(1) [OF inv c] c fl(1) by simp_all
  from server_invD(3) [OF inv c fl(1)]
  consider (listener) "flags = [EPOLLIN, EPOLLERR]" "read_event c = Handler Web_accept"
    | (receiving) "flags = [EPOLLIN, EPOLLERR, EPOLLET]" "read_event c = Handler Read_request"
    | (answering) "flags = [EPOLLOUT, EPOLLERR]" "write_event c = Handler Send_response"
    by (auto simp: role_def)
  then show ?thesis
  proof cases
    case listener
    then have run: "if EPOLLIN \<in> set evs then web_accept io s = Inr s' else s' = s"
      using res c fl(2) by (auto simp: dispatch_def call_handler_def split: if_splits)
    show ?thesis
    proof (cases "EPOLLIN \<in> set evs")
      case True
      have L: "lives s ! ptr = Accepting" using ph listener(1) by simp
      from True run have "web_accept io s = Inr s'" by simp
      from accept_lives [OF inv this] accepts [OF p L True, of io] refuses [OF p L True, of io]
      show ?thesis by metis
    next
      case False
      have "lives s ! ptr = Accepting" using ph listener(1) by simp
      with False no_event [OF p, of evs io] run show ?thesis by simp
    qed
  next
    case receiving
    then have run: "if EPOLLIN \<in> set evs
        then apply_result ptr (read_request (io_realloc io) (io_arrivals io) c) s = Inr s' else s' = s"
      using res c fl(2) by (auto simp: dispatch_def call_handler_def split: if_splits)
    show ?thesis
    proof (cases "EPOLLIN \<in> set evs")
      case True
      with run obtain x where "lives s' = lives s \<or> lives s' = (lives s)[ptr := Answering] \<or>
          lives s' = (lives s)[ptr := Closed]"
        using apply_lives [OF inv c fl(1) read_request_outcome] by (metis (full_types))
      moreover have L: "lives s ! ptr = Receiving" using ph receiving(1) by simp
      ultimately show ?thesis
        using incomplete [OF p L True, of io] parsed [OF p L True, of io] hangs_up [OF p L True, of io]
        by metis
    next
      case False
      have "lives s ! ptr = Receiving" using ph receiving(1) by simp
      with False no_event [OF p, of evs io] run show ?thesis by simp
    qed
  next
    case answering
    then have run: "if EPOLLOUT \<in> set evs
        then apply_result ptr (send_response (io_send1 io) (io_send2 io) c) s = Inr s' else s' = s"
      using res c fl(2) by (auto simp: dispatch_def call_handler_def split: if_splits)
    show ?thesis
    proof (cases "EPOLLOUT \<in> set evs")
      case True
      with run obtain x where x: "send_response (io_send1 io) (io_send2 io) c = Inr x"
        "stays c x \<and> lives s' = lives s \<or> arms c x \<and> lives s' = (lives s)[ptr := Answering] \<or>
          closes c x \<and> lives s' = (lives s)[ptr := Closed]"
        using apply_lives [OF inv c fl(1) send_response_outcome] by (metis (full_types))
      have "if io_send1 io < 0 then lives s' = lives s else lives s' = (lives s)[ptr := Closed]"
        using x(2) send_outcome [OF x(1)] read_never_answers [OF x(1)] by (auto split: if_splits)
      moreover have L: "lives s ! ptr = Answering" using ph answering(1) by simp
      ultimately show ?thesis
        using answers [OF p L True, of io] send_fails [OF p L True, of io] by (metis not_less)
    next
      case False
      have "lives s ! ptr = Answering" using ph answering(1) by simp
      with False no_event [OF p, of evs io] run show ?thesis by simp
    qed
  qed
qed

lemma batch_lives:
  "server_inv s \<Longrightarrow> \<forall>ev \<in> set evs. pending s ev \<Longrightarrow> distinct (map fst evs) \<Longrightarrow>
    process_batch evs s = Inr s' \<Longrightarrow> life_run evs (lives s) (lives s')"
proof (induction evs arbitrary: s)
  case (Cons ev evs)
  obtain ptr es io where ev: "ev = (ptr, es, io)" by (cases ev)
  from Cons.prems(4) obtain s1 where s1: "dispatch ev s = Inr s1" "process_batch evs s1 = Inr s'"
    by (auto simp: bind_res_Inr_iff)
  have pend: "pending s (ptr, es, io)" using Cons.prems(2) ev by simp
  have safe: "server_inv s1" "keeps_others ptr s s1"
    using dispatch_safe [OF Cons.prems(1) pend] s1(1) ev by simp_all
  have "life_run evs (lives s1) (lives s')"
    by (rule Cons.IH [OF safe(1) pending_others [OF Cons.prems(2,3) ev safe(2)] _ s1(2)])
      (use Cons.prems(3) in simp)
  moreover have "life_step ev (lives s) (lives s1)"
    using dispatch_lives [OF Cons.prems(1) pend] s1(1) ev by simp
  ultimately show ?case by (rule life_run.event [rotated])
qed (simp add: life_run.none)

lemma turn_lives:
  assumes "server_inv s" and "distinct (map fst rs)" and "ngx_epoll_process_events rs s = Inr s'"
  shows "life_run (epoll_wait s rs) (lives s) (lives s')"
    and "forward (set (map fst (epoll_wait s rs))) (lives s) (lives s')"
proof -
  show run: "life_run (epoll_wait s rs) (lives s) (lives s')"
    using assms batch_lives [OF assms(1) _ epoll_wait_distinct [OF assms(1,2)]]
    by (auto simp: ngx_epoll_process_events_def intro: epoll_wait_pending)
  have "p < length (lives s)" if "(p, es, io) \<in> set (epoll_wait s rs)" for p es io
    using epoll_wait_pending [OF assms(1) that] server_invD(1) [OF assms(1)]
    by (auto simp: pending_def)
  then show "forward (set (map fst (epoll_wait s rs))) (lives s) (lives s')"
    using life_run_forward [OF run epoll_wait_distinct [OF assms(1,2)]] by fastforce
qed

text \<open>The listener is the first connection made, and the only one that accepts.\<close>

definition one_listener :: "life list \<Rightarrow> bool" where
  "one_listener L \<longleftrightarrow> 0 < length L \<and> L ! 0 \<in> {Accepting, Lost} \<and>
     (\<forall>p < length L. L ! p = Accepting \<longrightarrow> p = 0)"

lemma forward_listener:
  assumes "forward P L L'" and "one_listener L"
  shows "one_listener L' \<and> L' ! 0 = L ! 0"
proof -
  have pos: "0 < length L" "L ! 0 \<in> {Accepting, Lost}" using assms(2) by (simp_all add: one_listener_def)
  have "life_move (L ! q) (L' ! q)" if "q < length L" for q
    using assms(1) that by (auto simp: forward_def life_move_def split: if_splits)
  note moves = this [unfolded life_move_def]
  have first: "L' ! 0 = L ! 0" using moves [OF pos(1)] pos(2) by auto
  have "p = 0" if "p < length L'" "L' ! p = Accepting" for p
  proof (cases "p < length L")
    case True
    then have "L ! p = Accepting" using moves [OF True] that(2) by auto
    with True assms(2) show ?thesis by (simp add: one_listener_def)
  next
    case False
    then have "L' ! p \<in> {Receiving, Lost}"
      using assms(1) that(1) unfolding forward_def by (meson not_less)
    with that(2) show ?thesis by auto
  qed
  moreover have "0 < length L'" using assms(1) pos(1) by (auto simp: forward_def)
  ultimately show ?thesis using first pos(2) by (simp add: one_listener_def)
qed

lemma boot_lives:
  assumes "server_main b io = Inr (Event_loop s)" and "new_fd (b_fds b) (b_socket b) \<noteq> - 1"
    and "ep s \<noteq> - 1"
  shows "lives s = [if io_epoll_add io then Accepting else Lost]"
  using assms
  by (auto simp: server_main_def bind_res_Inr_iff Let_def epoll_add_event_def add_socket_def
      epoll_init_event_def add_file_def lives_def life_of_def split: if_splits)

lemma reach_listener: "server_reach s \<Longrightarrow> one_listener (lives s)"
proof (induction rule: server_reach.induct)
  case (boot b io s)
  from boot_lives [OF this] show ?case by (simp add: one_listener_def)
next
  case (turn s rs s')
  from forward_listener [OF turn_lives(2) [OF server_reach_inv [OF turn.hyps(1)] turn.hyps(2,3)] turn.IH]
  show ?case by simp
qed

subsection \<open>Property\<close>

text \<open>
  C6: The loop refines the life of its connections. Every turn, whatever batch is reported, is a run of
  the abstract server over exactly the events of the batch, one step each, in order. So in a turn a
  connection that no event is reported for does not move; one that waits for its request keeps
  waiting, is armed for the answer or is closed; one that waits for its answer keeps waiting or is
  closed; no connection goes back, skips its request, or moves again once it is closed or lost; a new
  one waits for its request (or is lost, when epoll did not take it). The listener is the first
  connection, the only one that accepts, and every turn keeps it.
\<close>
theorem server_refines_phases:
  assumes "server_reach s" and "distinct (map fst rs)" and "ngx_epoll_process_events rs s = Inr s'"
  shows "life_run (epoll_wait s rs) (lives s) (lives s') \<and> next_addr s \<le> next_addr s' \<and>
    (\<forall>p < next_addr s. (life_of s p, life_of s' p) \<in>
      Id \<union> {(Receiving, Answering), (Receiving, Closed), (Answering, Closed)} \<and>
      (p \<notin> set (map fst (epoll_wait s rs)) \<longrightarrow> life_of s' p = life_of s p)) \<and>
    (\<forall>p. next_addr s \<le> p \<and> p < next_addr s' \<longrightarrow> life_of s' p \<in> {Receiving, Lost}) \<and>
    life_of s 0 \<in> {Accepting, Lost} \<and> life_of s' 0 = life_of s 0 \<and>
    (\<forall>p < next_addr s. life_of s p = Accepting \<longrightarrow> p = 0)"
proof -
  note run = turn_lives [OF server_reach_inv [OF assms(1)] assms(2,3)]
  note listener = reach_listener [OF assms(1)] forward_listener [OF run(2) reach_listener [OF assms(1)]]
  have old: "(life_of s p, life_of s' p) \<in>
      Id \<union> {(Receiving, Answering), (Receiving, Closed), (Answering, Closed)} \<and>
      (p \<notin> set (map fst (epoll_wait s rs)) \<longrightarrow> life_of s' p = life_of s p)"
    if "p < next_addr s" for p
  proof -
    have "p < next_addr s'" using that run(2) by (simp add: forward_def)
    with that run(2) show ?thesis
      by (auto simp: forward_def life_move_def split: if_splits)
  qed
  have "next_addr s \<le> next_addr s'" using run(2) by (simp add: forward_def)
  moreover have "life_of s' p \<in> {Receiving, Lost}" if "next_addr s \<le> p" "p < next_addr s'" for p
  proof -
    have "lives s' ! p \<in> {Receiving, Lost}" using run(2) that by (simp add: forward_def)
    with that(2) show ?thesis by simp
  qed
  moreover have "life_of s 0 \<in> {Accepting, Lost} \<and> life_of s' 0 = life_of s 0 \<and>
      (\<forall>p < next_addr s. life_of s p = Accepting \<longrightarrow> p = 0)"
    using listener lives_nth [of 0 s] lives_nth [of 0 s'] by (auto simp: one_listener_def)
  ultimately show ?thesis using run(1) old by blast
qed

theorem server_refines_phases_witness:
  "\<exists>s s'. server_reach s \<and> ngx_epoll_process_events [(3, [EPOLLIN], demo_io)] s = Inr s' \<and>
    lives s = [Accepting] \<and> lives s' = [Accepting, Receiving]"
proof -
  obtain s where s: "server_reach s" "epoll_set s 3 = Some (0, [EPOLLIN, EPOLLERR])"
    "open_fds s = {0, 1, 2, 3, 4}" "next_addr s = 1" using demo_boot by blast
  obtain lc where "heap s 0 = Some lc" "conn_fd lc = 3"
    using server_invD_epoll [OF server_reach_inv [OF s(1)] s(2)] by blast
  with s(2,4) have l: "lives s = [Accepting]" by (simp add: lives_def life_of_def)
  obtain s' c where turn: "ngx_epoll_process_events [(3, [EPOLLIN], demo_io)] s = Inr s'"
    and c: "heap s' 1 = Some c"
    using accept_turn [OF server_reach_inv [OF s(1)] s(2), of demo_io] s(3,4)
    by (auto simp: demo_io_def io_gives_memory_def)
  have w: "epoll_wait s [(3, [EPOLLIN], demo_io)] = [(0, [EPOLLIN], demo_io)]"
    using s(2) by (simp add: report_events_def)
  have "life_run [(0, [EPOLLIN], demo_io)] [Accepting] (lives s')"
    using server_refines_phases [OF s(1) _ turn] l w by simp
  then have "lives s' = [Accepting] \<or> lives s' = [Accepting, Receiving]"
    by (auto elim!: life_runE life_stepE simp: demo_io_def)
  moreover have "1 < next_addr s'"
    using server_invD(1) [OF server_reach_inv [OF server_reach.turn [OF s(1) _ turn]] c] by simp
  then have "length (lives s') \<noteq> length [Accepting]" by simp
  then have "lives s' \<noteq> [Accepting]" by metis
  ultimately show ?thesis using s(1) turn l by blast
qed

end
