(* ===== verification/Server_Progress.thy ===== *)
theory Server_Progress
  imports Server_Serving Loop_Invariants
begin

section \<open>The server keeps running\<close>

text \<open>
  The faults of the server all come from the requests on which the parser or the buffer go wrong, and
  from failed allocations. With clients that send well-formed requests of at most 512 bytes at once,
  or close, the loop never ends: a connection that waits for its request is fresh, and every handler
  returns.
\<close>

text \<open>What a well-behaved client sends, and memory.\<close>

definition sends_request :: "io \<Rightarrow> bool" where
  "sends_request io \<longleftrightarrow> (\<exists>chunks m u v hs body. arrives_whole False io chunks \<and>
     concat chunks = request_text m u v hs @ crlf [] @ body \<and>
     request_shape m u v hs \<and> request_fits m u v hs)"

definition well_behaved :: "io \<Rightarrow> bool" where
  "well_behaved io \<longleftrightarrow> io_gives_memory io \<and> (io_arrivals io = [Peer_closed] \<or> sends_request io)"

definition ready :: "web_connection \<Rightarrow> bool" where
  "ready c \<longleftrightarrow> (read_event c = Handler Read_request \<longrightarrow> fresh c)"

text \<open>A step that succeeds, keeps the invariants and leaves the other connections alone.\<close>

definition goes_on :: "nat \<Rightarrow> server \<Rightarrow> server res \<Rightarrow> bool" where
  "goes_on ptr s r \<longleftrightarrow> (\<exists>s'. r = Inr s' \<and> server_inv s' \<and> keeps_others ptr s s' \<and>
     for_all_connections ready s')"

lemma goes_onI:
  "safe_step ptr s r \<Longrightarrow> r = Inr s' \<Longrightarrow> for_all_connections ready s' \<Longrightarrow> goes_on ptr s r"
  by (auto simp: goes_on_def)

lemma apply_goes_on:
  assumes inv: "server_inv s" and c: "heap s ptr = Some c" and all: "for_all_connections ready s"
    and out: "handler_outcome c r" and r: "r = Inr (c', calls)" and "ready c'"
  shows "goes_on ptr s (apply_result ptr r s)"
proof -
  obtain s' where s': "apply_result ptr r s = Inr s'" by (simp add: apply_result_def r)
  then have "for_all_connections ready s'"
    by (rule apply_result_for_all) (use all r \<open>ready c'\<close> in auto)
  with apply_result_safe [OF inv c out] s' show ?thesis by (intro goes_onI)
qed

lemma accept_goes_on:
  assumes inv: "server_inv s" and all: "for_all_connections ready s" and mem: "io_gives_memory io"
  shows "goes_on ptr s (web_accept io s)"
proof (cases "new_fd (open_fds s) (io_accept io) = - 1")
  case True
  with inv all show ?thesis by (simp add: web_accept_def Let_def goes_on_def)
next
  case False
  let ?fd = "new_fd (open_fds s) (io_accept io)"
  have new: "?fd \<notin> open_fds s" using False by (auto simp: new_fd_def split: if_splits)
  obtain c where c: "initConnection (io_struct io) (io_read_event io) (io_write_event io)
      (io_buffer io) = Inr c" "fresh c" "read_event c = Unset_event"
    using initConnection_fresh [OF mem] by blast
  let ?c = "c\<lparr>conn_fd := ?fd, conn_state := READ, read_event := Handler Read_request\<rparr>"
  have "web_accept io s = Inr (accepted (io_epoll_add io) ?fd ?c s)"
    by (rule web_accept_accepted [OF refl False closed_unregistered [OF inv new]
          server_inv_ep [OF inv] c(1)]) (simp add: c(3) set_handler_def)
  moreover have "for_all_connections ready (accepted (io_epoll_add io) ?fd ?c s)"
    using all c(2) by (auto simp: for_all_connections_def ready_def fresh_def fields_ok_def has_events_def)
  ultimately show ?thesis using web_accept_safe [OF inv] by (intro goes_onI)
qed

lemma read_goes_on:
  assumes inv: "server_inv s" and c: "heap s ptr = Some c" and all: "for_all_connections ready s"
    and handler: "read_event c = Handler Read_request" and io: "well_behaved io"
  shows "goes_on ptr s (apply_result ptr (read_request (io_realloc io) (io_arrivals io) c) s)"
proof -
  have fresh: "fresh c" using for_all_connectionsD [OF all c] handler by (simp add: ready_def)
  note on = apply_goes_on [OF inv c all read_request_outcome]
  show ?thesis
  proof (cases "io_arrivals io = [Peer_closed]")
    case True
    obtain blk where buf: "querybuf c = Some blk" "length blk = 1024" "query_end_index c = int 0"
      "query_remain_len c = 1024 - int 0" using fresh by (auto simp: fresh_def)
    have "read_request (io_realloc io) (io_arrivals io) c = Inr (filled blk 0 [] c, close_calls c)"
      using read_request_closed [OF buf, of "[]"] True by simp
    then show ?thesis
      by (rule on) (use fresh buf in \<open>simp add: ready_def fresh_def filled_def fields_ok_def has_events_def\<close>)
  next
    case False
    with io obtain chunks m u v hs body where req: "arrives_whole False io chunks"
      "concat chunks = request_text m u v hs @ crlf [] @ body"
      "request_shape m u v hs" "request_fits m u v hs"
      by (auto simp: well_behaved_def sends_request_def)
    obtain c1 where "read_request (io_realloc io) (io_arrivals io) c =
        Inr (armed c1, [Epoll_mod (conn_fd c) [EPOLLOUT, EPOLLERR]])"
      using read_request_armed [OF fresh req(1) _ req(2-4)] by blast
    then show ?thesis by (rule on) (simp add: ready_def armed_def)
  qed
qed

lemma send_goes_on:
  assumes "server_inv s" and "heap s ptr = Some c" and "for_all_connections ready s"
  shows "goes_on ptr s (apply_result ptr (send_response r1 r2 c) s)"
proof -
  have "\<exists>calls. send_response r1 r2 c = Inr (c, calls)"
    using http_res_hdr_short by (simp add: send_response_def Let_def)
  with apply_goes_on [OF assms send_response_outcome] for_all_connectionsD [OF assms(3,2)]
  show ?thesis by blast
qed

lemma dispatch_goes_on:
  assumes inv: "server_inv s" and all: "for_all_connections ready s"
    and pend: "pending s (ptr, evs, io)" and io: "well_behaved io"
  shows "goes_on ptr s (dispatch (ptr, evs, io) s)"
proof -
  from pend obtain c flags where c: "heap s ptr = Some c"
    and fl: "epoll_set s (conn_fd c) = Some (ptr, flags)" "set evs \<subseteq> insert EPOLLERR (set flags)"
    by (auto simp: pending_def)
  from server_invD(3) [OF inv c fl(1)] have role: "role c flags" .
  have mem: "io_gives_memory io" using io by (simp add: well_behaved_def)
  have idle: "goes_on ptr s (Inr s)" using inv all by (simp add: goes_on_def)
  show ?thesis
    using role fl(2) accept_goes_on [OF inv all mem] send_goes_on [OF inv c all]
      read_goes_on [OF inv c all _ io] idle c
    by (auto simp: dispatch_def role_def call_handler_def)
qed

lemma batch_goes_on:
  "server_inv s \<Longrightarrow> for_all_connections ready s \<Longrightarrow> \<forall>ev \<in> set evs. pending s ev \<Longrightarrow>
    distinct (map fst evs) \<Longrightarrow> \<forall>(ptr, es, io) \<in> set evs. well_behaved io \<Longrightarrow>
    \<exists>s'. process_batch evs s = Inr s' \<and> server_inv s' \<and> for_all_connections ready s'"
proof (induction evs arbitrary: s)
  case (Cons ev evs)
  obtain ptr es io where ev: "ev = (ptr, es, io)" by (cases ev)
  obtain s1 where s1: "dispatch ev s = Inr s1" "server_inv s1" "keeps_others ptr s s1"
    "for_all_connections ready s1"
    using dispatch_goes_on [OF Cons.prems(1,2), of ptr es io] Cons.prems(3,5) ev
    by (auto simp: goes_on_def)
  with Cons.IH [OF s1(2,4) pending_others [OF Cons.prems(3,4) ev s1(3)]] Cons.prems(4,5)
  show ?case by simp
qed simp

definition well_behaved_batch :: "report list \<Rightarrow> bool" where
  "well_behaved_batch rs \<longleftrightarrow> distinct (map fst rs) \<and> (\<forall>(fd, es, io) \<in> set rs. well_behaved io)"

lemma turn_goes_on:
  assumes inv: "server_inv s" and all: "for_all_connections ready s" and rs: "well_behaved_batch rs"
  shows "\<exists>s'. ngx_epoll_process_events rs s = Inr s' \<and> server_inv s' \<and> for_all_connections ready s'"
  unfolding ngx_epoll_process_events_def
proof (rule batch_goes_on [OF inv all])
  show "\<forall>ev \<in> set (epoll_wait s rs). pending s ev" by (auto intro: epoll_wait_pending [OF inv])
  show "distinct (map fst (epoll_wait s rs))"
    using epoll_wait_distinct [OF inv] rs by (simp add: well_behaved_batch_def)
  show "\<forall>(ptr, es, io) \<in> set (epoll_wait s rs). well_behaved io"
    using rs by (fastforce simp: well_behaved_batch_def dest: epoll_wait_io)
qed

lemma loop_goes_on:
  "server_reach s \<Longrightarrow> for_all_connections ready s \<Longrightarrow> \<forall>rs \<in> set rss. well_behaved_batch rs \<Longrightarrow>
    \<exists>s'. event_loop rss s = Inr s' \<and> server_reach s' \<and> for_all_connections ready s'"
proof (induction rss arbitrary: s)
  case (Cons rs rss)
  obtain s1 where s1: "ngx_epoll_process_events rs s = Inr s1" "for_all_connections ready s1"
    using turn_goes_on [OF server_reach_inv [OF Cons.prems(1)] Cons.prems(2)] Cons.prems(3) by auto
  moreover have "server_reach s1"
    using turn [OF Cons.prems(1) _ s1(1)] Cons.prems(3) by (simp add: well_behaved_batch_def)
  ultimately show ?case using Cons.IH Cons.prems(3) by simp
qed simp

lemma boot_ready: "server_main b io = Inr (Event_loop s) \<Longrightarrow> for_all_connections ready s"
  by (auto simp: server_main_def bind_res_Inr_iff for_all_connections_def epoll_add_event_def
      add_socket_def add_file_def epoll_init_event_def ready_def Let_def dest!: set_handler_Inr split: if_splits)

subsection \<open>Property\<close>

text \<open>
  C2: The server keeps running. From a successful start, whatever batches of events \<open>epoll_wait\<close> reports
  and however they mix clients, as long as each client sends a well-formed request that fits, of at
  most 512 bytes in any pieces, or closes, and memory lasts, every turn of the loop returns: no handler
  faults. When the loop is back at \<open>epoll_wait\<close> each connection that still waits for its request
  has an empty buffer.
\<close>
theorem server_keeps_running:
  assumes "server_main b io = Inr (Event_loop s)" and "new_fd (b_fds b) (b_socket b) \<noteq> - 1"
    and "ep s \<noteq> - 1" and "\<forall>rs \<in> set rss. well_behaved_batch rs"
  shows "\<exists>s'. event_loop rss s = Inr s' \<and> server_reach s' \<and>
    (\<forall>ptr c. heap s' ptr = Some c \<and> read_event c = Handler Read_request \<longrightarrow>
      query_start_index c = 0 \<and> query_end_index c = 0 \<and> query_remain_len c = 1024)"
proof -
  have reach: "server_reach s" by (rule boot [OF assms(1-3)])
  from loop_goes_on [OF reach boot_ready [OF assms(1)] assms(4)] show ?thesis
    by (auto simp: for_all_connections_def ready_def fresh_def)
qed

theorem server_keeps_running_witness:
  "\<exists>s s'. server_main demo_start demo_io = Inr (Event_loop s) \<and>
    event_loop [[(3, [EPOLLIN], demo_io)], [(5, [EPOLLIN], demo_io), (3, [EPOLLIN], demo_io)],
      [(5, [EPOLLOUT], demo_io)]] s = Inr s' \<and> server_reach s'"
proof -
  have "server_main demo_start demo_io = Inr (Event_loop s) \<Longrightarrow> ep s = 4" for s
    by (auto simp: server_main_def demo_io_def demo_start_def initConnection_def set_handler_def
        epoll_add_event_def new_fd_def add_socket_def add_file_def epoll_init_event_def Let_def
        setnonblocking_keeps split: if_splits)
  moreover obtain s where s: "server_main demo_start demo_io = Inr (Event_loop s)" using demo_boot by blast
  moreover have "new_fd (b_fds demo_start) (b_socket demo_start) \<noteq> - 1"
    by (simp add: demo_start_def new_fd_def)
  moreover have "sends_request demo_io"
    unfolding sends_request_def
    by (rule exI [of _ "[''GET / HT'', ''TP/1.1'' @ [CR, LF, CR, LF]]"], rule exI [of _ "''GET''"],
        rule exI [of _ "''/''"], rule exI [of _ "''HTTP/1.1''"], rule exI [of _ "[]"], rule exI [of _ "[]"])
      (simp add: demo_io_def arrives_whole_def request_text_def crlf_def request_shape_def request_fits_def)
  then have "well_behaved demo_io" by (simp add: well_behaved_def io_gives_memory_def demo_io_def)
  ultimately show ?thesis
    using server_keeps_running [OF s, of "[[(3, [EPOLLIN], demo_io)],
      [(5, [EPOLLIN], demo_io), (3, [EPOLLIN], demo_io)], [(5, [EPOLLOUT], demo_io)]]"]
    by (simp add: well_behaved_batch_def del: event_loop.simps) metis
qed

end
