(* ===== verification/Shell_Exec.thy ===== *)
theory Shell_Exec
  imports C_String
begin

section \<open>Running a command (src/common.cpp)\<close>

text \<open>
  \<open>myexec\<close> reads the output of a command line by line into an array of 1024 bytes. The output is a
  parameter; \<open>fgets\<close> is modelled on it. The array is used up to the NUL that \<open>fgets\<close> writes. The
  \<open>DEBUG\<close> branch and the log output are not modelled.
\<close>

text \<open>\<open>fgets\<close> with room for \<open>k\<close> characters and the NUL: what it stores and what is left.\<close>

fun fgets :: "nat \<Rightarrow> string \<Rightarrow> string \<times> string" where
  "fgets 0 s = ([], s)"
| "fgets (Suc k) [] = ([], [])"
| "fgets (Suc k) (c # cs) =
     (if c = LF then ([c], cs) else (let (l, r) = fgets k cs in (c # l, r)))"

text \<open>\<open>std::string::find\<close>: the first position of a pattern; \<open>npos\<close> is the largest \<open>size_t\<close>.\<close>

fun starts_with :: "string \<Rightarrow> string \<Rightarrow> bool" where
  "starts_with [] s = True"
| "starts_with (p # ps) [] = False"
| "starts_with (p # ps) (c # cs) = (p = c \<and> starts_with ps cs)"

fun str_find :: "string \<Rightarrow> string \<Rightarrow> nat option" where
  "str_find pat [] = (if pat = [] then Some 0 else None)"
| "str_find pat (c # cs) =
     (if starts_with pat (c # cs) then Some 0 else map_option Suc (str_find pat cs))"

definition npos :: nat where "npos = 2 ^ 64 - 1"

definition find_pos :: "string \<Rightarrow> string \<Rightarrow> nat" where
  "find_pos pat s = (case str_find pat s of None \<Rightarrow> npos | Some i \<Rightarrow> i)"

definition success_phrase :: string where
  "success_phrase = ''convert to res success''"

text \<open>One line: \<open>tmp\<close> without its newline, and \<open>res\<close>. The position is narrowed to \<open>int\<close>.\<close>

definition exec_line :: "string \<Rightarrow> string list \<Rightarrow> int \<Rightarrow> (string list \<times> int) res" where
  "exec_line tmp resvec res =
     bind_res (strlen tmp) (\<lambda>n.
       if n = 0 then Inl Out_of_bounds
       else
         let text = (if tmp ! (n - 1) = LF then take (n - 1) tmp else take n tmp);
             idx = int_of_size_t (find_pos success_phrase text)
         in Inr (resvec @ [text], if size_t_of_int idx \<noteq> npos then 1 else res))"

lemma fgets_shorter: "fgets (Suc k) (c # cs) = (l, r) \<Longrightarrow> length r < length (c # cs)"
proof (induction "Suc k" "c # cs" arbitrary: k c cs l r rule: fgets.induct)
  case (3 k c cs)
  show ?case
  proof (cases "c = LF")
    case False
    with "3.prems" obtain l' where l': "fgets k cs = (l', r)"
      by (auto simp: Let_def split: prod.splits)
    show ?thesis
    proof (cases k)
      case 0
      with l' show ?thesis by simp
    next
      case (Suc k')
      with l' "3.hyps"(1) [OF False Suc] show ?thesis by (cases cs) fastforce+
    qed
  qed (use 3 in auto)
qed

lemma fgets_line_shorter: "(l, r) = fgets 1023 (c # cs) \<Longrightarrow> length r < Suc (length cs)"
  using fgets_shorter [of 1022 c cs l r] by (simp del: fgets.simps)

function exec_loop :: "string \<Rightarrow> string list \<Rightarrow> int \<Rightarrow> (string list \<times> int) res" where
  "exec_loop out resvec res =
     (case out of
        [] \<Rightarrow> Inr (resvec, res)
      | c # cs \<Rightarrow>
          (case fgets 1023 (c # cs) of
             (line, rest) \<Rightarrow>
               (case exec_line (line @ [NUL]) resvec res of
                  Inl e \<Rightarrow> Inl e
                | Inr (resvec', res') \<Rightarrow> exec_loop rest resvec' res')))"
  by pat_completeness auto
termination
  by (relation "measure (\<lambda>(out, resvec, res). length out)")
    (auto dest!: fgets_line_shorter simp del: fgets.simps)

declare exec_loop.simps [simp del]

text \<open>\<open>None\<close> is a failed \<open>popen\<close>. The result is the return value and the lines.\<close>

definition myexec :: "string option \<Rightarrow> (int \<times> string list) res" where
  "myexec pipe =
     (case pipe of
        None \<Rightarrow> Inr (- 1, [])
      | Some out \<Rightarrow> bind_res (exec_loop out [] 0) (\<lambda>(resvec, res). Inr (res, resvec)))"

subsection \<open>Lines\<close>

fun lines :: "string \<Rightarrow> string list" where
  "lines [] = []"
| "lines (c # cs) =
     (if c = LF then [] # lines cs
      else (case lines cs of [] \<Rightarrow> [[c]] | l # ls \<Rightarrow> (c # l) # ls))"

lemma lines_line: "LF \<notin> set l \<Longrightarrow> lines (l @ LF # r) = l # lines r"
  by (induction l) auto

lemma lines_last: "LF \<notin> set l \<Longrightarrow> l \<noteq> [] \<Longrightarrow> lines l = [l]"
proof (induction l)
  case (Cons c l)
  then show ?case by (cases "l = []") auto
qed simp

lemma fgets_line: "LF \<notin> set l \<Longrightarrow> length l < k \<Longrightarrow> fgets k (l @ LF # r) = (l @ [LF], r)"
proof (induction l arbitrary: k)
  case Nil
  then show ?case by (cases k) simp_all
next
  case (Cons c l)
  then show ?case by (cases k) auto
qed

lemma fgets_last: "LF \<notin> set l \<Longrightarrow> length l \<le> k \<Longrightarrow> fgets k l = (l, [])"
proof (induction l arbitrary: k)
  case Nil
  then show ?case by (cases k) simp_all
next
  case (Cons c l)
  then show ?case by (cases k) auto
qed

lemma starts_with_iff: "starts_with p s \<longleftrightarrow> (\<exists>b. s = p @ b)"
  by (induction p s rule: starts_with.induct) auto

definition contains :: "string \<Rightarrow> string \<Rightarrow> bool" where
  "contains pat s \<longleftrightarrow> (\<exists>a b. s = a @ pat @ b)"

lemma contains_Cons: "contains pat (c # s) \<longleftrightarrow> starts_with pat (c # s) \<or> contains pat s"
  unfolding contains_def starts_with_iff by (auto simp: Cons_eq_append_conv)

lemma str_find_None: "str_find pat s = None \<longleftrightarrow> \<not> contains pat s"
  by (induction s) (auto simp: contains_Cons simp del: starts_with.simps, auto simp: contains_def)

lemma str_find_Some: "str_find pat s = Some i \<Longrightarrow> i \<le> length s"
  by (induction s arbitrary: i) (auto split: if_splits)

lemma find_narrowed:
  assumes "length s < 2 ^ 31"
  shows "size_t_of_int (int_of_size_t (find_pos pat s)) \<noteq> npos \<longleftrightarrow> contains pat s"
proof (cases "str_find pat s")
  case None
  have "size_t_of_int (int_of_size_t npos) = npos"
    by (simp add: size_t_of_int_def int_of_size_t_def npos_def)
  with None show ?thesis using str_find_None [of pat s] by (simp add: find_pos_def)
next
  case (Some i)
  have i: "i < 2 ^ 31" using le_less_trans [OF str_find_Some [OF Some] assms] .
  have "(2 :: nat) ^ 31 < npos" by (simp add: npos_def)
  with i have "i \<noteq> npos" by linarith
  with i Some show ?thesis
    using str_find_None [of pat s] size_t_of_int_of_nat [OF i] int_of_size_t_small [OF i]
    by (simp only: find_pos_def option.case) auto
qed

lemma exec_line_text:
  assumes "NUL \<notin> set l" and "LF \<notin> set l" and "length l < 2 ^ 31"
  shows "exec_line (l @ [LF] @ [NUL]) rv r =
      Inr (rv @ [l], if contains success_phrase l then 1 else r)"
    and "l \<noteq> [] \<Longrightarrow> exec_line (l @ [NUL]) rv r =
      Inr (rv @ [l], if contains success_phrase l then 1 else r)"
proof -
  have "strlen ((l @ [LF]) @ NUL # []) = Inr (length (l @ [LF]))"
    using assms(1) by (intro strlen_append) simp
  then show "exec_line (l @ [LF] @ [NUL]) rv r =
      Inr (rv @ [l], if contains success_phrase l then 1 else r)"
    using find_narrowed [OF assms(3)] by (simp add: exec_line_def Let_def nth_append)
  assume "l \<noteq> []"
  then have "(l @ [NUL]) ! (length l - 1) \<noteq> LF"
    using assms(2) by (simp add: nth_append) (metis last_conv_nth last_in_set One_nat_def)
  moreover have "strlen (l @ NUL # []) = Inr (length l)"
    using assms(1) by (rule strlen_append)
  ultimately show "exec_line (l @ [NUL]) rv r =
      Inr (rv @ [l], if contains success_phrase l then 1 else r)"
    using \<open>l \<noteq> []\<close> find_narrowed [OF assms(3)] by (simp add: exec_line_def Let_def)
qed

lemma split_line:
  "LF \<notin> set out \<or> (\<exists>l r. out = l @ LF # r \<and> LF \<notin> set l)"
  using split_list_first [of LF out] by metis

lemma exec_loop_line:
  "NUL \<notin> set l \<Longrightarrow> LF \<notin> set l \<Longrightarrow> length l < 1023 \<Longrightarrow>
    exec_loop (l @ LF # r) rv res =
      exec_loop r (rv @ [l]) (if contains success_phrase l then 1 else res)"
proof -
  assume l: "NUL \<notin> set l" "LF \<notin> set l" "length l < 1023"
  have "exec_line ((l @ [LF]) @ [NUL]) rv res =
      Inr (rv @ [l], if contains success_phrase l then 1 else res)"
    using exec_line_text(1) [OF l(1,2), of rv res] l(3) by simp
  moreover have "fgets 1023 (l @ LF # r) = (l @ [LF], r)" using l by (intro fgets_line) auto
  moreover obtain c cs where "l @ LF # r = c # cs" by (cases l) auto
  ultimately show ?thesis by (subst exec_loop.simps) (simp del: fgets.simps)
qed

lemma exec_loop_last:
  "NUL \<notin> set l \<Longrightarrow> LF \<notin> set l \<Longrightarrow> length l < 1023 \<Longrightarrow> l \<noteq> [] \<Longrightarrow>
    exec_loop l rv res = Inr (rv @ [l], if contains success_phrase l then 1 else res)"
proof -
  assume l: "NUL \<notin> set l" "LF \<notin> set l" "length l < 1023" "l \<noteq> []"
  have "exec_line (l @ [NUL]) rv res =
      Inr (rv @ [l], if contains success_phrase l then 1 else res)"
    using exec_line_text(2) [OF l(1,2), of rv res] l(3,4) by simp
  moreover have "fgets 1023 l = (l, [])" using l by (intro fgets_last) auto
  moreover obtain c cs where "l = c # cs" using l(4) by (cases l) auto
  ultimately show ?thesis
    by (subst exec_loop.simps) (simp del: fgets.simps, simp add: exec_loop.simps)
qed

lemma exec_loop_lines:
  "NUL \<notin> set out \<Longrightarrow> \<forall>l \<in> set (lines out). length l < 1023 \<Longrightarrow>
    exec_loop out rv res =
      Inr (rv @ lines out, if \<exists>l \<in> set (lines out). contains success_phrase l then 1 else res)"
proof (induction "length out" arbitrary: out rv res rule: less_induct)
  case less
  consider (none) "out = []" | (last) "LF \<notin> set out" "out \<noteq> []"
    | (line) l r where "out = l @ LF # r" "LF \<notin> set l"
    using split_line [of out] by blast
  then show ?case
  proof cases
    case none
    then show ?thesis by (simp add: exec_loop.simps)
  next
    case last
    with less.prems show ?thesis by (simp add: lines_last exec_loop_last)
  next
    case line
    with less.prems less.hyps [of r] show ?thesis
      by (simp add: lines_line exec_loop_line)
  qed
qed

subsection \<open>Properties\<close>

text \<open>
  C37: \<open>myexec\<close> splits the output into its lines. For an output without NUL whose lines have fewer
  than 1023 characters it returns the lines in order, without their newlines, a last line without
  newline and empty lines included, and the return value is 1 exactly when one of them contains
  the success phrase, 0 otherwise. When the pipe cannot be opened it returns -1 and no lines.
\<close>
theorem myexec_lines:
  assumes "NUL \<notin> set out" and "\<forall>l \<in> set (lines out). length l < 1023"
  shows "myexec (Some out) =
      Inr (if \<exists>l \<in> set (lines out). contains success_phrase l then 1 else 0, lines out) \<and>
    myexec None = Inr (- 1, [])"
  using exec_loop_lines [OF assms, of "[]" 0] by (simp add: myexec_def)

theorem myexec_lines_witness:
  "myexec (Some (''a'' @ [LF, LF] @ ''convert to res success'')) =
    Inr (1, [''a'', [], ''convert to res success''])"
proof -
  have "contains success_phrase ''convert to res success''"
    unfolding contains_def success_phrase_def by (metis append_Nil append_Nil2)
  then show ?thesis
    using myexec_lines [of "''a'' @ [LF, LF] @ ''convert to res success''"] by simp
qed

text \<open>A line that starts with a NUL byte makes \<open>myexec\<close> read in front of its array: the length of
  the line is 0, and the last character is looked up at position -1.
\<close>
theorem myexec_nul_line:
  assumes "out = concat (map (\<lambda>l. l @ [LF]) ls) @ NUL # rest"
    and "\<forall>l \<in> set ls. NUL \<notin> set l \<and> LF \<notin> set l \<and> length l < 1023"
  shows "myexec (Some out) = Inl Out_of_bounds"
proof -
  have "exec_loop (concat (map (\<lambda>l. l @ [LF]) ls) @ NUL # rest) rv res = Inl Out_of_bounds" for rv res
    using assms(2)
  proof (induction ls arbitrary: rv res)
    case Nil
    obtain l r where "fgets 1022 rest = (l, r)" by fastforce
    then have "fgets 1023 (NUL # rest) = (NUL # l, r)"
      using fgets.simps(3) [of 1022 NUL rest] by (simp del: fgets.simps)
    then show ?case
      by (subst exec_loop.simps) (simp add: exec_line_def del: fgets.simps)
  next
    case (Cons l ls)
    then show ?case by (simp add: exec_loop_line)
  qed
  then show ?thesis by (simp add: myexec_def assms(1))
qed

theorem myexec_nul_line_witness: "myexec (Some (''ok'' @ [LF, NUL, LF])) = Inl Out_of_bounds"
  by (rule myexec_nul_line [of _ "[''ok'']" "[LF]"]) simp_all

end
