(* ===== verification/Database.thy ===== *)
theory Database
  imports Leano_Prelude
begin

section \<open>Database operations (src/DBOperation.cpp)\<close>

text \<open>
  \<open>DBOperation\<close> holds four pointers into MySQL Connector/C++: the connection, a statement, the last
  result set and a metadata object. The connector is not part of the program; what its calls do
  (succeed, return null, throw) are parameters of the operations. Statements and result sets are
  named by the order of their creation; \<open>live_stmts\<close> and \<open>results\<close> hold the ones not deleted. A
  result set is a state of type \<open>'rs\<close> of the connector, which only its own calls (\<open>next\<close>, \<open>getString\<close>,
  \<open>getInt\<close>, \<open>rowsCount\<close>, parameters here) look at and change, and what \<open>getMetaData\<close> gives for it, of
  type \<open>'md\<close>; a metadata object is named by its result set. An operation returns the object and its
  result; an exception that leaves it is \<open>Uncaught\<close>, a call through a null pointer \<open>Null_deref\<close>,
  which no \<open>catch\<close> sees.
\<close>

record ('md, 'rs) result_set =
  rs_metadata :: 'md
  rs_data :: 'rs

record ('md, 'rs) db =
  useable :: bool
  db_conn :: bool
  db_state :: "nat option"
  db_res :: "nat option"
  rs_meta :: "nat option"
  next_stmt :: nat
  next_res :: nat
  live_stmts :: "nat set"
  results :: "nat \<Rightarrow> ('md, 'rs) result_set option"

type_synonym ('md, 'rs, 'a) db_result = "('md, 'rs) db \<times> 'a res"

datatype exn = Sql_exception | Other_exception

datatype 'a outcome_of = Returns 'a | Throws exn

datatype connect_outcome = Driver_null | Driver_throws | Connect_throws | Connect_gives_null | Connects

definition db_empty :: "('md, 'rs) db" where
  "db_empty = \<lparr>useable = False, db_conn = False, db_state = None, db_res = None, rs_meta = None,
     next_stmt = 0, next_res = 0, live_stmts = {}, results = (\<lambda>_. None)\<rparr>"

text \<open>The constructor. A null driver is logged and then called.\<close>

definition DBOperation_ctor :: "connect_outcome \<Rightarrow> ('md, 'rs, unit) db_result" where
  "DBOperation_ctor out =
     (case out of
        Driver_null \<Rightarrow> (db_empty, Inl Null_deref)
      | Driver_throws \<Rightarrow> (db_empty, Inr ())
      | Connect_throws \<Rightarrow> (db_empty, Inr ())
      | Connect_gives_null \<Rightarrow> (db_empty, Inr ())
      | Connects \<Rightarrow> (db_empty\<lparr>db_conn := True, useable := True\<rparr>, Inr ()))"

text \<open>The destructor. \<open>close\<close> of the connection can throw, and an exception from a destructor
  terminates the program.\<close>

definition DBOperation_dtor :: "unit outcome_of \<Rightarrow> ('md, 'rs) db \<Rightarrow> ('md, 'rs, unit) db_result" where
  "DBOperation_dtor close d =
     (let d = d\<lparr>useable := False\<rparr>;
          d = (case db_res d of
                 None \<Rightarrow> d
               | Some r \<Rightarrow> d\<lparr>results := (results d)(r := None), db_res := None\<rparr>);
          d = (case db_state d of
                 None \<Rightarrow> d
               | Some s \<Rightarrow> d\<lparr>live_stmts := live_stmts d - {s}, db_state := None\<rparr>)
      in if db_conn d then
           (case close of
              Throws e \<Rightarrow> (d, Inl Uncaught)
            | Returns _ \<Rightarrow> (d\<lparr>db_conn := False\<rparr>, Inr ()))
         else (d, Inr ()))"

text \<open>\<open>conn->createStatement()\<close>: gives a statement, null (\<open>Returns False\<close>), or throws.\<close>

definition createStatement :: "bool outcome_of \<Rightarrow> ('md, 'rs) db \<Rightarrow> ('md, 'rs, nat option) db_result" where
  "createStatement out d =
     (if \<not> db_conn d then (d, Inl Null_deref)
      else (case out of
              Throws e \<Rightarrow> (d, Inl Uncaught)
            | Returns False \<Rightarrow> (d, Inr None)
            | Returns True \<Rightarrow>
                (d\<lparr>next_stmt := Suc (next_stmt d), live_stmts := insert (next_stmt d) (live_stmts d)\<rparr>,
                 Inr (Some (next_stmt d)))))"

definition SetDatabase :: "unit outcome_of \<Rightarrow> bool outcome_of \<Rightarrow> ('md, 'rs) db \<Rightarrow> ('md, 'rs, bool) db_result" where
  "SetDatabase schema stmt d =
     (if \<not> db_conn d then (d, Inl Null_deref)
      else (case schema of
              Throws e \<Rightarrow> (d, Inr False)
            | Returns _ \<Rightarrow>
                (case createStatement stmt d of
                   (d', Inl e) \<Rightarrow> (d', if e = Uncaught then Inr False else Inl e)
                 | (d', Inr s) \<Rightarrow> (d'\<lparr>db_state := s\<rparr>, Inr True))))"

text \<open>\<open>if (!state) state = conn->createStatement();\<close> then the statement is called through.\<close>

definition need_statement :: "bool outcome_of \<Rightarrow> ('md, 'rs) db \<Rightarrow> ('md, 'rs, unit) db_result" where
  "need_statement stmt d =
     (if db_state d \<noteq> None then (d, Inr ())
      else (case createStatement stmt d of
              (d', Inl e) \<Rightarrow> (d', Inl e)
            | (d', Inr s) \<Rightarrow> (d'\<lparr>db_state := s\<rparr>, if s = None then Inl Null_deref else Inr ())))"

definition Execute :: "bool outcome_of \<Rightarrow> unit outcome_of \<Rightarrow> ('md, 'rs) db \<Rightarrow> ('md, 'rs, unit) db_result" where
  "Execute stmt exec d =
     (case need_statement stmt d of
        (d', Inl e) \<Rightarrow> (d', Inl e)
      | (d', Inr _) \<Rightarrow>
          (case exec of Throws e \<Rightarrow> (d', Inl Uncaught) | Returns _ \<Rightarrow> (d', Inr ())))"

text \<open>The query gives a result set, or null.\<close>

definition ExecuteQuery ::
  "bool outcome_of \<Rightarrow> ('md \<times> 'rs) option outcome_of \<Rightarrow> ('md, 'rs) db \<Rightarrow>
   ('md, 'rs, bool) db_result" where
  "ExecuteQuery stmt query d =
     (case need_statement stmt d of
        (d', Inl e) \<Rightarrow> (d', if e = Uncaught then Inr False else Inl e)
      | (d', Inr _) \<Rightarrow>
          (case query of
             Throws e \<Rightarrow> (d', Inr False)
           | Returns None \<Rightarrow> (d'\<lparr>db_res := None\<rparr>, Inr False)
           | Returns (Some (md, rs)) \<Rightarrow>
               (let r = next_res d' in
                (d'\<lparr>next_res := Suc r, db_res := Some r,
                    results := (results d')(r \<mapsto> \<lparr>rs_metadata = md, rs_data = rs\<rparr>)\<rparr>, Inr True))))"

text \<open>
  \<open>ExecuteUpdate\<close>: prepare, execute, commit, delete the prepared statement. Only an
  \<open>SQLException\<close> is caught, and deletes the prepared statement too.
\<close>

definition drop_prepared :: "nat \<Rightarrow> ('md, 'rs) db \<Rightarrow> ('md, 'rs) db" where
  "drop_prepared s d = d\<lparr>live_stmts := live_stmts d - {s}\<rparr>"

definition ExecuteUpdate ::
  "bool outcome_of \<Rightarrow> int outcome_of \<Rightarrow> unit outcome_of \<Rightarrow> ('md, 'rs) db \<Rightarrow> ('md, 'rs, bool) db_result" where
  "ExecuteUpdate prepare exec commit d =
     (if \<not> db_conn d then (d, Inl Null_deref)
      else (case prepare of
              Throws Sql_exception \<Rightarrow> (d, Inr False)
            | Throws Other_exception \<Rightarrow> (d, Inl Uncaught)
            | Returns False \<Rightarrow> (d, Inl Null_deref)
            | Returns True \<Rightarrow>
                (let s = next_stmt d;
                     d' = d\<lparr>next_stmt := Suc s, live_stmts := insert s (live_stmts d)\<rparr>
                 in case exec of
                      Throws Sql_exception \<Rightarrow> (drop_prepared s d', Inr False)
                    | Throws Other_exception \<Rightarrow> (d', Inl Uncaught)
                    | Returns updatecount \<Rightarrow>
                        (case commit of
                           Throws Sql_exception \<Rightarrow> (drop_prepared s d', Inr False)
                         | Throws Other_exception \<Rightarrow> (d', Inl Uncaught)
                         | Returns _ \<Rightarrow> (drop_prepared s d', Inr True)))))"

definition RollBack :: "unit outcome_of \<Rightarrow> unit outcome_of \<Rightarrow> ('md, 'rs) db \<Rightarrow> ('md, 'rs, unit) db_result" where
  "RollBack rollback releasing d =
     (if \<not> db_conn d then (d, Inl Null_deref)
      else (case rollback of
              Throws e \<Rightarrow> (d, Inl Uncaught)
            | Returns _ \<Rightarrow>
                (case releasing of Throws e \<Rightarrow> (d, Inl Uncaught) | Returns _ \<Rightarrow> (d, Inr ()))))"

text \<open>
  A call through \<open>res\<close>, and the metadata of the current result: \<open>rs_meta\<close> is filled when it is null
  and never changed afterwards.
\<close>

definition through_res :: "('md, 'rs) db \<Rightarrow> (nat \<times> ('md, 'rs) result_set) res" where
  "through_res d =
     (case db_res d of
        None \<Rightarrow> Inl Null_deref
      | Some r \<Rightarrow> (case results d r of None \<Rightarrow> Inl Dangling | Some rs \<Rightarrow> Inr (r, rs)))"

definition need_metadata :: "bool outcome_of \<Rightarrow> ('md, 'rs) db \<Rightarrow> ('md, 'rs, 'md) db_result" where
  "need_metadata meta d =
     (case rs_meta d of
        Some m \<Rightarrow>
          (d, case results d m of None \<Rightarrow> Inl Dangling | Some rs \<Rightarrow> Inr (rs_metadata rs))
      | None \<Rightarrow>
          (case through_res d of
             Inl e \<Rightarrow> (d, Inl e)
           | Inr (r, rs) \<Rightarrow>
               (case meta of
                  Throws e \<Rightarrow> (d, Inl Uncaught)
                | Returns False \<Rightarrow> (d, Inl Null_deref)
                | Returns True \<Rightarrow> (d\<lparr>rs_meta := Some r\<rparr>, Inr (rs_metadata rs)))))"

text \<open>The counts are unsigned in the connector and become \<open>int\<close>.\<close>

definition getColumnCount ::
  "bool outcome_of \<Rightarrow> ('md \<Rightarrow> nat outcome_of) \<Rightarrow> ('md, 'rs) db \<Rightarrow> ('md, 'rs, int) db_result" where
  "getColumnCount meta count d =
     (if db_res d = None then (d, Inr (- 1))
      else (case need_metadata meta d of
              (d', Inl e) \<Rightarrow> (d', if e = Uncaught then Inr (- 1) else Inl e)
            | (d', Inr md) \<Rightarrow>
                (case count md of
                   Throws e \<Rightarrow> (d', Inr (- 1))
                 | Returns n \<Rightarrow> (d', Inr (int_of_size_t n)))))"

definition getRowCount ::
  "('rs \<Rightarrow> nat outcome_of) \<Rightarrow> ('md, 'rs) db \<Rightarrow> ('md, 'rs, int) db_result" where
  "getRowCount rowsCount d =
     (d, bind_res (through_res d) (\<lambda>(r, rs).
           case rowsCount (rs_data rs) of
             Throws e \<Rightarrow> Inl Uncaught
           | Returns n \<Rightarrow> Inr (int_of_size_t n)))"

text \<open>\<open>getColumnLabel\<close> takes an \<open>unsigned\<close> that counts from 1.\<close>

definition getColumnName ::
  "bool outcome_of \<Rightarrow> ('md \<Rightarrow> nat \<Rightarrow> string outcome_of) \<Rightarrow> int \<Rightarrow> ('md, 'rs) db \<Rightarrow>
   ('md, 'rs, string) db_result" where
  "getColumnName meta getColumnLabel index d =
     (case need_metadata meta d of
        (d', Inl e) \<Rightarrow> (d', Inl e)
      | (d', Inr md) \<Rightarrow>
          (d', case getColumnLabel md (unsigned_of (index + 1)) of
                 Throws e \<Rightarrow> Inl Uncaught
               | Returns columnname \<Rightarrow> Inr columnname))"

definition getValueInt ::
  "('rs \<Rightarrow> string \<Rightarrow> int outcome_of) \<Rightarrow> string \<Rightarrow> ('md, 'rs) db \<Rightarrow> ('md, 'rs, int) db_result" where
  "getValueInt getInt column d =
     (d, bind_res (through_res d) (\<lambda>(r, rs).
           case getInt (rs_data rs) column of
             Throws e \<Rightarrow> Inl Uncaught
           | Returns v \<Rightarrow> Inr v))"

definition getValueString ::
  "('rs \<Rightarrow> string \<Rightarrow> string outcome_of) \<Rightarrow> string \<Rightarrow> ('md, 'rs) db \<Rightarrow> ('md, 'rs, string) db_result" where
  "getValueString getString column d =
     (d, bind_res (through_res d) (\<lambda>(r, rs).
           case getString (rs_data rs) column of
             Throws e \<Rightarrow> Inr []
           | Returns v \<Rightarrow> Inr v))"

definition getNext ::
  "('rs \<Rightarrow> (bool \<times> 'rs) outcome_of) \<Rightarrow> ('md, 'rs) db \<Rightarrow> ('md, 'rs, bool) db_result" where
  "getNext next d =
     (case through_res d of
        Inl e \<Rightarrow> (d, Inl e)
      | Inr (r, rs) \<Rightarrow>
          (case next (rs_data rs) of
             Throws e \<Rightarrow> (d, Inl Uncaught)
           | Returns (found, data) \<Rightarrow>
               (d\<lparr>results := (results d)(r \<mapsto> rs\<lparr>rs_data := data\<rparr>)\<rparr>, Inr found)))"

subsection \<open>Sequences of calls\<close>

text \<open>
  A client goes on after an exception it catches, but not after a null or dangling pointer was used.
\<close>

datatype ('md, 'rs) db_call =
    C_set_database "unit outcome_of" "bool outcome_of"
  | C_execute "bool outcome_of" "unit outcome_of"
  | C_query "bool outcome_of" "('md \<times> 'rs) option outcome_of"
  | C_update "bool outcome_of" "int outcome_of" "unit outcome_of"
  | C_rollback "unit outcome_of" "unit outcome_of"
  | C_column_count "bool outcome_of" "'md \<Rightarrow> nat outcome_of"
  | C_column_name "bool outcome_of" "'md \<Rightarrow> nat \<Rightarrow> string outcome_of" int
  | C_next "'rs \<Rightarrow> (bool \<times> 'rs) outcome_of"

definition forget :: "('md, 'rs, 'a) db_result \<Rightarrow> ('md, 'rs) db option" where
  "forget r = (case r of (d, Inr x) \<Rightarrow> Some d | (d, Inl e) \<Rightarrow> if e = Uncaught then Some d else None)"

fun db_step :: "('md, 'rs) db_call \<Rightarrow> ('md, 'rs) db \<Rightarrow> ('md, 'rs) db option" where
  "db_step (C_set_database a b) d = forget (SetDatabase a b d)"
| "db_step (C_execute a b) d = forget (Execute a b d)"
| "db_step (C_query a b) d = forget (ExecuteQuery a b d)"
| "db_step (C_update a b c) d = forget (ExecuteUpdate a b c d)"
| "db_step (C_rollback a b) d = forget (RollBack a b d)"
| "db_step (C_column_count a b) d = forget (getColumnCount a b d)"
| "db_step (C_column_name a b i) d = forget (getColumnName a b i d)"
| "db_step (C_next a) d = forget (getNext a d)"

fun db_run :: "('md, 'rs) db_call list \<Rightarrow> ('md, 'rs) db \<Rightarrow> ('md, 'rs) db option" where
  "db_run [] d = Some d"
| "db_run (c # cs) d = (case db_step c d of None \<Rightarrow> None | Some d' \<Rightarrow> db_run cs d')"

text \<open>The calls of \<open>ExecuteQuery\<close> in a sequence that returned true.\<close>

fun query_succeeds :: "('md, 'rs) db_call \<Rightarrow> ('md, 'rs) db \<Rightarrow> bool" where
  "query_succeeds (C_query a b) d = (snd (ExecuteQuery a b d) = Inr True)"
| "query_succeeds _ d = False"

fun successful_queries :: "('md, 'rs) db_call list \<Rightarrow> ('md, 'rs) db \<Rightarrow> nat" where
  "successful_queries [] d = 0"
| "successful_queries (c # cs) d =
     (case db_step c d of
        None \<Rightarrow> 0
      | Some d' \<Rightarrow> (if query_succeeds c d then 1 else 0) + successful_queries cs d')"

subsection \<open>The invariant\<close>

text \<open>
  No result set is ever deleted before the destructor, so every number up to the next one names a
  live result set; the pointers point to live objects, and \<open>res\<close>, if not null, to the last result.
\<close>

definition db_inv :: "('md, 'rs) db \<Rightarrow> bool" where
  "db_inv d \<longleftrightarrow> (\<forall>r. results d r \<noteq> None \<longleftrightarrow> r < next_res d) \<and>
     (\<forall>r. db_res d = Some r \<longrightarrow> Suc r = next_res d) \<and> (\<forall>m. rs_meta d = Some m \<longrightarrow> m < next_res d) \<and>
     (\<forall>s. db_state d = Some s \<longrightarrow> s \<in> live_stmts d) \<and> (\<forall>s \<in> live_stmts d. s < next_stmt d)"

text \<open>What every call keeps: the metadata of the result sets, and \<open>rs_meta\<close> once it is set.\<close>

definition metadata_of :: "('md, 'rs) db \<Rightarrow> nat \<Rightarrow> 'md option" where
  "metadata_of d r = map_option rs_metadata (results d r)"

definition keeps_metadata :: "('md, 'rs) db \<Rightarrow> ('md, 'rs) db \<Rightarrow> bool" where
  "keeps_metadata d d' \<longleftrightarrow> (\<forall>r. metadata_of d r \<noteq> None \<longrightarrow> metadata_of d' r = metadata_of d r) \<and>
     (rs_meta d \<noteq> None \<longrightarrow> rs_meta d' = rs_meta d)"

lemma keeps_metadata_refl [simp]: "keeps_metadata d d"
  by (simp add: keeps_metadata_def)

lemma keeps_metadata_trans: "keeps_metadata a b \<Longrightarrow> keeps_metadata b c \<Longrightarrow> keeps_metadata a c"
  unfolding keeps_metadata_def by (metis (no_types, lifting))

definition good_step :: "('md, 'rs) db \<Rightarrow> ('md, 'rs) db \<Rightarrow> bool" where
  "good_step d d' \<longleftrightarrow> (db_inv d \<longrightarrow> db_inv d' \<and> keeps_metadata d d')"

lemma good_step_refl [simp]: "good_step d d"
  by (simp add: good_step_def)

lemma good_step_trans: "good_step a b \<Longrightarrow> good_step b c \<Longrightarrow> good_step a c"
  unfolding good_step_def using keeps_metadata_trans by blast

lemma createStatement_good:
  "createStatement out d = (d', r) \<Longrightarrow> good_step d d' \<and>
    (\<forall>s. r = Inr s \<longrightarrow> good_step d (d'\<lparr>db_state := s\<rparr>))"
  by (auto simp: createStatement_def good_step_def db_inv_def keeps_metadata_def metadata_of_def
      less_Suc_eq split: if_splits outcome_of.splits bool.splits)

lemma SetDatabase_good: "SetDatabase a b d = (d', r) \<Longrightarrow> good_step d d'"
  unfolding SetDatabase_def
  by (auto dest: createStatement_good split: if_splits outcome_of.splits prod.splits sum.splits)

lemma need_statement_good: "need_statement stmt d = (d', r) \<Longrightarrow> good_step d d'"
  unfolding need_statement_def
  by (auto dest: createStatement_good split: if_splits prod.splits sum.splits)

lemma Execute_good: "Execute a b d = (d', r) \<Longrightarrow> good_step d d'"
  unfolding Execute_def
  by (auto dest: need_statement_good split: outcome_of.splits prod.splits sum.splits)

lemma new_result_good:
  "good_step d (d\<lparr>next_res := Suc (next_res d), db_res := Some (next_res d),
     results := (results d)(next_res d \<mapsto> rs)\<rparr>)"
  by (auto simp: good_step_def db_inv_def keeps_metadata_def metadata_of_def less_Suc_eq)

lemma no_result_good: "good_step d (d\<lparr>db_res := None\<rparr>)"
  by (simp add: good_step_def db_inv_def keeps_metadata_def metadata_of_def)

lemma ExecuteQuery_good: "ExecuteQuery a b d = (d', r) \<Longrightarrow> good_step d d'"
  unfolding ExecuteQuery_def
  by (auto dest!: need_statement_good simp: Let_def
      split: outcome_of.splits option.splits prod.splits sum.splits
      intro: good_step_trans new_result_good no_result_good)

lemma prepared_good:
  "good_step d (d\<lparr>next_stmt := Suc (next_stmt d), live_stmts := insert (next_stmt d) (live_stmts d)\<rparr>)"
  "good_step d (drop_prepared (next_stmt d)
     (d\<lparr>next_stmt := Suc (next_stmt d), live_stmts := insert (next_stmt d) (live_stmts d)\<rparr>))"
  by (auto simp: good_step_def db_inv_def keeps_metadata_def metadata_of_def drop_prepared_def less_Suc_eq)

lemma ExecuteUpdate_good: "ExecuteUpdate a b c d = (d', r) \<Longrightarrow> good_step d d'"
  unfolding ExecuteUpdate_def Let_def
  by (auto simp: prepared_good split: if_splits outcome_of.splits exn.splits bool.splits)

lemma RollBack_good: "RollBack a b d = (d', r) \<Longrightarrow> good_step d d'"
  unfolding RollBack_def by (auto split: if_splits outcome_of.splits)

lemma through_res_inv:
  "db_inv d \<Longrightarrow> through_res d = Inl e \<Longrightarrow> e = Null_deref"
  "through_res d = Inr (r, rs) \<Longrightarrow> db_res d = Some r \<and> results d r = Some rs"
proof -
  assume inv: "db_inv d" and through: "through_res d = Inl e"
  show "e = Null_deref"
  proof (cases "db_res d")
    case (Some r)
    with inv have "results d r \<noteq> None" by (simp add: db_inv_def)
    with Some through show ?thesis by (auto simp: through_res_def)
  qed (use through in \<open>simp add: through_res_def\<close>)
next
  show "through_res d = Inr (r, rs) \<Longrightarrow> db_res d = Some r \<and> results d r = Some rs"
    by (auto simp: through_res_def split: option.splits)
qed

lemma need_metadata_good: "need_metadata meta d = (d', r) \<Longrightarrow> good_step d d'"
  unfolding need_metadata_def
  by (auto dest!: through_res_inv(2)
      simp: good_step_def db_inv_def keeps_metadata_def metadata_of_def
      split: option.splits outcome_of.splits prod.splits sum.splits bool.splits)

lemma getColumnCount_good: "getColumnCount a b d = (d', r) \<Longrightarrow> good_step d d'"
  unfolding getColumnCount_def
  by (auto dest!: need_metadata_good split: if_splits outcome_of.splits prod.splits sum.splits)

lemma getColumnName_good: "getColumnName a b i d = (d', r) \<Longrightarrow> good_step d d'"
  unfolding getColumnName_def
  by (auto dest!: need_metadata_good split: prod.splits sum.splits outcome_of.splits)

lemma getNext_good: "getNext a d = (d', r) \<Longrightarrow> good_step d d'"
  unfolding getNext_def Let_def
  by (auto dest!: through_res_inv(2) simp: good_step_def db_inv_def keeps_metadata_def metadata_of_def
      split: outcome_of.splits sum.splits prod.splits)

lemmas db_call_good = SetDatabase_good Execute_good ExecuteQuery_good ExecuteUpdate_good
  RollBack_good getColumnCount_good getColumnName_good getNext_good

lemma forget_good:
  "forget r = Some d' \<Longrightarrow> (\<And>x. r = (d', x) \<Longrightarrow> good_step d d') \<Longrightarrow> good_step d d'"
  by (cases r) (auto simp: forget_def split: sum.splits if_splits)

lemma db_step_good: "db_step c d = Some d' \<Longrightarrow> good_step d d'"
  by (cases c) (auto elim!: forget_good dest: db_call_good)

lemma db_run_good: "db_run cs d = Some d' \<Longrightarrow> good_step d d'"
  by (induction cs arbitrary: d)
    (auto split: option.splits dest!: db_step_good intro: good_step_trans)

lemma db_inv_empty: "db_inv (db_empty\<lparr>db_conn := b, useable := b'\<rparr>)"
  by (simp add: db_inv_def db_empty_def)

lemma db_ctor_inv: "DBOperation_ctor out = (d, r) \<Longrightarrow> db_inv d"
  using db_inv_empty [of True True] db_inv_empty [of False False]
  by (auto simp: DBOperation_ctor_def db_empty_def split: connect_outcome.splits)

text \<open>Only a successful query makes a result set.\<close>

lemma query_next_res:
  "ExecuteQuery a b d = (d', r) \<Longrightarrow> next_res d' = next_res d + (if r = Inr True then 1 else 0)"
  by (auto simp: ExecuteQuery_def need_statement_def createStatement_def Let_def
      split: if_splits prod.splits sum.splits outcome_of.splits option.splits bool.splits)

lemma other_next_res:
  "SetDatabase a b d = (d', x1) \<Longrightarrow> next_res d' = next_res d"
  "Execute b a d = (d', x2) \<Longrightarrow> next_res d' = next_res d"
  "ExecuteUpdate b e a d = (d', x3) \<Longrightarrow> next_res d' = next_res d"
  "RollBack a a1 d = (d', x4) \<Longrightarrow> next_res d' = next_res d"
  "getColumnCount b count d = (d', x5) \<Longrightarrow> next_res d' = next_res d"
  "getColumnName b label i d = (d', x6) \<Longrightarrow> next_res d' = next_res d"
  "getNext nx d = (d', x7) \<Longrightarrow> next_res d' = next_res d"
  by (auto simp: SetDatabase_def Execute_def ExecuteUpdate_def RollBack_def getColumnCount_def
      getColumnName_def getNext_def need_statement_def createStatement_def need_metadata_def
      drop_prepared_def Let_def
      split: if_splits prod.splits sum.splits outcome_of.splits option.splits bool.splits exn.splits)

lemma forget_keeps:
  "forget r = Some d' \<Longrightarrow> (\<And>x. r = (d', x) \<Longrightarrow> n' = n) \<Longrightarrow> n' = n"
  by (cases r) (auto simp: forget_def split: sum.splits if_splits)

lemma db_step_next_res:
  assumes "db_step c d = Some d'"
  shows "next_res d' = next_res d + (if query_succeeds c d then 1 else 0)"
proof (cases c)
  case (C_query a b)
  obtain d1 r where q: "ExecuteQuery a b d = (d1, r)" by (cases "ExecuteQuery a b d")
  with assms C_query have "d' = d1" by (auto simp: forget_def split: sum.splits if_splits)
  with query_next_res [OF q] C_query q show ?thesis by simp
qed (use assms in \<open>auto elim!: forget_keeps dest: other_next_res\<close>)

lemma db_run_next_res:
  "db_run cs d = Some d' \<Longrightarrow> next_res d' = next_res d + successful_queries cs d"
  by (induction cs arbitrary: d) (auto split: option.splits dest!: db_step_next_res)

lemma db_ctor_next_res: "DBOperation_ctor out = (d, r) \<Longrightarrow> next_res d = 0"
  by (auto simp: DBOperation_ctor_def db_empty_def split: connect_outcome.splits)

subsection \<open>Properties\<close>

text \<open>\<open>getRowCount\<close> narrows the count of the connector to \<open>int\<close>: it is right below \<open>2^31\<close> rows.\<close>

lemma getRowCount_narrows:
  assumes "through_res d = Inr (r, rs)" and "rowsCount (rs_data rs) = Returns n"
  shows "snd (getRowCount rowsCount d) = Inr (int_of_size_t n)"
    and "n < 2 ^ 31 \<Longrightarrow> snd (getRowCount rowsCount d) = Inr (int n)"
  using assms by (simp_all add: getRowCount_def)

text \<open>The column count is stale. Once \<open>getColumnCount\<close> or \<open>getColumnName\<close> has looked at one result
  set, every later count is the count of that result set, whatever queries follow: \<open>rs_meta\<close> is
  never reset.
\<close>
theorem db_column_count_stale:
  assumes "DBOperation_ctor out = (d0, r)" and "db_run cs0 d0 = Some d"
    and "rs_meta d = Some m" and "metadata_of d m = Some md"
    and "db_run cs d = Some d'" and "db_res d' \<noteq> None"
    and "column_count md = Returns n"
  shows "snd (getColumnCount meta column_count d') = Inr (int_of_size_t n)"
proof -
  have "db_inv d"
    using db_run_good [OF assms(2)] db_ctor_inv [OF assms(1)] by (simp add: good_step_def)
  then have "keeps_metadata d d'" using db_run_good [OF assms(5)] by (simp add: good_step_def)
  then have "rs_meta d' = Some m" "metadata_of d' m = Some md"
    using assms(3,4) by (simp_all add: keeps_metadata_def)
  with assms(6,7) show ?thesis
    by (auto simp: getColumnCount_def need_metadata_def metadata_of_def split: option.splits)
qed

text \<open>
  C33: Result sets leak. After any calls with \<open>n\<close> successful queries all \<open>n\<close> result sets still exist;
  no pointer dangles: \<open>res\<close> is null or points to the last result set made, \<open>state\<close> to a live
  statement, \<open>rs_meta\<close> to the metadata of a live result set. The destructor deletes the one that
  \<open>res\<close> points to and no other, so \<open>n - 1\<close> remain, and all \<open>n\<close> if the last query gave null.
\<close>
theorem db_results_leak:
  assumes "DBOperation_ctor out = (d0, r)" and "db_run cs d0 = Some d"
    and "DBOperation_dtor close d = (d', x)" and "n = successful_queries cs d0"
  shows "(\<forall>i. results d i \<noteq> None \<longleftrightarrow> i < n) \<and>
    (\<forall>i. db_res d = Some i \<longrightarrow> Suc i = n) \<and> through_res d \<noteq> Inl Dangling \<and>
    (\<forall>st. db_state d = Some st \<longrightarrow> st \<in> live_stmts d) \<and>
    (\<forall>m. rs_meta d = Some m \<longrightarrow> results d m \<noteq> None) \<and>
    {i. results d' i \<noteq> None} = {..<n} - (case db_res d of None \<Rightarrow> {} | Some i \<Rightarrow> {i}) \<and>
    card {i. results d' i \<noteq> None} = (if db_res d = None then n else n - 1)"
proof -
  have inv: "db_inv d"
    using db_run_good [OF assms(2)] db_ctor_inv [OF assms(1)] by (simp add: good_step_def)
  have n: "next_res d = n"
    using db_run_next_res [OF assms(2)] db_ctor_next_res [OF assms(1)] assms(4) by simp
  have res: "results d' = (case db_res d of None \<Rightarrow> results d | Some r \<Rightarrow> (results d)(r := None))"
    using assms(3)
    by (auto simp: DBOperation_dtor_def Let_def split: option.splits if_splits outcome_of.splits)
  have left: "{i. results d' i \<noteq> None} = {..<n} - (case db_res d of None \<Rightarrow> {} | Some i \<Rightarrow> {i})"
    using inv n res by (auto simp: db_inv_def split: option.splits)
  moreover have "card {i. results d' i \<noteq> None} = (if db_res d = None then n else n - 1)"
    unfolding left using inv n by (auto simp: db_inv_def)
  ultimately show ?thesis
    using inv n through_res_inv(1) [OF inv] by (auto simp: db_inv_def)
qed

subsection \<open>Witnesses\<close>

text \<open>A connector whose result sets are rows and a cursor, and its metadata the labels.\<close>

type_synonym demo_rs = "(string \<times> string) list list \<times> nat"

definition demo_calls :: "(string list, demo_rs) db_call list" where
  "demo_calls = [C_query (Returns True) (Returns (Some ([''id'', ''name''], ([[(''id'', ''1'')]], 0)))),
     C_column_count (Returns True) (\<lambda>labels. Returns (length labels)),
     C_next (\<lambda>(rows, k). Returns (k < length rows, (rows, Suc k)))]"

definition next_query :: "(string list, demo_rs) db_call" where
  "next_query = C_query (Returns True) (Returns (Some ([''x''], ([], 0))))"

definition demo_db :: "(string list, demo_rs) db" where
  "demo_db = fst (DBOperation_ctor Connects)"

lemma demo_db_ctor: "DBOperation_ctor Connects = (demo_db, Inr ())"
  by (simp add: demo_db_def DBOperation_ctor_def)

lemmas db_defs = db_empty_def DBOperation_ctor_def demo_db_def ExecuteQuery_def need_statement_def
  createStatement_def getColumnCount_def need_metadata_def getNext_def through_res_def forget_def
  next_query_def demo_calls_def Let_def

lemma demo_db_run: "ends_in (db_run demo_calls demo_db) (\<lambda>d.
    rs_meta d = Some 0 \<and> metadata_of d 0 = Some [''id'', ''name''] \<and>
    ends_in (db_run [next_query] d) (\<lambda>d'. db_res d' = Some 1))"
  by (simp add: db_defs metadata_of_def)

theorem db_column_count_stale_witness:
  "\<exists>d d'. db_run demo_calls demo_db = Some d \<and> db_run [next_query] d = Some d' \<and>
    snd (getColumnCount (Returns True) (\<lambda>labels. Returns (length labels)) d') = Inr 2"
proof -
  obtain d d' where d: "db_run demo_calls demo_db = Some d" "rs_meta d = Some 0"
      "metadata_of d 0 = Some [''id'', ''name'']"
      "db_run [next_query] d = Some d'" "db_res d' = Some 1"
    using demo_db_run by (auto simp: ends_in_iff)
  have "snd (getColumnCount (Returns True) (\<lambda>labels. Returns (length labels)) d') =
      Inr (int_of_size_t 2)"
    by (rule db_column_count_stale [OF demo_db_ctor d(1-4)]) (simp_all add: d(5))
  with d(1,4) show ?thesis by auto
qed

theorem db_results_leak_witness:
  "\<exists>d d' x. db_run (demo_calls @ [next_query]) demo_db = Some d \<and>
    DBOperation_dtor (Returns ()) d = (d', x) \<and> {i. results d' i \<noteq> None} = {0}"
proof -
  have "ends_in (db_run (demo_calls @ [next_query]) demo_db) (\<lambda>d. db_res d = Some 1)"
    by (simp add: db_defs)
  then obtain d where d: "db_run (demo_calls @ [next_query]) demo_db = Some d" "db_res d = Some 1"
    by (auto simp: ends_in_iff)
  have n: "(2 :: nat) = successful_queries (demo_calls @ [next_query]) demo_db"
    by (simp add: db_defs)
  obtain d' x where dt: "DBOperation_dtor (Returns ()) d = (d', x)" by fastforce
  have "{i. results d' i \<noteq> None} = {..<2} - {1}"
    using db_results_leak [OF demo_db_ctor d(1) dt n] d(2) by simp
  also have "\<dots> = {0 :: nat}" by auto
  finally show ?thesis using d(1) dt by blast
qed

end
