(* ===== verification/Requests.thy ===== *)
theory Requests
  imports C_String
begin

section \<open>The HTTP client (src/http_requests.cpp, include/http_requests.h)\<close>

text \<open>
  \<open>HttpRequests\<close> wraps one easy handle of libcurl, which is not part of the program. The options the
  class sets are a record; what the network answers to a request is the parameter \<open>net\<close>: the pieces
  of the body, the number of progress calls and the code of the transfer. What libcurl documents is
  in \<open>curl_perform\<close>: the options of earlier calls stay in force, the list of headers is read through
  the pointer it was given, the posted data has the size set by \<open>CURLOPT_POSTFIELDSIZE\<close> and is
  measured with \<open>strlen\<close> only while that is -1, and a write callback that does not return the size
  of its piece ends the transfer with \<open>CURLE_WRITE_ERROR\<close>. Each call of \<open>curl_easy_perform\<close> makes one
  transfer; \<open>sent_log\<close> holds what libcurl was asked to transfer, in order. When \<open>CURLOPT_FOLLOWLOCATION\<close>
  is set, as \<open>Get\<close> does, libcurl may make several HTTP requests for one transfer, for the places that
  the server sends it on to; the answer of \<open>net\<close> is that of the whole transfer. The result codes of
  \<open>curl_easy_setopt\<close> are parameters where the class looks at them, and for \<open>CURLOPT_URL\<close>, which copies
  its string and can run out of memory; the class does not look at that one. Integers that are
  passed where libcurl reads a \<open>long\<close> are taken by their value.
\<close>

datatype requests_flag = R_None | R_Download | R_Post | R_Get

record curl_opts =
  opt_url :: "string option"
  opt_port :: "int option"
  opt_timeout :: "int option"
  opt_connect_timeout :: "int option"
  opt_agent :: "string option"
  opt_resume :: "int option"
  opt_cookie :: "string option"
  opt_headers :: "nat option"
  opt_post :: bool
  opt_fields :: "string option"
  opt_fieldsize :: int
  opt_progress :: bool
  opt_follow :: bool
  opt_verify :: bool

record request =
  rq_post :: bool
  rq_url :: "string option"
  rq_port :: "int option"
  rq_headers :: "string list"
  rq_body :: string

record requests =
  m_pCurl :: bool
  m_Port :: int
  fp :: "string option"
  m_curlCode :: int
  m_Respons_str :: string
  m_Flag :: requests_flag
  m_headerlist :: "nat option"
  m_pCallbackParam :: nat
  m_Callback :: bool
  opts :: curl_opts
  slists :: "nat \<Rightarrow> string list option"
  next_slist :: nat
  file_log :: "(string \<times> string) list"
  sent_log :: "request list"

record reply =
  rp_chunks :: "string list"
  rp_progress :: nat
  rp_code :: int

type_synonym 'a req_result = "requests \<times> 'a res"

definition CURLE_OK :: int where "CURLE_OK = 0"
definition CURLE_WRITE_ERROR :: int where "CURLE_WRITE_ERROR = 23"
definition CURLE_BAD_FUNCTION_ARGUMENT :: int where "CURLE_BAD_FUNCTION_ARGUMENT = 43"

definition default_opts :: curl_opts where
  "default_opts = \<lparr>opt_url = None, opt_port = None, opt_timeout = None, opt_connect_timeout = None,
     opt_agent = None, opt_resume = None, opt_cookie = None, opt_headers = None, opt_post = False,
     opt_fields = None, opt_fieldsize = - 1, opt_progress = False, opt_follow = False,
     opt_verify = True\<rparr>"

text \<open>The constructor; \<open>init\<close> says whether \<open>curl_easy_init\<close> gives a handle.\<close>

definition HttpRequests_ctor :: "bool \<Rightarrow> requests" where
  "HttpRequests_ctor init = \<lparr>m_pCurl = init, m_Port = 8080, fp = None, m_curlCode = CURLE_OK,
     m_Respons_str = [], m_Flag = R_None, m_headerlist = None, m_pCallbackParam = 0,
     m_Callback = False, opts = default_opts, slists = (\<lambda>_. None), next_slist = 0, file_log = [],
     sent_log = []\<rparr>"

text \<open>\<open>curl_easy_setopt\<close> with result \<open>code\<close>; a null handle is an error.\<close>

definition setopt :: "int \<Rightarrow> (curl_opts \<Rightarrow> curl_opts) \<Rightarrow> requests \<Rightarrow> requests \<times> int" where
  "setopt code f h =
     (if \<not> m_pCurl h then (h, CURLE_BAD_FUNCTION_ARGUMENT)
      else (if code = CURLE_OK then h\<lparr>opts := f (opts h)\<rparr> else h, code))"

definition setopt_ok :: "(curl_opts \<Rightarrow> curl_opts) \<Rightarrow> requests \<Rightarrow> requests" where
  "setopt_ok f h = fst (setopt CURLE_OK f h)"

text \<open>\<open>CURLOPT_URL\<close>, whose result the class ignores.\<close>

definition set_url :: "int \<Rightarrow> string \<Rightarrow> requests \<Rightarrow> requests" where
  "set_url code url h = fst (setopt code (\<lambda>opts. opts\<lparr>opt_url := Some url\<rparr>) h)"

text \<open>Set an option, keep the code, and say whether it is \<open>CURLE_OK\<close>.\<close>

definition setopt_result :: "int \<Rightarrow> (curl_opts \<Rightarrow> curl_opts) \<Rightarrow> requests \<Rightarrow> requests \<times> bool" where
  "setopt_result code f h =
     (case setopt code f h of (h', rc) \<Rightarrow> (h'\<lparr>m_curlCode := rc\<rparr>, rc = CURLE_OK))"

definition SetPort :: "int \<Rightarrow> int \<Rightarrow> requests \<Rightarrow> requests \<times> bool" where
  "SetPort code port h =
     (if port = m_Port h then (h, True)
      else setopt_result code (\<lambda>opts. opts\<lparr>opt_port := Some port\<rparr>) (h\<lparr>m_Port := port\<rparr>))"

definition SetExecutTimeout :: "int \<Rightarrow> int \<Rightarrow> requests \<Rightarrow> requests \<times> bool" where
  "SetExecutTimeout code nSecond h =
     (if nSecond < 0 then (h, False)
      else setopt_result code (\<lambda>opts. opts\<lparr>opt_timeout := Some nSecond\<rparr>) h)"

definition SetConnectTimeout :: "int \<Rightarrow> int \<Rightarrow> requests \<Rightarrow> requests \<times> bool" where
  "SetConnectTimeout code nSecond h =
     (if nSecond < 0 then (h, False)
      else setopt_result code (\<lambda>opts. opts\<lparr>opt_connect_timeout := Some nSecond\<rparr>) h)"

definition SetUserAgent :: "int \<Rightarrow> string option \<Rightarrow> requests \<Rightarrow> requests \<times> bool" where
  "SetUserAgent code lpAgent h =
     (case lpAgent of
        None \<Rightarrow> (h, False)
      | Some a \<Rightarrow> setopt_result code (\<lambda>opts. opts\<lparr>opt_agent := Some a\<rparr>) h)"

definition SetResumeFrom :: "int \<Rightarrow> int \<Rightarrow> requests \<Rightarrow> requests \<times> bool" where
  "SetResumeFrom code lPos h =
     (if lPos < 0 then (h, False)
      else setopt_result code (\<lambda>opts. opts\<lparr>opt_resume := Some lPos\<rparr>) h)"

definition SetCookie :: "int \<Rightarrow> string option \<Rightarrow> requests \<Rightarrow> requests \<times> bool" where
  "SetCookie code lpCookie h =
     (case lpCookie of
        None \<Rightarrow> (h, False)
      | Some k \<Rightarrow> setopt_result code (\<lambda>opts. opts\<lparr>opt_cookie := Some k\<rparr>) h)"

text \<open>
  \<open>curl_slist_append\<close> copies a C string, makes a list of its own for a null pointer and keeps the
  pointer else. When it cannot allocate (\<open>ok\<close> is false) it returns null and leaves the list alone;
  the assignment to \<open>m_headerlist\<close> then loses it.
\<close>

definition c_str :: "string \<Rightarrow> string" where
  "c_str s = takeWhile (\<lambda>c. c \<noteq> NUL) s"

definition slist_append :: "bool \<Rightarrow> string \<Rightarrow> requests \<Rightarrow> requests" where
  "slist_append ok line h =
     (if \<not> ok then h\<lparr>m_headerlist := None\<rparr>
      else (case m_headerlist h of
        None \<Rightarrow> h\<lparr>m_headerlist := Some (next_slist h), next_slist := Suc (next_slist h),
                  slists := (slists h)(next_slist h \<mapsto> [c_str line])\<rparr>
      | Some p \<Rightarrow>
          h\<lparr>slists := (slists h)(p := map_option (\<lambda>ls. ls @ [c_str line]) (slists h p))\<rparr>))"

definition AddHeader :: "int \<Rightarrow> bool \<Rightarrow> string \<Rightarrow> string \<Rightarrow> requests \<Rightarrow> requests \<times> bool" where
  "AddHeader code ok lpKey lpValue h =
     (if length lpKey = 0 \<or> length lpValue = 0 then (h, False)
      else
        (let h = slist_append ok (lpKey @ '': '' @ lpValue) h
         in setopt_result code (\<lambda>opts. opts\<lparr>opt_headers := m_headerlist h\<rparr>) h))"

definition ClearHeaderList :: "requests \<Rightarrow> requests" where
  "ClearHeaderList h =
     (case m_headerlist h of
        None \<Rightarrow> h
      | Some p \<Rightarrow> h\<lparr>slists := (slists h)(p := None), m_headerlist := None\<rparr>)"

text \<open>The destructor, which does not close \<open>fp\<close>.\<close>

definition HttpRequests_dtor :: "requests \<Rightarrow> requests" where
  "HttpRequests_dtor h = (ClearHeaderList h)\<lparr>m_pCurl := False\<rparr>"

definition SetCallback :: "bool \<Rightarrow> nat \<Rightarrow> requests \<Rightarrow> requests" where
  "SetCallback pCallback lParam h = h\<lparr>m_pCallbackParam := lParam, m_Callback := pCallback\<rparr>"

subsection \<open>Transfers\<close>

text \<open>
  \<open>WriteCallback\<close> on one piece: its return value. \<open>fwrite_ok\<close> says whether \<open>fwrite\<close> writes the
  piece. The download branch leaves the return value at 0.
\<close>

definition WriteCallback :: "bool \<Rightarrow> string \<Rightarrow> requests \<Rightarrow> requests \<times> nat" where
  "WriteCallback fwrite_ok piece h =
     (case m_Flag h of
        R_Download \<Rightarrow>
          (case fp h of
             None \<Rightarrow> (h, 0)
           | Some f \<Rightarrow>
               if \<not> fwrite_ok \<or> piece = [] then (h, 0)
               else (h\<lparr>file_log := file_log h @ [(f, piece)]\<rparr>, 0))
      | R_Post \<Rightarrow> (h\<lparr>m_Respons_str := m_Respons_str h @ piece\<rparr>, length piece)
      | R_Get \<Rightarrow> (h\<lparr>m_Respons_str := m_Respons_str h @ piece\<rparr>, length piece)
      | R_None \<Rightarrow> (h, 0))"

fun deliver :: "bool \<Rightarrow> string list \<Rightarrow> requests \<Rightarrow> requests \<times> bool" where
  "deliver fwrite_ok [] h = (h, True)"
| "deliver fwrite_ok (piece # pieces) h =
     (case WriteCallback fwrite_ok piece h of
        (h', n) \<Rightarrow> if n = length piece then deliver fwrite_ok pieces h' else (h', False))"

text \<open>\<open>ProgressCallback\<close> calls through \<open>m_Callback\<close>; its object is the class itself, never null.\<close>

definition ProgressCallback :: "requests \<Rightarrow> unit res" where
  "ProgressCallback h = (if m_Callback h then Inr () else Inl Null_deref)"

definition post_body :: "curl_opts \<Rightarrow> string res" where
  "post_body o' =
     (if \<not> opt_post o' then Inr []
      else (case opt_fields o' of
              None \<Rightarrow> Inr []
            | Some blk \<Rightarrow>
                if opt_fieldsize o' = - 1 then bind_res (strlen blk) (\<lambda>n. Inr (take n blk))
                else if nat (opt_fieldsize o') \<le> length blk
                  then Inr (take (nat (opt_fieldsize o')) blk)
                else Inl Out_of_bounds))"

definition make_request :: "requests \<Rightarrow> request res" where
  "make_request h =
     bind_res (case opt_headers (opts h) of
                 None \<Rightarrow> Inr []
               | Some p \<Rightarrow> (case slists h p of None \<Rightarrow> Inl Dangling | Some ls \<Rightarrow> Inr ls)) (\<lambda>ls.
     bind_res (post_body (opts h)) (\<lambda>body.
       Inr \<lparr>rq_post = opt_post (opts h), rq_url = opt_url (opts h), rq_port = opt_port (opts h),
            rq_headers = ls, rq_body = body\<rparr>))"

definition curl_perform :: "(request \<Rightarrow> reply) \<Rightarrow> bool \<Rightarrow> requests \<Rightarrow> int req_result" where
  "curl_perform net fwrite_ok h =
     (if \<not> m_pCurl h then (h, Inr CURLE_BAD_FUNCTION_ARGUMENT)
      else (case make_request h of
              Inl e \<Rightarrow> (h, Inl e)
            | Inr rq \<Rightarrow>
                (let rp = net rq; h = h\<lparr>sent_log := sent_log h @ [rq]\<rparr> in
                 if opt_progress (opts h) \<and> 0 < rp_progress rp \<and> ProgressCallback h = Inl Null_deref
                 then (h, Inl Null_deref)
                 else (case deliver fwrite_ok (rp_chunks rp) h of
                         (h', True) \<Rightarrow> (h', Inr (rp_code rp))
                       | (h', False) \<Rightarrow> (h', Inr CURLE_WRITE_ERROR)))))"

definition perform_result :: "(request \<Rightarrow> reply) \<Rightarrow> bool \<Rightarrow> requests \<Rightarrow> bool req_result" where
  "perform_result net fwrite_ok h =
     (case curl_perform net fwrite_ok h of
        (h', Inl e) \<Rightarrow> (h', Inl e)
      | (h', Inr rc) \<Rightarrow> (h'\<lparr>m_curlCode := rc\<rparr>, Inr (rc = CURLE_OK)))"

text \<open>\<open>DownloadFile\<close>. The file it opens for appending is named by \<open>lpUrl\<close>; \<open>fopen_ok\<close> is whether it
  opens.\<close>

definition DownloadFile ::
  "int \<Rightarrow> (request \<Rightarrow> reply) \<Rightarrow> bool \<Rightarrow> bool \<Rightarrow> string option \<Rightarrow> string option \<Rightarrow> requests \<Rightarrow>
   bool req_result" where
  "DownloadFile code net fopen_ok fwrite_ok lpUrl lpFile h =
     (case (lpUrl, lpFile) of
        (Some url, Some file) \<Rightarrow>
          (let h = set_url code url h in
           if \<not> fopen_ok then (h\<lparr>fp := None\<rparr>, Inr False)
           else perform_result net fwrite_ok
             ((setopt_ok (\<lambda>opts. opts\<lparr>opt_progress := True\<rparr>) (h\<lparr>fp := Some url\<rparr>))\<lparr>m_Flag := R_Download\<rparr>))
      | _ \<Rightarrow> (h, Inr False))"

definition Post_string ::
  "int \<Rightarrow> (request \<Rightarrow> reply) \<Rightarrow> string option \<Rightarrow> string option \<Rightarrow> requests \<Rightarrow> bool req_result" where
  "Post_string code net lpUrl lpData h =
     (case (lpUrl, lpData) of
        (Some url, Some data) \<Rightarrow>
          if \<not> m_pCurl h then (h, Inr False)
          else perform_result net True
            ((setopt_ok (\<lambda>opts. opts\<lparr>opt_fields := Some data\<rparr>)
                (set_url code url (setopt_ok (\<lambda>opts. opts\<lparr>opt_post := True\<rparr>) h)))
              \<lparr>m_Flag := R_Post, m_Respons_str := []\<rparr>)
      | _ \<Rightarrow> (h, Inr False))"

definition Post_binary ::
  "int \<Rightarrow> (request \<Rightarrow> reply) \<Rightarrow> string option \<Rightarrow> string option \<Rightarrow> nat \<Rightarrow> requests \<Rightarrow> bool req_result" where
  "Post_binary code net lpUrl lpData nSize h =
     (case (lpUrl, lpData) of
        (Some url, Some data) \<Rightarrow>
          if \<not> m_pCurl h then (h, Inr False)
          else perform_result net True
            ((set_url code url (setopt_ok (\<lambda>opts. opts\<lparr>opt_post := True, opt_fields := Some data,
                opt_fieldsize := int nSize\<rparr>) h))
              \<lparr>m_Flag := R_Post, m_Respons_str := []\<rparr>)
      | _ \<Rightarrow> (h, Inr False))"

definition Get_url ::
  "int \<Rightarrow> (request \<Rightarrow> reply) \<Rightarrow> string option \<Rightarrow> requests \<Rightarrow> bool req_result" where
  "Get_url code net lpUrl h =
     (case lpUrl of
        None \<Rightarrow> (h, Inr False)
      | Some url \<Rightarrow>
          perform_result net True
            ((setopt_ok (\<lambda>opts. opts\<lparr>opt_follow := True, opt_verify := False\<rparr>)
                (set_url code url (setopt_ok (\<lambda>opts. opts\<lparr>opt_post := False\<rparr>) h)))
              \<lparr>m_Flag := R_Get, m_Respons_str := []\<rparr>))"

definition GetRespons :: "requests \<Rightarrow> string" where
  "GetRespons h = m_Respons_str h"

definition GetErrorInfo :: "(int \<Rightarrow> string) \<Rightarrow> requests \<Rightarrow> string" where
  "GetErrorInfo strerror h = strerror (m_curlCode h)"

subsection \<open>Lemmas\<close>

lemma setopt_ok_simps [simp]:
  "m_pCurl h \<Longrightarrow> setopt_ok f h = h\<lparr>opts := f (opts h)\<rparr>"
  "\<not> m_pCurl h \<Longrightarrow> setopt_ok f h = h"
  by (simp_all add: setopt_ok_def setopt_def)

lemma set_url_simps [simp]:
  "m_pCurl h \<Longrightarrow> set_url code url h =
    h\<lparr>opts := (opts h)\<lparr>opt_url := if code = CURLE_OK then Some url else opt_url (opts h)\<rparr>\<rparr>"
  "\<not> m_pCurl h \<Longrightarrow> set_url code url h = h"
  by (simp_all add: set_url_def setopt_def)

lemma deliver_text:
  "m_Flag h = R_Get \<or> m_Flag h = R_Post \<Longrightarrow>
    deliver w ps h = (h\<lparr>m_Respons_str := m_Respons_str h @ concat ps\<rparr>, True)"
  by (induction ps arbitrary: h) (auto simp: WriteCallback_def)

lemma deliver_download:
  "m_Flag h = R_Download \<Longrightarrow> fp h = Some f \<Longrightarrow> deliver w ps h = (h', b) \<Longrightarrow>
    (b \<longleftrightarrow> concat ps = []) \<and>
    (file_log h' = file_log h \<or> (\<exists>p \<in> set ps. file_log h' = file_log h @ [(f, p)]))"
proof (induction ps arbitrary: h)
  case (Cons p ps)
  show ?case
  proof (cases "p = []")
    case True
    with Cons.prems have "deliver w ps h = (h', b)" by (simp add: WriteCallback_def)
    with Cons.IH [OF Cons.prems(1,2)] True show ?thesis by auto
  next
    case False
    with Cons.prems show ?thesis by (auto simp: WriteCallback_def split: if_splits)
  qed
qed simp

lemma deliver_keeps:
  "deliver w ps h = (h', b) \<Longrightarrow> opts h' = opts h \<and> slists h' = slists h \<and>
    m_headerlist h' = m_headerlist h \<and> next_slist h' = next_slist h \<and> m_pCurl h' = m_pCurl h \<and>
    sent_log h' = sent_log h"
proof (induction ps arbitrary: h)
  case (Cons p ps)
  obtain h1 n where w: "WriteCallback w p h = (h1, n)" by fastforce
  then have "opts h1 = opts h \<and> slists h1 = slists h \<and> m_headerlist h1 = m_headerlist h \<and>
      next_slist h1 = next_slist h \<and> m_pCurl h1 = m_pCurl h \<and> sent_log h1 = sent_log h"
    by (auto simp: WriteCallback_def split: requests_flag.splits option.splits if_splits)
  with Cons w show ?case by (auto split: if_splits)
qed simp

lemma perform_keeps:
  "perform_result net w h = (h', r) \<Longrightarrow> opts h' = opts h \<and> slists h' = slists h \<and>
    m_headerlist h' = m_headerlist h \<and> next_slist h' = next_slist h \<and> m_pCurl h' = m_pCurl h"
  unfolding perform_result_def curl_perform_def Let_def
  by (auto dest: deliver_keeps split: if_splits sum.splits prod.splits bool.splits)

text \<open>
  \<open>exchanged\<close>: exactly one transfer was made, the response is the body of its answer alone, and the
  result is whether it succeeded. \<open>curl_ready\<close>: libcurl has no pointer to a freed list of headers, and
  its progress calls, when they are on, have an object to go to.
\<close>

definition exchanged :: "(request \<Rightarrow> reply) \<Rightarrow> request \<Rightarrow> requests \<Rightarrow> requests \<Rightarrow> bool \<Rightarrow> bool" where
  "exchanged net rq h h' b \<longleftrightarrow> sent_log h' = sent_log h @ [rq] \<and>
     GetRespons h' = concat (rp_chunks (net rq)) \<and> (b \<longleftrightarrow> rp_code (net rq) = CURLE_OK)"

definition curl_ready :: "requests \<Rightarrow> bool" where
  "curl_ready h \<longleftrightarrow>
     (case opt_headers (opts h) of None \<Rightarrow> True | Some p \<Rightarrow> slists h p \<noteq> None) \<and>
     (opt_progress (opts h) \<longrightarrow> m_Callback h)"

lemma ProgressCallback_null [simp]: "ProgressCallback h = Inl e \<longleftrightarrow> \<not> m_Callback h \<and> e = Null_deref"
  by (auto simp: ProgressCallback_def)

lemma perform_fault:
  "m_pCurl h \<Longrightarrow> make_request h = Inl e \<Longrightarrow> perform_result net w h = (h, Inl e)"
  by (simp add: perform_result_def curl_perform_def)

lemma make_request_Inr:
  "make_request h = Inr rq \<Longrightarrow> rq_post rq = opt_post (opts h) \<and> rq_url rq = opt_url (opts h) \<and>
    post_body (opts h) = Inr (rq_body rq)"
  by (auto simp: make_request_def bind_res_Inr_iff)

lemma make_request_Inl:
  "make_request h = Inl e \<Longrightarrow> \<not> curl_ready h \<or> post_body (opts h) = Inl e"
  by (auto simp: make_request_def curl_ready_def bind_res_Inl_iff split: option.splits)

lemma perform_text:
  assumes "perform_result net w h = (h', r)" and "m_pCurl h"
    and "m_Flag h = R_Get \<or> m_Flag h = R_Post" and "m_Respons_str h = []"
  shows "case r of
      Inl e \<Rightarrow> \<not> curl_ready h \<or> post_body (opts h) = Inl e
    | Inr b \<Rightarrow> \<exists>rq. make_request h = Inr rq \<and> exchanged net rq h h' b"
proof (cases "make_request h")
  case (Inl e)
  with assms(1,2) make_request_Inl [OF Inl] show ?thesis by (auto simp: perform_fault)
next
  case (Inr rq)
  let ?h = "h\<lparr>sent_log := sent_log h @ [rq]\<rparr>"
  have "deliver w ps ?h = (?h\<lparr>m_Respons_str := concat ps\<rparr>, True)" for ps
    using deliver_text [of ?h w ps] assms(3,4) by auto
  with assms(1,2) Inr show ?thesis
    by (auto simp: perform_result_def curl_perform_def Let_def exchanged_def GetRespons_def
        curl_ready_def split: if_splits)
qed

lemma perform_sent:
  assumes "perform_result net w h = (h', Inr b)" and "m_pCurl h"
  shows "\<exists>rq. make_request h = Inr rq \<and> sent_log h' = sent_log h @ [rq]"
  using assms
  by (auto simp: perform_result_def curl_perform_def Let_def dest!: deliver_keeps
      split: sum.splits if_splits prod.splits bool.splits)

lemma perform_deliver:
  assumes "perform_result net w h = (h', Inr b)" and "m_pCurl h"
  shows "\<exists>rq h1 b1. deliver w (rp_chunks (net rq)) (h\<lparr>sent_log := sent_log h @ [rq]\<rparr>) = (h1, b1) \<and>
    h' = h1\<lparr>m_curlCode := (if b1 then rp_code (net rq) else CURLE_WRITE_ERROR)\<rparr> \<and>
    (b \<longleftrightarrow> (if b1 then rp_code (net rq) = CURLE_OK else CURLE_WRITE_ERROR = CURLE_OK))"
  using assms
  by (auto simp: perform_result_def curl_perform_def Let_def
      split: sum.splits prod.splits if_splits bool.splits intro!: exI)

lemma perform_Inl:
  "perform_result net w h = (h', Inl e) \<Longrightarrow> make_request h = Inl e \<or> e = Null_deref"
  by (auto simp: perform_result_def curl_perform_def Let_def
      split: sum.splits if_splits prod.splits bool.splits)

lemma post_body_no_post [simp]: "\<not> opt_post q \<Longrightarrow> post_body q = Inr []"
  by (simp add: post_body_def)

lemma post_body_not_dangling: "post_body q \<noteq> Inl Dangling"
  by (auto simp: post_body_def bind_res_Inl_iff dest: strlen_Inl split: option.splits)



subsection \<open>Header lists\<close>

text \<open>
  The calls that matter for the headers, with \<open>CURLOPT_HTTPHEADER\<close>, which keeps a pointer, succeeding.
  A call carries what libcurl and the system answer: whether a header can be appended, the result of
  \<open>CURLOPT_URL\<close>, whether the file opens and can be written. \<open>net\<close> may answer each transfer of a run
  differently. \<open>transfers\<close> are the calls that get as far as \<open>curl_easy_perform\<close>.
\<close>

datatype req_call =
    Add_header bool string string | Clear_headers | Do_get int string | Do_post int string string
  | Do_post_binary int string string nat | Do_download int bool bool string string

definition ended :: "bool req_result \<Rightarrow> requests res" where
  "ended r = (case r of (h, Inl e) \<Rightarrow> Inl e | (h, Inr b) \<Rightarrow> Inr h)"

fun req_step :: "(nat \<Rightarrow> request \<Rightarrow> reply) \<Rightarrow> req_call \<Rightarrow> requests \<Rightarrow> requests res" where
  "req_step net (Add_header ok k v) h = Inr (fst (AddHeader CURLE_OK ok k v h))"
| "req_step net Clear_headers h = Inr (ClearHeaderList h)"
| "req_step net (Do_get code url) h = ended (Get_url code (net (length (sent_log h))) (Some url) h)"
| "req_step net (Do_post code url data) h =
     ended (Post_string code (net (length (sent_log h))) (Some url) (Some data) h)"
| "req_step net (Do_post_binary code url data n) h =
     ended (Post_binary code (net (length (sent_log h))) (Some url) (Some data) n h)"
| "req_step net (Do_download code fopen_ok fwrite_ok url lpFile) h =
     ended (DownloadFile code (net (length (sent_log h))) fopen_ok fwrite_ok (Some url) (Some lpFile) h)"

fun req_run :: "(nat \<Rightarrow> request \<Rightarrow> reply) \<Rightarrow> req_call list \<Rightarrow> requests \<Rightarrow> requests res" where
  "req_run net [] h = Inr h"
| "req_run net (c # cs) h = bind_res (req_step net c h) (req_run net cs)"

fun transfers :: "req_call \<Rightarrow> bool" where
  "transfers (Add_header ok k v) = False"
| "transfers Clear_headers = False"
| "transfers (Do_download code fopen_ok fwrite_ok url lpFile) = fopen_ok"
| "transfers _ = True"

text \<open>
  What should be sent after some calls: the header lines added since the list was last cleared or
  lost; whether libcurl still has the pointer to a list that was cleared; and the number of lists
  that were lost because a further header could not be appended.
\<close>

type_synonym header_state = "string list \<times> bool \<times> nat"

fun header_step :: "req_call \<Rightarrow> header_state \<Rightarrow> header_state" where
  "header_step (Add_header ok k v) (ls, stale, lost) =
     (if k = [] \<or> v = [] then (ls, stale, lost)
      else if ok then (ls @ [c_str (k @ '': '' @ v)], False, lost)
      else ([], False, lost + (if ls = [] then 0 else 1)))"
| "header_step Clear_headers (ls, stale, lost) = ([], stale \<or> ls \<noteq> [], lost)"
| "header_step _ s = s"

definition header_spec :: "req_call list \<Rightarrow> header_state" where
  "header_spec cs = fold header_step cs ([], False, 0)"

definition header_inv :: "header_state \<Rightarrow> requests \<Rightarrow> bool" where
  "header_inv s h \<longleftrightarrow> m_pCurl h \<and> (\<forall>p. next_slist h \<le> p \<longrightarrow> slists h p = None) \<and>
     (case s of (ls, stale, lost) \<Rightarrow>
        (case m_headerlist h of
           Some p \<Rightarrow> slists h p = Some ls \<and> ls \<noteq> [] \<and> \<not> stale \<and> opt_headers (opts h) = Some p \<and>
             card (dom (slists h)) = Suc lost
         | None \<Rightarrow> ls = [] \<and> card (dom (slists h)) = lost \<and>
             (case opt_headers (opts h) of
                None \<Rightarrow> \<not> stale
              | Some p \<Rightarrow> stale \<and> p < next_slist h \<and> slists h p = None)))"

lemma header_inv_same:
  "header_inv s h \<Longrightarrow> slists h' = slists h \<Longrightarrow> m_headerlist h' = m_headerlist h \<Longrightarrow>
    next_slist h' = next_slist h \<Longrightarrow> m_pCurl h' = m_pCurl h \<Longrightarrow>
    opt_headers (opts h') = opt_headers (opts h) \<Longrightarrow> header_inv s h'"
  by (cases s; cases "m_headerlist h"; cases "opt_headers (opts h)") (simp_all add: header_inv_def)

lemma header_inv_finite: "header_inv s h \<Longrightarrow> finite (dom (slists h))"
  by (rule finite_subset [of _ "{..< next_slist h}"])
    (auto simp: header_inv_def not_le [symmetric] intro: leI)

lemma header_inv_bound: "header_inv s h \<Longrightarrow> slists h p = Some ls \<Longrightarrow> p < next_slist h"
  by (auto simp: header_inv_def not_le [symmetric])

lemma AddHeader_inv:
  assumes inv: "header_inv s h"
  shows "header_inv (header_step (Add_header ok k v) s) (fst (AddHeader CURLE_OK ok k v h))"
proof (cases "k = [] \<or> v = []")
  case True
  with inv show ?thesis by (cases s) (auto simp: AddHeader_def)
next
  case False
  obtain ls stale lost where s: "s = (ls, stale, lost)" by (cases s)
  note fin = header_inv_finite [OF inv]
  from False inv fin s show ?thesis
    by (cases "m_headerlist h"; cases ok)
      (auto simp: header_inv_def AddHeader_def slist_append_def setopt_result_def setopt_def Let_def
        card_insert_if insert_absorb split: option.splits)
qed

lemma ClearHeaderList_inv:
  assumes inv: "header_inv s h"
  shows "header_inv (header_step Clear_headers s) (ClearHeaderList h)"
proof -
  have "card (dom (slists h) - {p}) = n" if "slists h p = Some ls" "card (dom (slists h)) = Suc n" for p ls n
    using that header_inv_finite [OF inv] by (simp add: domI)
  with inv show ?thesis
    by (cases s)
      (auto simp: header_inv_def ClearHeaderList_def not_le [symmetric] split: option.splits)
qed

lemma transfer_perform:
  assumes "transfers c" and "m_pCurl h"
  shows "\<exists>g w net'. req_step net c h = ended (perform_result net' w g) \<and> slists g = slists h \<and>
    m_headerlist g = m_headerlist h \<and> next_slist g = next_slist h \<and> m_pCurl g \<and>
    opt_headers (opts g) = opt_headers (opts h) \<and> sent_log g = sent_log h"
  using assms
  by (cases c) (auto simp: Get_url_def Post_string_def Post_binary_def DownloadFile_def intro!: exI)

lemma ended_perform:
  assumes "ended (perform_result net' w g) = Inr h'" and "m_pCurl g"
  shows "opts h' = opts g \<and> slists h' = slists g \<and> m_headerlist h' = m_headerlist g \<and>
    next_slist h' = next_slist g \<and> m_pCurl h' \<and>
    (\<exists>rq. make_request g = Inr rq \<and> sent_log h' = sent_log g @ [rq])"
  using assms by (auto simp: ended_def dest: perform_keeps perform_sent split: prod.splits sum.splits)

lemma transfer_inv:
  assumes step: "req_step net c h = Inr h'" and inv: "header_inv s h" and c: "transfers c"
  shows "header_inv s h'"
proof -
  from inv have "m_pCurl h" by (simp add: header_inv_def)
  from transfer_perform [OF c this, of net] obtain g w net' where
    g: "req_step net c h = ended (perform_result net' w g)" "slists g = slists h"
    "m_headerlist g = m_headerlist h" "next_slist g = next_slist h" "m_pCurl g"
    "opt_headers (opts g) = opt_headers (opts h)" by blast
  with ended_perform [of net' w g h'] step \<open>m_pCurl h\<close> show ?thesis
    by (intro header_inv_same [OF inv]) auto
qed

lemma req_step_inv:
  assumes step: "req_step net c h = Inr h'" and inv: "header_inv s h"
  shows "header_inv (header_step c s) h'"
proof (cases "transfers c")
  case True
  with transfer_inv [OF step inv] show ?thesis by (cases c; cases s) auto
next
  case False
  show ?thesis
  proof (cases c)
    case (Add_header ok k v)
    with step AddHeader_inv [OF inv] show ?thesis by (auto simp del: header_step.simps)
  next
    case Clear_headers
    with step ClearHeaderList_inv [OF inv] show ?thesis by (auto simp del: header_step.simps)
  next
    case (Do_download code fopen_ok fwrite_ok url lpFile)
    from inv have "m_pCurl h" by (simp add: header_inv_def)
    with Do_download False step have "h' = h\<lparr>opts := (opts h)\<lparr>opt_url := if code = CURLE_OK
        then Some url else opt_url (opts h)\<rparr>, fp := None\<rparr>"
      by (simp add: DownloadFile_def ended_def)
    then have "header_inv s h'" by (intro header_inv_same [OF inv]) simp_all
    with Do_download show ?thesis by (cases s) simp
  qed (use False in simp_all)
qed

lemma req_run_inv:
  "req_run net cs h = Inr h' \<Longrightarrow> header_inv s h \<Longrightarrow> header_inv (fold header_step cs s) h'"
proof (induction cs arbitrary: h s)
  case (Cons c cs)
  then obtain h1 where "req_step net c h = Inr h1" "req_run net cs h1 = Inr h'"
    by (auto simp: bind_res_Inr_iff)
  with Cons.IH [OF _ req_step_inv] Cons.prems(2) show ?case by simp
qed simp

lemma header_inv_ctor: "header_inv ([], False, 0) (HttpRequests_ctor True)"
  by (simp add: header_inv_def HttpRequests_ctor_def default_opts_def)

lemma header_inv_request:
  assumes "header_inv (ls, stale, lost) h" and "opt_headers (opts g) = opt_headers (opts h)"
    and "slists g = slists h"
  shows "stale \<longrightarrow> make_request g = Inl Dangling"
    and "\<not> stale \<longrightarrow> make_request g \<noteq> Inl Dangling"
    and "make_request g = Inr rq \<Longrightarrow> rq_headers rq = ls"
  using assms post_body_not_dangling [of "opts g"]
  by (auto simp: header_inv_def make_request_def bind_res_Inl_iff bind_res_Inr_iff
      split: option.splits)

lemma header_inv_dtor:
  assumes inv: "header_inv (ls, stale, lost) h"
  shows "card (dom (slists (HttpRequests_dtor h))) = lost"
  using ClearHeaderList_inv [OF inv]
  by (auto simp: header_inv_def HttpRequests_dtor_def ClearHeaderList_def split: option.splits)

subsection \<open>Properties\<close>


text \<open>
  C35: Headers. After any calls that add and clear headers and make transfers, whatever was answered to
  them, every transfer is given exactly the header lines that were added, each up to its first NUL,
  since the list was last cleared or lost, in order, whichever of \<open>Get\<close>, \<open>Post\<close> and \<open>DownloadFile\<close> makes
  it. A list is lost when a further header cannot be appended. But when the list was cleared while
  libcurl had a pointer to it and no header was added since, every such call reads freed memory. After
  the destructor exactly the lost lists are left.
\<close>
theorem requests_headers_sent:
  assumes "req_run net cs (HttpRequests_ctor True) = Inr h"
    and "header_spec cs = (ls, stale, lost)" and "transfers c"
  shows "(stale \<longrightarrow> req_step net c h = Inl Dangling) \<and>
    (\<not> stale \<longrightarrow> (case req_step net c h of
       Inl e \<Rightarrow> e \<noteq> Dangling
     | Inr h' \<Rightarrow> \<exists>rq. sent_log h' = sent_log h @ [rq] \<and> rq_headers rq = ls)) \<and>
    card (dom (slists (HttpRequests_dtor h))) = lost"
proof -
  from req_run_inv [OF assms(1) header_inv_ctor] assms(2)
  have inv: "header_inv (ls, stale, lost) h" by (simp add: header_spec_def)
  then have "m_pCurl h" by (simp add: header_inv_def)
  from transfer_perform [OF assms(3) this, of net] obtain g w net' where
    g: "req_step net c h = ended (perform_result net' w g)" "slists g = slists h" "m_pCurl g"
    "opt_headers (opts g) = opt_headers (opts h)" "sent_log g = sent_log h" by blast
  note rq = header_inv_request [OF inv g(4,2)]
  have "req_step net c h = Inl Dangling" if stale
    using rq(1) that g perform_fault [of g Dangling net' w] by (simp add: ended_def)
  moreover have "case req_step net c h of
       Inl e \<Rightarrow> e \<noteq> Dangling
     | Inr h' \<Rightarrow> \<exists>rq. sent_log h' = sent_log h @ [rq] \<and> rq_headers rq = ls" if "\<not> stale"
  proof (cases "req_step net c h")
    case (Inl e)
    with g(1) rq(2) that show ?thesis
      by (auto simp: ended_def dest: perform_Inl split: prod.splits sum.splits)
  next
    case (Inr h')
    with g(1,3,5) ended_perform [of net' w g h'] obtain rq where
      "make_request g = Inr rq" "sent_log h' = sent_log h @ [rq]" by auto
    with Inr rq(3) show ?thesis by simp
  qed
  ultimately show ?thesis using header_inv_dtor [OF inv] by blast
qed

text \<open>
  C36: \<open>DownloadFile\<close> cannot download. Whatever the server answers, a body that is not empty makes it
  return false after at most one piece, because \<open>WriteCallback\<close> returns 0; the piece goes to a file
  named by the URL, and the file name given plays no role.
\<close>
theorem requests_download_fails:
  assumes "DownloadFile code net fopen_ok fwrite_ok (Some url) (Some lpFile) h = (h', Inr b)"
    and "\<And>rq. concat (rp_chunks (net rq)) \<noteq> []"
  shows "\<not> b \<and> (file_log h' = file_log h \<or> (\<exists>piece. file_log h' = file_log h @ [(url, piece)])) \<and>
    DownloadFile code net fopen_ok fwrite_ok (Some url) (Some lpFile') h = (h', Inr b)"
proof (cases "fopen_ok \<and> m_pCurl h")
  case True
  let ?opts = "(opts h)\<lparr>opt_url := if code = CURLE_OK then Some url else opt_url (opts h),
    opt_progress := True\<rparr>"
  let ?h = "h\<lparr>fp := Some url, opts := ?opts, m_Flag := R_Download\<rparr>"
  have perf: "perform_result net fwrite_ok ?h = (h', Inr b)"
    using assms(1) True by (simp add: DownloadFile_def)
  then obtain rq h1 b1 where
    1: "deliver fwrite_ok (rp_chunks (net rq)) (?h\<lparr>sent_log := sent_log h @ [rq]\<rparr>) = (h1, b1)"
    "h' = h1\<lparr>m_curlCode := (if b1 then rp_code (net rq) else CURLE_WRITE_ERROR)\<rparr>"
    "b \<longleftrightarrow> (if b1 then rp_code (net rq) = CURLE_OK else CURLE_WRITE_ERROR = CURLE_OK)"
    using perform_deliver [of net fwrite_ok ?h h' b] True by auto
  from deliver_download [OF _ _ 1(1), of url] assms(2) [of rq]
  have "\<not> b1" "file_log h1 = file_log h \<or> (\<exists>p. file_log h1 = file_log h @ [(url, p)])"
    by auto
  with 1 assms(1) show ?thesis
    by (auto simp: CURLE_OK_def CURLE_WRITE_ERROR_def DownloadFile_def)
next
  case False
  with assms(1) show ?thesis
    by (cases "m_pCurl h"; cases fopen_ok)
      (auto simp: DownloadFile_def perform_result_def curl_perform_def Let_def
        CURLE_OK_def CURLE_BAD_FUNCTION_ARGUMENT_def)
qed

text \<open>The size of a binary \<open>Post\<close> sticks. After \<open>Post(url, data, n)\<close> every later \<open>Post(url, text)\<close>
  sends the first \<open>n\<close> bytes of its text, whatever its length, and reads past it when it is shorter:
  \<open>CURLOPT_POSTFIELDSIZE\<close> is never set back.
\<close>
theorem requests_post_size_sticky:
  assumes "m_pCurl h" and "Post_binary code1 net1 (Some url1) (Some data1) n h = (h1, Inr b1)"
  shows "(n \<le> length block \<longrightarrow> Post_string code2 net2 (Some url2) (Some block) h1 = (h2, Inr b2) \<longrightarrow>
      (\<exists>rq. rq_post rq \<and> rq_body rq = take n block \<and>
        b2 = (rp_code (net2 rq) = CURLE_OK))) \<and>
    (length block < n \<longrightarrow> Post_string code2 net2 (Some url2) (Some block) h1 \<noteq> (h2, Inr b2))"
proof -
  have h1: "opt_fieldsize (opts h1) = int n" "m_pCurl h1"
    using assms by (auto simp: Post_binary_def dest!: perform_keeps)
  let ?h = "h1\<lparr>opts := (opts h1)\<lparr>opt_post := True, opt_url := if code2 = CURLE_OK then Some url2 else opt_url (opts h1), opt_fields := Some block\<rparr>,
    m_Flag := R_Post, m_Respons_str := []\<rparr>"
  have post: "Post_string code2 net2 (Some url2) (Some block) h1 = perform_result net2 True ?h"
    using h1(2) by (simp add: Post_string_def)
  have body: "post_body (opts ?h) =
      (if n \<le> length block then Inr (take n block) else Inl Out_of_bounds)"
    using h1(1) by (simp add: post_body_def)
  have "\<exists>rq. make_request ?h = Inr rq \<and> b2 = (rp_code (net2 rq) = CURLE_OK)"
    if "Post_string code2 net2 (Some url2) (Some block) h1 = (h2, Inr b2)"
    using perform_text [of net2 True ?h h2 "Inr b2"] that h1(2) post by (auto simp: exchanged_def)
  with body show ?thesis
    by (fastforce dest!: make_request_Inr split: if_splits)
qed

subsection \<open>Witnesses\<close>

text \<open>A server that answers the body and the headers, in two pieces.\<close>

definition demo_net :: "request \<Rightarrow> reply" where
  "demo_net rq = \<lparr>rp_chunks = [''hello '', rq_body rq @ concat (rq_headers rq)], rp_progress = 0,
     rp_code = 0\<rparr>"

lemmas req_defs = HttpRequests_ctor_def default_opts_def Get_url_def Post_string_def
  Post_binary_def DownloadFile_def perform_result_def curl_perform_def make_request_def
  post_body_def WriteCallback_def demo_net_def setopt_result_def setopt_def AddHeader_def
  slist_append_def ClearHeaderList_def Let_def CURLE_OK_def CURLE_WRITE_ERROR_def GetRespons_def
  ended_def c_str_def


theorem requests_headers_sent_witness:
  "\<exists>h h'. req_run (\<lambda>_. demo_net) [Add_header True ''A'' ''1'', Add_header False ''B'' ''2'',
      Add_header True ''C'' (''3'' @ [NUL, CHR ''4''])] (HttpRequests_ctor True) = Inr h \<and>
    req_step (\<lambda>_. demo_net) (Do_post_binary 0 ''u'' ''abc'' 3) h = Inr h' \<and>
    map rq_headers (sent_log h') = [[''C: 3'']] \<and> card (dom (slists (HttpRequests_dtor h))) = 1"
proof -
  let ?cs = "[Add_header True ''A'' ''1'', Add_header False ''B'' ''2'',
    Add_header True ''C'' (''3'' @ [NUL, CHR ''4''])]"
  let ?c = "Do_post_binary 0 ''u'' ''abc'' 3"
  obtain h where h: "req_run (\<lambda>_. demo_net) ?cs (HttpRequests_ctor True) = Inr h"
    by (simp add: req_defs)
  then have empty: "sent_log h = []" by (auto simp: req_defs)
  from h obtain h' where h': "req_step (\<lambda>_. demo_net) ?c h = Inr h'"
    by (auto simp: req_defs)
  have "header_spec ?cs = ([''C: 3''], False, 1)" "transfers ?c"
    by (simp_all add: header_spec_def c_str_def)
  from requests_headers_sent [OF h this] h' empty
  have "map rq_headers (sent_log h') = [[''C: 3'']]" "card (dom (slists (HttpRequests_dtor h))) = 1"
    by auto
  with h h' show ?thesis by (intro exI conjI)
qed

theorem requests_download_fails_witness:
  "\<exists>h'. DownloadFile CURLE_OK demo_net True True (Some ''http://h/f'') (Some ''out'')
      (HttpRequests_ctor True) = (h', Inr False) \<and> file_log h' \<noteq> []"
proof -
  obtain h' b where d: "DownloadFile CURLE_OK demo_net True True (Some ''http://h/f'') (Some ''out'')
      (HttpRequests_ctor True) = (h', Inr b)" "file_log h' \<noteq> []"
    by (auto simp: req_defs)
  have nonempty: "concat (rp_chunks (demo_net rq)) \<noteq> []" for rq by (simp add: demo_net_def)
  have "\<not> b" using requests_download_fails [OF d(1) nonempty] by blast
  with d show ?thesis by auto
qed

theorem requests_post_size_sticky_witness:
  "\<exists>h1. Post_binary CURLE_OK demo_net (Some ''u'') (Some ''abcdef'') 6 (HttpRequests_ctor True) =
      (h1, Inr True) \<and>
    (\<forall>h2 b2. Post_string CURLE_OK demo_net (Some ''u'') (Some (''xy'' @ [NUL])) h1 \<noteq> (h2, Inr b2))"
proof -
  obtain h1 where p: "Post_binary CURLE_OK demo_net (Some ''u'') (Some ''abcdef'') 6
      (HttpRequests_ctor True) = (h1, Inr True)"
    by (simp add: req_defs)
  have "m_pCurl (HttpRequests_ctor True)" by (simp add: req_defs)
  from requests_post_size_sticky [OF this p, of "''xy'' @ [NUL]"] p show ?thesis by auto
qed

end
