(* ===== verification/Web_Server.thy ===== *)
theory Web_Server
  imports Leano_Prelude
begin

section \<open>The crow server wrapper (src/http_server.cpp, include/http_server.h)\<close>

text \<open>
  \<open>HttpServer\<close> registers handlers with a \<open>crow::App\<close>, which is not part of the program: the routes it
  has been given are a list. \<open>route_dynamic(move(url))\<close> takes the string away from the caller;
  \<open>moved url\<close> is what it leaves in it, a parameter, since the standard only says that the string is
  valid (libstdc++ leaves it empty). \<open>cast\<close> is \<open>boost::lexical_cast<uint16_t>\<close>. The handler map and the
  app are static: all objects share them.
\<close>

datatype http_method = POST | GET

text \<open>\<open>Middleware\<close> holds a message; its two hooks are empty.\<close>

record middleware =
  message :: string

definition Middleware_ctor :: middleware where "Middleware_ctor = \<lparr>message = ''foo''\<rparr>"

definition setMessage :: "string \<Rightarrow> middleware \<Rightarrow> middleware" where
  "setMessage newMsg m = m\<lparr>message := newMsg\<rparr>"

definition before_handle :: "'req \<Rightarrow> 'res \<Rightarrow> middleware \<Rightarrow> 'req \<times> 'res \<times> middleware" where
  "before_handle req res m = (req, res, m)"

definition after_handle :: "'req \<Rightarrow> 'res \<Rightarrow> middleware \<Rightarrow> 'req \<times> 'res \<times> middleware" where
  "after_handle req res m = (req, res, m)"

record 'h web_app =
  s_handler_map :: "string \<Rightarrow> 'h option"
  routes :: "(http_method \<times> string \<times> 'h) list"
  app_middleware :: middleware
  run_port :: "nat option"

definition web_app_init :: "'h web_app" where
  "web_app_init = \<lparr>s_handler_map = (\<lambda>_. None), routes = [], app_middleware = Middleware_ctor,
     run_port = None\<rparr>"

text \<open>\<open>Init\<close> keeps the port in the object and the message in the middleware.\<close>

definition Http_Init :: "string \<Rightarrow> string \<Rightarrow> 'h web_app \<Rightarrow> string \<times> 'h web_app" where
  "Http_Init port msg app = (port, app\<lparr>app_middleware := setMessage msg (app_middleware app)\<rparr>)"

text \<open>\<open>Start\<close> runs the app and then falls off its end without a \<open>return\<close>.\<close>

definition Http_Start :: "(string \<Rightarrow> nat option) \<Rightarrow> string \<Rightarrow> 'h web_app \<Rightarrow> 'h web_app \<times> bool res" where
  "Http_Start cast m_port app =
     (case cast m_port of
        None \<Rightarrow> (app, Inr False)
      | Some port \<Rightarrow> (app\<lparr>run_port := Some port\<rparr>, Inl No_return))"

text \<open>
  The two functions that add a handler. \<open>unordered_map::insert\<close> keeps an entry that is there. The
  caller's string is returned too.
\<close>

definition AddHandler ::
  "http_method \<Rightarrow> (string \<Rightarrow> string) \<Rightarrow> string \<Rightarrow> 'h \<Rightarrow> 'h web_app \<Rightarrow> string \<times> 'h web_app" where
  "AddHandler meth moved url req_handler app =
     (if s_handler_map app url \<noteq> None then (url, app)
      else
        (let app = app\<lparr>routes := routes app @ [(meth, url, req_handler)]\<rparr>;
             url = moved url
         in (url, if s_handler_map app url \<noteq> None then app
                  else app\<lparr>s_handler_map := (s_handler_map app)(url \<mapsto> req_handler)\<rparr>)))"

definition AddPostHandler ::
  "(string \<Rightarrow> string) \<Rightarrow> string \<Rightarrow> 'h \<Rightarrow> 'h web_app \<Rightarrow> string \<times> 'h web_app" where
  "AddPostHandler = AddHandler POST"

definition AddGetHandler ::
  "(string \<Rightarrow> string) \<Rightarrow> string \<Rightarrow> 'h \<Rightarrow> 'h web_app \<Rightarrow> string \<times> 'h web_app" where
  "AddGetHandler = AddHandler GET"

fun add_handlers ::
  "(string \<Rightarrow> string) \<Rightarrow> (http_method \<times> string \<times> 'h) list \<Rightarrow> 'h web_app \<Rightarrow> 'h web_app" where
  "add_handlers moved [] app = app"
| "add_handlers moved ((POST, url, h) # rs) app =
     add_handlers moved rs (snd (AddPostHandler moved url h app))"
| "add_handlers moved ((GET, url, h) # rs) app =
     add_handlers moved rs (snd (AddGetHandler moved url h app))"

subsection \<open>Routes\<close>

text \<open>
  What the handler map is for: of several registrations of one URL only the first counts.
\<close>

fun first_of_each :: "string set \<Rightarrow> (http_method \<times> string \<times> 'h) list \<Rightarrow> (http_method \<times> string \<times> 'h) list" where
  "first_of_each seen [] = []"
| "first_of_each seen ((m, u, h) # rs) =
     (if u \<in> seen then first_of_each seen rs else (m, u, h) # first_of_each (insert u seen) rs)"

lemma add_handlers_Cons:
  "add_handlers moved ((m, u, h) # rs) app = add_handlers moved rs (snd (AddHandler m moved u h app))"
  by (cases m) (simp_all add: AddPostHandler_def AddGetHandler_def)

lemma add_handlers_intended:
  "\<forall>u. moved u = u \<Longrightarrow>
    routes (add_handlers moved rs app) =
      routes app @ first_of_each (dom (s_handler_map app)) rs"
proof (induction rs arbitrary: app)
  case (Cons r rs)
  obtain m u h where r: "r = (m, u, h)" by (cases r)
  show ?case
  proof (cases "s_handler_map app u")
    case None
    with Cons r show ?thesis
      by (auto simp: add_handlers_Cons AddHandler_def Let_def domIff)
  next
    case (Some x)
    then have "u \<in> dom (s_handler_map app)" by blast
    with Cons r Some show ?thesis by (simp add: add_handlers_Cons AddHandler_def)
  qed
qed simp

lemma add_handlers_moved:
  "\<forall>u. moved u = [] \<Longrightarrow> dom (s_handler_map app) \<subseteq> {[]} \<Longrightarrow> \<forall>(m, u, h) \<in> set rs. u \<noteq> [] \<Longrightarrow>
    routes (add_handlers moved rs app) = routes app @ rs \<and>
    dom (s_handler_map (add_handlers moved rs app)) \<subseteq> {[]}"
proof (induction rs arbitrary: app)
  case (Cons r rs)
  obtain m u h where r: "r = (m, u, h)" by (cases r)
  have "s_handler_map app u = None" using Cons.prems r by (auto simp: subset_iff domIff)
  with Cons r show ?case
    by (auto simp: add_handlers_Cons AddHandler_def Let_def)
qed simp

subsection \<open>Properties\<close>

text \<open>
  C40: Whether duplicate URLs are recognised depends on what \<open>route_dynamic(move(url))\<close> leaves in the
  string. If it leaves the string alone, the routes are the first registration of each URL, as the
  handler map is meant for; but the map is filled after the move, so when the string is emptied
  every registration of a non-empty URL becomes a route, duplicates included, and the map never has
  a key but the empty string.
\<close>
theorem web_server_routes:
  "routes (add_handlers (\<lambda>u. u) rs web_app_init) = first_of_each {} rs \<and>
   ((\<forall>(m, u, h) \<in> set rs. u \<noteq> []) \<longrightarrow>
     routes (add_handlers (\<lambda>u. []) rs web_app_init) = rs \<and>
     dom (s_handler_map (add_handlers (\<lambda>u. []) rs web_app_init)) \<subseteq> {[]})"
  using add_handlers_intended [of "\<lambda>u. u" rs web_app_init]
    add_handlers_moved [of "\<lambda>u. []" web_app_init rs]
  by (simp add: web_app_init_def)

theorem web_server_routes_witness:
  "routes (add_handlers (\<lambda>u. []) [(POST, ''/a'', 1 :: nat), (POST, ''/a'', 2)] web_app_init) =
     [(POST, ''/a'', 1), (POST, ''/a'', 2)] \<and>
   first_of_each {} [(POST, ''/a'', 1 :: nat), (POST, ''/a'', 2)] = [(POST, ''/a'', 1)]"
  using web_server_routes [of "[(POST, ''/a'', 1 :: nat), (POST, ''/a'', 2)]"] by simp

end
