(* ===== verification/Spec2Isabelle.thy ===== *)
theory Spec2Isabelle
  imports Task_Pool Condition_Queue C_Pool Conn_Threads Lazy_Instance Server_Registration Server_Buffers
    Server_Start Server_Phases Server_Progress Shell_Exec Database Requests Web_Server
begin

text \<open>
  \<^bold>\<open>Leano\<close> is a C++ library with queues, thread pools, a connection pool, an epoll HTTP server and
  wrappers for a database, an HTTP client, an HTTP server, logging and configuration. This
  development models all of it that is not output or glue, and proves what makes each part correct,
  or how it goes wrong. All paths below are under src/.

  \<^bold>\<open>The parts and their theories.\<close>

  \<^item> \<open>Leano_Prelude\<close>: the type \<open>fault\<close> of what a C++ operation can end in (null dereference, access
    outside an array, use of a freed or unset pointer, missing return, exception, mutex held for
    ever), results \<open>'a res\<close>, the conversions between \<open>int\<close>, \<open>unsigned\<close> and \<open>size_t\<close> with their
    wrap-around, and counting in lists.
  \<^item> \<open>Monitor\<close>, \<open>Wakeups\<close>: threads that run critical sections under one mutex, with condition
    variables, spurious wake-ups and any scheduling (\<open>mon_step\<close>, \<open>mon_reach\<close>). The locales state the
    contracts: \<open>monitor_invariant\<close> and \<open>monitor_refines\<close> (every run is a run of an atomic
    specification), \<open>fifo_spec\<close> (what such a specification says of the order of elements),
    \<open>wakeup_discipline\<close> (no wake-up is lost), \<open>stop_discipline\<close> (a stop releases every thread). All
    are interpreted on the two queues below.
  \<^item> \<open>Timed_Wait\<close>: the same threads when some waits have a deadline (\<open>timed_step\<close>, \<open>timed_reach\<close>). A
    deadline may pass at any moment, and the operation then goes on with another section; as POSIX
    allows, the wait may then have consumed a signal that was sent at that moment. The locales
    \<open>timed_ops\<close>, \<open>timed_refines\<close> and \<open>timed_wakeups\<close> carry the laws of the monitor over to such runs, the
    last with a balance: each expired wait takes at most one wake-up.
  \<^item> \<open>Sync_Queue\<close>: include/SyncQueue.hpp. State \<open>sync_queue\<close>; \<open>Add\<close>, \<open>Take\<close>, \<open>Take(list)\<close>, \<open>Stop\<close> and the
    observers are sections over the two condition variables.
  \<^item> \<open>Task_Pool\<close>: include/ThreadPool.hpp, the template pool over a \<open>SyncQueue\<close>. Workers
    (\<open>RunInThread\<close>), \<open>AddData\<close>, \<open>Pause\<close>, \<open>Continues\<close> and \<open>Stop\<close> are steps that interleave; the calls of
    the queue are its atomic sections.
  \<^item> \<open>Condition_Queue\<close>: include/conditionqueue.h, in the same way, with \<open>wait_timeout_pop\<close> as a timed
    operation (\<open>Timed_pop\<close>, \<open>Timed_out\<close>) and, for its caller alone, as the function \<open>wait_timeout_pop\<close>
    over what each timed wait returns; \<open>wait_timeout_pop_sections\<close> relates the two.
  \<^item> \<open>C_Pool\<close>: src/thread_pool.cpp and include/thread_pool.h, the pool on pthreads, one step per
    access to the mutex. The type \<open>build\<close> has three builds: with \<open>DEBUG\<close>, on which the wait on the
    condition variable depends; and without it, where the loop that spins on two plain fields either
    reads them in every turn or, as an optimising compiler may make it, only once before.
  \<^item> \<open>Conn_Pool\<close>: src/connection_pool.cpp, over the set of connection objects that exist; the MySQL
    driver is a parameter. \<open>Conn_Threads\<close> makes its operations the sections of a monitor that any
    number of threads share; what each thread holds is read off the log.
  \<^item> \<open>Lazy_Instance\<close>: \<open>ConnPool::GetInstance\<close> and \<open>IAocSingleton::get_instance\<close> cut at their accesses to
    the static pointer, for threads that interleave as a schedule says; a call that runs alone is
    the sequential model of the same function (\<open>GetInstance_alone\<close>, \<open>get_instance_alone\<close>).
  \<^item> \<open>C_String\<close>: blocks of bytes and the functions of the C library on them, with reads and writes
    past the end as faults.
  \<^item> \<open>Http_Parse\<close>: the parser of src/epoll_server.cpp (\<open>process_request_line\<close>, \<open>process_head\<close>,
    \<open>process_body\<close>) on a connection \<open>web_connection\<close> of include/epoll_server.h.
  \<^item> \<open>Epoll_Server\<close>: the rest of src/epoll_server.cpp, and src/epoll_event.cpp: buffers, \<open>recv\<close>,
    \<open>accept\<close>, \<open>send\<close>, socket flags, the interest list, the event loop and \<open>main\<close>. Between events the
    state is a record \<open>server\<close>; \<open>server_reach\<close> are the states that the loop can reach, and
    \<open>server_run env\<close> those that it reaches while the kernel and the clients satisfy \<open>env\<close>. The kernel
    may refuse memory, descriptors and registrations (\<open>io_epoll_add\<close>). The contracts between parser, handlers and loop are the locales of \<open>Handler_Laws\<close> (\<open>parser_relation\<close>,
    \<open>reader_relation\<close>: what holds between a connection before and after a parse or a read) and
    \<open>Loop_Invariants\<close> (\<open>loop_invariant\<close>; \<open>connection_invariant\<close>, which is one for every connection).
    \<open>Server_Safety\<close>, \<open>Server_Registration\<close>, \<open>Server_Buffers\<close> and \<open>Server_Start\<close> interpret them on the
    identity of a connection, its registration, the bounds of its buffer (for clients that send no
    NUL) and the flags of the sockets; \<open>Server_Isolation\<close> shows that a turn leaves the connections it
    does not report, and those that epoll did not take, alone, \<open>Server_Serving\<close> composes turns of the
    loop into a served request, \<open>Server_Phases\<close> shows that the loop refines the lives of its
    connections (\<open>life\<close>: receiving, answering, closed, or lost), each followed by its address, and
    \<open>Server_Progress\<close> runs the loop (\<open>event_loop\<close>) over any sequence of batches.
  \<^item> \<open>Logging\<close> (include/logging.hpp), \<open>Configuration\<close> (src/config.cpp, include/config.h,
    include/aocsingleton.hpp), \<open>Shell_Exec\<close> (\<open>myexec\<close> of src/common.cpp), \<open>Database\<close>
    (src/DBOperation.cpp), \<open>Requests\<close> (src/http_requests.cpp, include/http_requests.h), \<open>Web_Server\<close>
    (src/http_server.cpp, include/http_server.h).

  \<^bold>\<open>How they interact.\<close> The template pool hands its parameters to its workers through a \<open>SyncQueue\<close>; the
  model of the pool uses the sections of the model of the queue. The parser is called by the read
  handler on what \<open>recv\<close> has put into the buffer of a connection, and arms the connection for the
  write handler; the loop calls handlers through the connection that an event points to, and
  handlers free connections. The threads of a program share the connection pool through its lazy
  instance. \<open>Config::output\<close> and the exception handler of \<open>Config::init\<close> write through the log. The other parts do not call each other.

  \<^bold>\<open>What is proved.\<close>

  \<^item> Queues: linearizability (refinement of a bounded or unbounded FIFO queue), order of elements,
    bounds, no lost wake-ups, release by \<open>Stop\<close>; and the operations for which this fails
    (\<open>Take(list)\<close> wakes one producer only, \<open>wait_size\<close> does not count waiters, a timed pop can
    report nothing beside a non-empty queue, can take the wake-up of a pop with it and takes its
    timeout for a date).
  \<^item> Pools: every task is processed once and in order, mutual exclusion, termination of \<open>Stop\<close> and
    \<open>pool_destory\<close> by measures; and where threads hang, spin or lose messages.
  \<^item> Connection pool: the connections that exist are the idle and the handed-out ones, at most
    \<open>maxSize\<close>, for one client and for any number of threads; what an exception does to all of them;
    and when the lazy instance is one object.
  \<^item> Server: every well-formed request that is read whole is answered and its connection closed, with any
    turns for other clients in between; with such clients no turn of the loop faults; the parser reads
    back what a request was rendered from; no handler runs on a freed connection; registrations
    lead to their own connections, and connections are registered unless epoll refused one; sockets
    are non-blocking; the bounds of the buffer are kept while no NUL arrives, and lost when one does;
    how connections end; and the requests on which the parser leaves its arrays.
  \<^item> Wrappers: what each operation returns and changes on every branch, errors included, and the
    contents of what goes in and out (headers, bodies, log lines, output lines).

  \<^bold>\<open>Parameters.\<close> Code that is not in the repository is an argument: the kernel (what arrives, which
  descriptors and memory calls give, what \<open>epoll_wait\<close> reports), MySQL Connector/C++, libcurl,
  jsoncpp, crow and boost. The result sets of the connector are an abstract type. Their documented rules are in the definitions that take them
  (\<open>recv_from\<close>, \<open>new_fd\<close>, \<open>epoll_wait\<close>, \<open>fcntl_setfl\<close>, \<open>curl_perform\<close>).

  \<^bold>\<open>Bounds.\<close> No definition uses fuel. Loops are structural recursion or have a termination measure:
  the arrivals that are left (\<open>read_loop\<close>), the bytes behind the cursor (\<open>process_head\<close>), the output
  that is left (\<open>exec_loop\<close>). Machine integers are \<open>int\<close> and \<open>nat\<close> with the conversions of the prelude
  written out where the code mixes signs or widths, and 32-bit words for socket flags. Lengths of
  buffers stay below \<open>2 ^ 31\<close>, which the statements that need it say; the server's are 1024 bytes and
  grow with what arrives: requests of at most 512 bytes are read whole whatever fresh memory holds,
  longer ones when it is zeroed, in pieces of at most 511 bytes.

  \<^bold>\<open>Not modelled.\<close> Console and debug output, and log output outside the log itself and the
  configuration; \<open>bind\<close> and \<open>listen\<close>, whose results
  \<open>main\<close> ignores, and \<open>signal\<close>; the branch of \<open>Config::init\<close> under \<open>NWITH_FILECONF\<close>, which does not
  compile; the struct \<open>download_param\<close> of include/Msg.h and the struct \<open>server\<close> of
  include/epoll_server.h, which nothing uses; a \<open>release\<close> of an \<open>IAocSingleton\<close> while another thread
  uses it, and two threads in \<open>HttpServer\<close>, which take no lock; a failure of \<open>EPOLL_CTL_MOD\<close> or
  \<open>EPOLL_CTL_DEL\<close> on a registered descriptor, which need no memory; and the build files.
\<close>

end
